(* ===== verification/Gateway_Prelude.thy ===== *)
theory Gateway_Prelude
  imports Main "HOL-Library.Word" "HOL-Library.Multiset"
begin

text \<open>
  Shared vocabulary of the development: the machine types of the C++ sources, the faults that
  stand for undefined behaviour, little-endian encoding of packed structs, the C string
  routines the sources call (\<^verbatim>\<open>strnlen\<close>, \<^verbatim>\<open>strncpy\<close>, \<^verbatim>\<open>std::string(const char*)\<close>), decimal
  printing and reading, a locale that lifts the simulation of a step to runs, and the contract of \<^verbatim>\<open>std::sort\<close> as a locale with an executable instance.
\<close>

unbundle bit_operations_syntax

section \<open>Machine types and faults\<close>

type_synonym byte = "8 word"
type_synonym u16 = "16 word"
type_synonym u32 = "32 word"
type_synonym u64 = "64 word"
type_synonym bytes = "byte list"

text \<open>A file descriptor is a C \<^verbatim>\<open>int\<close>; \<open>-1\<close> is the invalid one.\<close>

type_synonym fd = int

text \<open>
  Undefined behaviour of the C++ program is a value of the model: an operation that would read
  or write past the end of an array, run a C string constructor over an unterminated array, follow a
  freed pointer, free one twice or overflow a signed integer returns the fault instead of a result.
\<close>

datatype fault =
    OutOfBoundsRead | OutOfBoundsWrite | UnterminatedString | UseAfterFree | DoubleFree
  | SignedOverflow

type_synonym 'a outcome = "fault + 'a"

text \<open>
  What a \<^verbatim>\<open>start\<close> method does: it returns, with or without an error, or throws because a thread cannot
  be created.
\<close>

datatype start_result = Started | StartError string | StartThrows

lemma map_sum_id_eq_Inr: "map_sum id g x = Inr y \<longleftrightarrow> (\<exists>z. x = Inr z \<and> y = g z)"
  by (cases x) auto

lemma map_sum_id_eq_Inl: "map_sum id g x = Inl f \<longleftrightarrow> x = Inl f"
  by (cases x) auto

named_theorems codec_simps \<open>lengths and round trips of the wire encodings\<close>
named_theorems model_defs \<open>definitions of the operations, for case analysis\<close>

section \<open>Lists\<close>

lemma takeWhile_id_iff: "takeWhile P xs = xs \<longleftrightarrow> (\<forall>x\<in>set xs. P x)"
  by (metis takeWhile_eq_all_conv)

lemma filter_none_iff: "filter P xs = [] \<longleftrightarrow> (\<forall>x\<in>set xs. \<not> P x)"
  by (simp add: filter_empty_conv)

lemma sorted_wrt_remove1: "sorted_wrt R xs \<Longrightarrow> sorted_wrt R (remove1 x xs)"
  by (induction xs) (auto dest: notin_set_remove1 set_mp [OF set_remove1_subset])

lemma sorted_wrt_filter_any: "sorted_wrt R xs \<Longrightarrow> sorted_wrt R (filter P xs)"
  by (rule sorted_wrt_filter)

section \<open>Words\<close>

lemma unat_of_nat_u64: "n < 2 ^ 64 \<Longrightarrow> unat (of_nat n :: u64) = n"
  by (simp add: unat_of_nat)

lemma xor_eq_0_word: "(a :: 'a::len word) XOR b = 0 \<longleftrightarrow> a = b"
  by (metis xor.assoc xor.left_neutral xor.right_neutral xor_self_eq)

lemma xor_fix_word: "(a :: 'a::len word) XOR b = a \<longleftrightarrow> b = 0"
  by (metis xor.assoc xor.left_neutral xor.right_neutral xor_self_eq)

section \<open>Little-endian words\<close>

text \<open>
  x86 stores integers with the least significant byte first; \<^verbatim>\<open>memcpy\<close> of a packed struct is
  the concatenation of its fields in this form.
\<close>

definition le_bytes :: "nat \<Rightarrow> 'a::len word \<Rightarrow> bytes" where
  "le_bytes n w = map (\<lambda>i. ucast (drop_bit (8 * i) w)) [0..<n]"

fun le_word :: "bytes \<Rightarrow> 'a::len word" where
  "le_word [] = 0"
| "le_word (b # bs) = ucast b OR push_bit 8 (le_word bs)"

lemma length_le_bytes [simp, codec_simps]: "length (le_bytes n w) = n"
  by (simp add: le_bytes_def)

lemma bit_le_word:
  "bit (le_word bs :: 'a::len word) k \<longleftrightarrow>
     k < LENGTH('a) \<and> k < 8 * length bs \<and> bit (bs ! (k div 8)) (k mod 8)"
proof (induction bs arbitrary: k)
  case Nil
  then show ?case by simp
next
  case (Cons b bs)
  show ?case
  proof (cases "k < 8")
    case True
    then show ?thesis
      by (auto simp: bit_simps)
  next
    case False
    then obtain j where k: "k = j + 8"
      by (metis add.commute le_Suc_ex not_less)
    have d: "k div 8 = Suc (j div 8)" "k mod 8 = j mod 8"
      by (simp_all add: k)
    have nb: "\<not> bit b k" if "8 \<le> k"
      using that bit_imp_le_length [of b k] by auto
    show ?thesis
      using Cons.IH [of j] False nb d
      by (auto simp: bit_simps k)
  qed
qed

lemma le_word_le_bytes [simp, codec_simps]:
  fixes w :: "'a::len word"
  assumes "LENGTH('a) = 8 * n"
  shows "le_word (le_bytes n w) = w"
proof (rule bit_word_eqI)
  fix k assume k: "k < LENGTH('a)"
  then have "k div 8 < n" using assms by auto
  moreover have "k mod 8 < 8" by simp
  ultimately show "bit (le_word (le_bytes n w) :: 'a word) k = bit w k"
    using k assms by (simp add: bit_le_word le_bytes_def bit_simps)
qed

lemma le_bytes_le_word [codec_simps]:
  assumes "LENGTH('a::len) = 8 * length bs" and "n = length bs"
  shows "le_bytes n (le_word bs :: 'a word) = bs"
proof (rule nth_equalityI)
  show "length (le_bytes n (le_word bs :: 'a word)) = length bs"
    using assms by simp
next
  fix i assume "i < length (le_bytes n (le_word bs :: 'a word))"
  then have i: "i < length bs" using assms by simp
  show "le_bytes n (le_word bs :: 'a word) ! i = bs ! i"
  proof (rule bit_word_eqI)
    fix k assume k: "k < LENGTH(8)"
    have "(8 * i + k) div 8 = i" and "(8 * i + k) mod 8 = k"
      using k by auto
    then show "bit (le_bytes n (le_word bs :: 'a word) ! i) k = bit (bs ! i) k"
      using i k assms by (auto simp: le_bytes_def bit_simps bit_le_word)
  qed
qed

section \<open>C strings\<close>

text \<open>
  A \<^verbatim>\<open>char*\<close> is the list of bytes from the pointed-to element to the end of its array.
  \<open>cstr\<close> is the constructor \<^verbatim>\<open>std::string(const char*)\<close>, which reads up to the first NUL and
  has no bound; \<open>strnlen\<close> stops after \<open>n\<close> bytes; \<open>strncpy\<close> copies at most \<open>n\<close> bytes of
  \<^verbatim>\<open>s.c_str()\<close> and pads the destination with NULs, so it leaves no terminator when the string
  has \<open>n\<close> bytes or more.
\<close>

abbreviation nonzero :: "byte \<Rightarrow> bool" where
  "nonzero b \<equiv> b \<noteq> 0"

definition cstr :: "bytes \<Rightarrow> bytes outcome" where
  "cstr bs = (if 0 \<in> set bs then Inr (takeWhile nonzero bs) else Inl UnterminatedString)"

definition strnlen :: "bytes \<Rightarrow> nat \<Rightarrow> nat" where
  "strnlen bs n = length (takeWhile nonzero (take n bs))"

definition strncpy :: "nat \<Rightarrow> bytes \<Rightarrow> bytes" where
  "strncpy n s = (let src = take n (takeWhile nonzero s)
                  in src @ replicate (n - length src) 0)"

definition bytes_of :: "string \<Rightarrow> bytes" where
  "bytes_of s = map of_char s"

lemma length_strncpy [simp, codec_simps]: "length (strncpy n s) = n"
  by (simp add: strncpy_def Let_def)

lemma take_strnlen: "take (strnlen bs n) bs = takeWhile nonzero (take n bs)"
proof -
  have "take (length (takeWhile nonzero (take n bs))) (take n bs) = takeWhile nonzero (take n bs)"
    by (rule takeWhile_eq_take [symmetric])
  moreover have "length (takeWhile nonzero (take n bs)) \<le> n"
    by (rule order_trans [OF length_takeWhile_le]) simp
  ultimately show ?thesis
    by (simp add: strnlen_def min_absorb1)
qed

lemma takeWhile_strncpy:
  "takeWhile nonzero (strncpy n s) = take n (takeWhile nonzero s)"
proof -
  define src where "src = take n (takeWhile nonzero s)"
  have "\<forall>b\<in>set src. nonzero b"
    unfolding src_def by (auto dest!: in_set_takeD set_takeWhileD)
  then have "takeWhile nonzero (src @ replicate (n - length src) 0) = src"
    by (simp add: takeWhile_append2 takeWhile_replicate)
  then show ?thesis
    by (simp only: strncpy_def Let_def src_def)
qed

lemma zero_in_strncpy: "0 \<in> set (strncpy n s) \<longleftrightarrow> length (takeWhile nonzero s) < n"
proof -
  have "0 \<notin> set (take n (takeWhile nonzero s))"
    by (auto dest!: in_set_takeD set_takeWhileD)
  then show ?thesis
    by (auto simp: strncpy_def Let_def)
qed

text \<open>What the constructor reads back from a \<^verbatim>\<open>strncpy\<close> destination of the same size.\<close>

lemma cstr_strncpy:
  "cstr (strncpy n s) =
     (if length (takeWhile nonzero s) < n then Inr (takeWhile nonzero s)
      else Inl UnterminatedString)"
  by (simp add: cstr_def zero_in_strncpy takeWhile_strncpy)

lemma cstr_InrD: "cstr bs = Inr s \<Longrightarrow> s = takeWhile nonzero bs \<and> 0 \<in> set bs"
  by (simp add: cstr_def split: if_splits)

lemma cstr_nonzero: "cstr bs = Inr s \<Longrightarrow> \<forall>b\<in>set s. nonzero b"
  by (auto dest!: cstr_InrD set_takeWhileD)

lemma strncpy_takeWhile [simp]: "strncpy n (takeWhile nonzero s) = strncpy n s"
  by (simp add: strncpy_def)

section \<open>Decimal numbers\<close>

text \<open>\<^verbatim>\<open>std::to_string\<close> of an unsigned integer: decimal digits, no leading zero.\<close>

definition digit :: "nat \<Rightarrow> char" where
  "digit d = char_of (48 + d)"

fun decimal :: "nat \<Rightarrow> string" where
  "decimal n = (if n < 10 then [digit n] else decimal (n div 10) @ [digit (n mod 10)])"

declare decimal.simps [simp del]

definition to_string :: "'a::len word \<Rightarrow> string" where
  "to_string v = decimal (unat v)"

text \<open>Reading digits back.\<close>

definition digit_value :: "char \<Rightarrow> nat" where
  "digit_value c = of_char c - 48"

definition is_digit :: "char \<Rightarrow> bool" where
  "is_digit c \<longleftrightarrow> 48 \<le> (of_char c :: nat) \<and> (of_char c :: nat) \<le> 57"

definition decimal_value :: "string \<Rightarrow> nat" where
  "decimal_value s = foldl (\<lambda>n c. 10 * n + digit_value c) 0 s"

lemma of_char_digit: "d < 10 \<Longrightarrow> of_char (digit d) = 48 + d"
  by (simp add: digit_def)

lemma decimal_value_append_digit:
  "d < 10 \<Longrightarrow> decimal_value (s @ [digit d]) = 10 * decimal_value s + d"
  by (simp add: decimal_value_def digit_value_def of_char_digit)

lemma decimal_digits: "\<forall>c\<in>set (decimal n). is_digit c"
proof (induction n rule: decimal.induct)
  case (1 n)
  have "is_digit (digit d)" if "d < 10" for d
    using that by (simp add: is_digit_def of_char_digit)
  then show ?case
    using "1.IH" by (subst decimal.simps) auto
qed

lemma decimal_value_decimal: "decimal_value (decimal n) = n"
proof (induction n rule: decimal.induct)
  case (1 n)
  show ?case
  proof (cases "n < 10")
    case True
    then show ?thesis
      using decimal_value_append_digit [of n "[]"]
      by (subst decimal.simps) (simp add: decimal_value_def)
  next
    case False
    then show ?thesis
      using "1.IH" decimal_value_append_digit [of "n mod 10" "decimal (n div 10)"]
      by (subst decimal.simps) simp
  qed
qed

section \<open>Simulation of runs\<close>

text \<open>
  A component that drives another: each of its events is a run of the other's events. What the
  client has to show is one step; the locale lifts it to runs.
\<close>

locale run_simulation =
  fixes cstep :: "'ev \<Rightarrow> 'c \<Rightarrow> 'c outcome"
    and crun :: "'ev list \<Rightarrow> 'c \<Rightarrow> 'c outcome"
    and arun :: "'aev list \<Rightarrow> 'a \<Rightarrow> ('a \<times> 'out list) outcome"
    and events :: "'ev \<Rightarrow> 'aev list"
    and abstraction :: "'c \<Rightarrow> 'a"
    and inv :: "'c \<Rightarrow> bool"
    and ok :: "'ev \<Rightarrow> bool"
  assumes crun_Nil: "crun [] c = Inr c"
    and crun_Cons: "cstep ev c = Inr c' \<Longrightarrow> crun (ev # evs) c = crun evs c'"
    and arun_Nil: "arun [] a = Inr (a, [])"
    and arun_append: "arun as a = Inr (a1, out) \<Longrightarrow> arun as' a1 = Inr (a2, out') \<Longrightarrow>
      arun (as @ as') a = Inr (a2, out @ out')"
    and step_simulates: "inv c \<Longrightarrow> ok ev \<Longrightarrow>
      \<exists>c' out. cstep ev c = Inr c' \<and> inv c' \<and> arun (events ev) (abstraction c) = Inr (abstraction c', out)"
begin

lemma run_simulates:
  "inv c \<Longrightarrow> \<forall>ev\<in>set evs. ok ev \<Longrightarrow>
   \<exists>c' out. crun evs c = Inr c' \<and> inv c' \<and>
     arun (concat (map events evs)) (abstraction c) = Inr (abstraction c', out)"
proof (induction evs arbitrary: c)
  case Nil
  then show ?case by (simp add: crun_Nil arun_Nil)
next
  case (Cons ev evs)
  then obtain c1 out1 where s: "cstep ev c = Inr c1" "inv c1"
    "arun (events ev) (abstraction c) = Inr (abstraction c1, out1)"
    using step_simulates [of c ev] by auto
  obtain c2 out2 where "crun evs c1 = Inr c2" "inv c2"
    "arun (concat (map events evs)) (abstraction c1) = Inr (abstraction c2, out2)"
    using Cons.IH [OF s(2)] Cons.prems(2) by auto
  then show ?case
    using crun_Cons [OF s(1)] arun_append [OF s(3)] by auto
qed

end

section \<open>The contract of std::sort\<close>

text \<open>
  The C++ standard requires the comparison to be a strict weak ordering and promises a sorted
  permutation of the range; it says nothing about the order of equivalent elements. The model
  takes the sort as an argument, and what holds of it is the locale \<open>std_sort\<close>. A library whose
  sort happens to be stable satisfies \<open>std_stable_sort\<close>.
\<close>

definition strict_weak_order :: "('a \<Rightarrow> 'a \<Rightarrow> bool) \<Rightarrow> bool" where
  "strict_weak_order lt \<longleftrightarrow>
     (\<forall>x. \<not> lt x x) \<and>
     (\<forall>x y z. lt x y \<longrightarrow> lt y z \<longrightarrow> lt x z) \<and>
     (\<forall>x y z. \<not> lt x y \<longrightarrow> \<not> lt y z \<longrightarrow> \<not> lt x z)"

definition equivalent_by :: "('a \<Rightarrow> 'a \<Rightarrow> bool) \<Rightarrow> 'a \<Rightarrow> 'a \<Rightarrow> bool" where
  "equivalent_by lt x y \<longleftrightarrow> \<not> lt x y \<and> \<not> lt y x"

definition ordered_by :: "('a \<Rightarrow> 'a \<Rightarrow> bool) \<Rightarrow> 'a list \<Rightarrow> bool" where
  "ordered_by lt xs = sorted_wrt (\<lambda>a b. \<not> lt b a) xs"

lemma swo_irrefl: "strict_weak_order lt \<Longrightarrow> \<not> lt x x"
  and swo_trans: "strict_weak_order lt \<Longrightarrow> lt x y \<Longrightarrow> lt y z \<Longrightarrow> lt x z"
  and swo_not_trans: "strict_weak_order lt \<Longrightarrow> \<not> lt x y \<Longrightarrow> \<not> lt y z \<Longrightarrow> \<not> lt x z"
  by (unfold strict_weak_order_def) blast+

lemma swo_asym: "strict_weak_order lt \<Longrightarrow> lt x y \<Longrightarrow> \<not> lt y x"
  by (blast dest: swo_trans swo_irrefl)

lemma ordered_by_Nil [simp]: "ordered_by lt []"
  and ordered_by_Cons [simp]:
    "ordered_by lt (x # xs) \<longleftrightarrow> (\<forall>y\<in>set xs. \<not> lt y x) \<and> ordered_by lt xs"
  by (simp_all add: ordered_by_def)

locale std_sort =
  fixes srt :: "('a \<Rightarrow> 'a \<Rightarrow> bool) \<Rightarrow> 'a list \<Rightarrow> 'a list"
  assumes srt_perm: "strict_weak_order lt \<Longrightarrow> mset (srt lt xs) = mset xs"
    and srt_ordered: "strict_weak_order lt \<Longrightarrow> ordered_by lt (srt lt xs)"
begin

lemma srt_set: "strict_weak_order lt \<Longrightarrow> set (srt lt xs) = set xs"
  using srt_perm by (metis set_mset_mset)

lemma srt_length: "strict_weak_order lt \<Longrightarrow> length (srt lt xs) = length xs"
  using srt_perm by (metis size_mset)

text \<open>The element \<^verbatim>\<open>front()\<close> of a sorted range is preceded by no other.\<close>

lemma srt_front:
  assumes "strict_weak_order lt" and "srt lt xs = y # ys" and "x \<in> set xs"
  shows "\<not> lt x y"
proof -
  have "x \<in> set (y # ys)" and "ordered_by lt (y # ys)"
    using assms srt_set [of lt xs] srt_ordered [of lt xs] by auto
  then show ?thesis
    using swo_irrefl [OF assms(1)] by auto
qed

end

locale std_stable_sort = std_sort +
  assumes srt_stable:
    "strict_weak_order lt \<Longrightarrow>
       filter (equivalent_by lt x) (srt lt xs) = filter (equivalent_by lt x) xs"

text \<open>
  An executable instance: linear insertion, the algorithm libstdc++ runs on a range of at most
  sixteen elements.
\<close>

fun insert_by :: "('a \<Rightarrow> 'a \<Rightarrow> bool) \<Rightarrow> 'a \<Rightarrow> 'a list \<Rightarrow> 'a list" where
  "insert_by lt x [] = [x]"
| "insert_by lt x (y # ys) = (if lt x y then x # y # ys else y # insert_by lt x ys)"

fun insertion_sort_onto :: "('a \<Rightarrow> 'a \<Rightarrow> bool) \<Rightarrow> 'a list \<Rightarrow> 'a list \<Rightarrow> 'a list" where
  "insertion_sort_onto lt acc [] = acc"
| "insertion_sort_onto lt acc (x # xs) = insertion_sort_onto lt (insert_by lt x acc) xs"

definition insertion_sort :: "('a \<Rightarrow> 'a \<Rightarrow> bool) \<Rightarrow> 'a list \<Rightarrow> 'a list" where
  "insertion_sort lt xs = insertion_sort_onto lt [] xs"

lemma mset_insert_by: "mset (insert_by lt x xs) = add_mset x (mset xs)"
  by (induction xs) auto

lemma set_insert_by: "set (insert_by lt x xs) = insert x (set xs)"
  by (induction xs) auto

lemma ordered_insert_by:
  assumes "strict_weak_order lt"
  shows "ordered_by lt xs \<Longrightarrow> ordered_by lt (insert_by lt x xs)"
proof (induction xs)
  case Nil
  then show ?case by simp
next
  case (Cons y ys)
  then show ?case
    using swo_asym [OF assms, of x y] swo_not_trans [OF assms, of _ y x]
    by (auto simp: set_insert_by)
qed

lemma filter_insert_by:
  assumes "strict_weak_order lt" and "ordered_by lt xs"
  shows "filter (equivalent_by lt z) (insert_by lt x xs) =
         filter (equivalent_by lt z) (xs @ [x])"
  using assms(2)
proof (induction xs)
  case Nil
  then show ?case by simp
next
  case (Cons y ys)
  have tail: "\<forall>v\<in>set (y # ys). \<not> lt v y" "ordered_by lt ys"
    using Cons.prems swo_irrefl [OF assms(1)] by auto
  have "filter (equivalent_by lt z) (y # ys) = []"
    if "lt x y" "equivalent_by lt z x"
    unfolding filter_empty_conv equivalent_by_def
  proof (intro ballI notI)
    fix v assume v: "v \<in> set (y # ys)" and "\<not> lt z v \<and> \<not> lt v z"
    then have "\<not> lt x v"
      using that(2) swo_not_trans [OF assms(1), of x z v] by (simp add: equivalent_by_def)
    moreover have "\<not> lt v y"
      using tail(1) v by blast
    ultimately show False
      using that(1) swo_not_trans [OF assms(1), of x v y] by blast
  qed
  then show ?case
    using Cons.IH [OF tail(2)] by auto
qed

lemma insertion_sort_onto_perm:
  "mset (insertion_sort_onto lt acc xs) = mset acc + mset xs"
  by (induction xs arbitrary: acc) (auto simp: mset_insert_by)

lemma insertion_sort_onto_ordered:
  "strict_weak_order lt \<Longrightarrow> ordered_by lt acc \<Longrightarrow>
   ordered_by lt (insertion_sort_onto lt acc xs)"
  by (induction xs arbitrary: acc) (auto simp: ordered_insert_by)

lemma insertion_sort_onto_stable:
  "strict_weak_order lt \<Longrightarrow> ordered_by lt acc \<Longrightarrow>
   filter (equivalent_by lt z) (insertion_sort_onto lt acc xs) =
   filter (equivalent_by lt z) (acc @ xs)"
proof (induction xs arbitrary: acc)
  case Nil
  then show ?case by simp
next
  case (Cons x xs)
  then show ?case
    using Cons.IH [OF Cons.prems(1) ordered_insert_by [OF Cons.prems]]
    by (simp add: filter_insert_by)
qed

interpretation ins: std_stable_sort insertion_sort
  by unfold_locales
    (auto simp: insertion_sort_def insertion_sort_onto_perm insertion_sort_onto_stable
      intro: insertion_sort_onto_ordered)

end
