(* ===== verification/Message_Parser.thy ===== *)
theory Message_Parser
  imports Gateway_Prelude
begin

text \<open>
  The binary protocol: \<^verbatim>\<open>network/message_parser.h\<close> and \<^verbatim>\<open>network/message_parser.cpp\<close>. The packed
  structs are records with their memory images, the static functions of \<^verbatim>\<open>MessageParser\<close> are
  functions over byte lists. A pointer argument is the list of bytes from the pointed-to byte
  to the end of its array, so a read past that end is a fault. The wall clock is an argument.
\<close>

section \<open>Message types and wire structs\<close>

datatype MessageType = NEW_ORDER | CANCEL_ORDER | MODIFY_ORDER | ORDER_ACK | TRADE

text \<open>
  The enumeration has underlying type \<^verbatim>\<open>uint8_t\<close>; a header copied from the network can hold any
  byte there, so the field is a byte and the enumerators are codes.
\<close>

fun message_type_code :: "MessageType \<Rightarrow> byte" where
  "message_type_code NEW_ORDER = 1"
| "message_type_code CANCEL_ORDER = 2"
| "message_type_code MODIFY_ORDER = 3"
| "message_type_code ORDER_ACK = 4"
| "message_type_code TRADE = 5"

record MessageHeader =
  mh_type :: byte
  mh_length :: u64
  mh_timestamp :: u64
  mh_checksum :: u32

record NewOrder =
  no_order_id :: u64
  no_price :: u64
  no_quantity :: u32
  no_symbol :: bytes
  no_side :: byte

record CancelOrder =
  co_order_id :: u64

record ModifyOrder =
  mo_order_id :: u64
  mo_new_price :: u64
  mo_new_quantity :: u32

record OrderAck =
  ack_order_id :: u64
  ack_accepted :: bool
  ack_timestamp :: u64
  ack_reason :: bytes

datatype OrderCommand = ADD | CANCEL | MODIFY

record Order =
  ord_id :: u64
  ord_price :: u64
  ord_quantity :: u64
  ord_symbol :: bytes
  ord_is_buy :: bool
  ord_timestamp :: u64
  ord_command :: OrderCommand

record Trade =
  tr_buy_order_id :: u64
  tr_sell_order_id :: u64
  tr_price :: u64
  tr_quantity :: u64
  tr_symbol :: bytes
  tr_timestamp :: u64

text \<open>
  The default constructor of \<^verbatim>\<open>Order\<close> initialises \<^verbatim>\<open>command\<close> alone: the other fields keep
  whatever the memory held, the argument \<open>junk\<close>.
\<close>

definition Order_default :: "Order \<Rightarrow> Order" where
  "Order_default junk = junk\<lparr>ord_command := ADD\<rparr>"

definition Order_make :: "u64 \<Rightarrow> u64 \<Rightarrow> u64 \<Rightarrow> bytes \<Rightarrow> bool \<Rightarrow> Order" where
  "Order_make oid price qty symb buy =
     \<lparr>ord_id = oid, ord_price = price, ord_quantity = qty, ord_symbol = strncpy 8 symb,
      ord_is_buy = buy, ord_timestamp = 0, ord_command = ADD\<rparr>"

definition Trade_make :: "u64 \<Rightarrow> u64 \<Rightarrow> u64 \<Rightarrow> u64 \<Rightarrow> bytes \<Rightarrow> Trade" where
  "Trade_make b_id s_id p q symb =
     \<lparr>tr_buy_order_id = b_id, tr_sell_order_id = s_id, tr_price = p, tr_quantity = q,
      tr_symbol = strncpy 8 symb, tr_timestamp = 0\<rparr>"

section \<open>Memory images\<close>

definition sizeof_MessageHeader :: nat where "sizeof_MessageHeader = 1 + 8 + 8 + 4"
definition sizeof_NewOrder :: nat where "sizeof_NewOrder = 8 + 8 + 4 + 8 + 1"
definition sizeof_CancelOrder :: nat where "sizeof_CancelOrder = 8"
definition sizeof_ModifyOrder :: nat where "sizeof_ModifyOrder = 8 + 8 + 4"
definition sizeof_OrderAck :: nat where "sizeof_OrderAck = 8 + 1 + 8 + 64"

text \<open>\<^verbatim>\<open>Trade\<close> is outside the packed section; its natural alignment needs no padding.\<close>

definition sizeof_Trade :: nat where "sizeof_Trade = 8 + 8 + 8 + 8 + 8 + 8"

lemmas sizeof_defs = sizeof_MessageHeader_def sizeof_NewOrder_def sizeof_CancelOrder_def
  sizeof_ModifyOrder_def sizeof_OrderAck_def sizeof_Trade_def

definition field_at :: "nat \<Rightarrow> nat \<Rightarrow> bytes \<Rightarrow> bytes" where
  "field_at off n bs = take n (drop off bs)"

definition MessageHeader_bytes :: "MessageHeader \<Rightarrow> bytes" where
  "MessageHeader_bytes h =
     [mh_type h] @ le_bytes 8 (mh_length h) @ le_bytes 8 (mh_timestamp h) @
     le_bytes 4 (mh_checksum h)"

definition MessageHeader_of :: "bytes \<Rightarrow> MessageHeader" where
  "MessageHeader_of bs =
     \<lparr>mh_type = le_word (field_at 0 1 bs), mh_length = le_word (field_at 1 8 bs),
      mh_timestamp = le_word (field_at 9 8 bs), mh_checksum = le_word (field_at 17 4 bs)\<rparr>"

definition NewOrder_bytes :: "NewOrder \<Rightarrow> bytes" where
  "NewOrder_bytes r =
     le_bytes 8 (no_order_id r) @ le_bytes 8 (no_price r) @ le_bytes 4 (no_quantity r) @
     no_symbol r @ [no_side r]"

definition NewOrder_of :: "bytes \<Rightarrow> NewOrder" where
  "NewOrder_of bs =
     \<lparr>no_order_id = le_word (field_at 0 8 bs), no_price = le_word (field_at 8 8 bs),
      no_quantity = le_word (field_at 16 4 bs), no_symbol = field_at 20 8 bs,
      no_side = le_word (field_at 28 1 bs)\<rparr>"

definition CancelOrder_bytes :: "CancelOrder \<Rightarrow> bytes" where
  "CancelOrder_bytes r = le_bytes 8 (co_order_id r)"

definition CancelOrder_of :: "bytes \<Rightarrow> CancelOrder" where
  "CancelOrder_of bs = \<lparr>co_order_id = le_word (field_at 0 8 bs)\<rparr>"

definition ModifyOrder_bytes :: "ModifyOrder \<Rightarrow> bytes" where
  "ModifyOrder_bytes r =
     le_bytes 8 (mo_order_id r) @ le_bytes 8 (mo_new_price r) @ le_bytes 4 (mo_new_quantity r)"

definition ModifyOrder_of :: "bytes \<Rightarrow> ModifyOrder" where
  "ModifyOrder_of bs =
     \<lparr>mo_order_id = le_word (field_at 0 8 bs), mo_new_price = le_word (field_at 8 8 bs),
      mo_new_quantity = le_word (field_at 16 4 bs)\<rparr>"

definition OrderAck_bytes :: "OrderAck \<Rightarrow> bytes" where
  "OrderAck_bytes r =
     le_bytes 8 (ack_order_id r) @ [if ack_accepted r then 1 else 0] @
     le_bytes 8 (ack_timestamp r) @ ack_reason r"

definition OrderAck_of :: "bytes \<Rightarrow> OrderAck" where
  "OrderAck_of bs =
     \<lparr>ack_order_id = le_word (field_at 0 8 bs), ack_accepted = (field_at 8 1 bs \<noteq> [0]),
      ack_timestamp = le_word (field_at 9 8 bs), ack_reason = field_at 17 64 bs\<rparr>"

definition Trade_bytes :: "Trade \<Rightarrow> bytes" where
  "Trade_bytes r =
     le_bytes 8 (tr_buy_order_id r) @ le_bytes 8 (tr_sell_order_id r) @
     le_bytes 8 (tr_price r) @ le_bytes 8 (tr_quantity r) @ tr_symbol r @
     le_bytes 8 (tr_timestamp r)"

definition Trade_of :: "bytes \<Rightarrow> Trade" where
  "Trade_of bs =
     \<lparr>tr_buy_order_id = le_word (field_at 0 8 bs), tr_sell_order_id = le_word (field_at 8 8 bs),
      tr_price = le_word (field_at 16 8 bs), tr_quantity = le_word (field_at 24 8 bs),
      tr_symbol = field_at 32 8 bs, tr_timestamp = le_word (field_at 40 8 bs)\<rparr>"

lemma field_at_append_left [simp, codec_simps]:
  "length xs = n \<Longrightarrow> field_at 0 n (xs @ ys) = xs"
  by (simp add: field_at_def)

lemma field_at_append_right [simp, codec_simps]:
  "length xs \<le> off \<Longrightarrow> field_at off n (xs @ ys) = field_at (off - length xs) n ys"
  by (simp add: field_at_def)

lemma field_at_Cons [simp, codec_simps]:
  "0 < off \<Longrightarrow> field_at off n (x # ys) = field_at (off - 1) n ys"
  by (cases off) (simp_all add: field_at_def)

lemma field_at_all [simp, codec_simps]: "length xs \<le> n \<Longrightarrow> field_at 0 n xs = xs"
  by (simp add: field_at_def)

lemma field_at_one [simp, codec_simps]: "field_at 0 1 (x # xs) = [x]" "field_at 0 (Suc 0) (x # xs) = [x]"
  by (simp_all add: field_at_def)

lemma le_word_byte [simp]: "le_word [b :: byte] = b"
  by simp

lemma MessageHeader_roundtrip [simp]: "MessageHeader_of (MessageHeader_bytes h @ rest) = h"
  by (simp add: MessageHeader_of_def MessageHeader_bytes_def)

lemma NewOrder_roundtrip:
  "length (no_symbol r) = 8 \<Longrightarrow> NewOrder_of (NewOrder_bytes r @ rest) = r"
  by (simp add: NewOrder_of_def NewOrder_bytes_def)

lemma CancelOrder_roundtrip: "CancelOrder_of (CancelOrder_bytes r @ rest) = r"
  by (simp add: CancelOrder_of_def CancelOrder_bytes_def)

lemma ModifyOrder_roundtrip: "ModifyOrder_of (ModifyOrder_bytes r @ rest) = r"
  by (simp add: ModifyOrder_of_def ModifyOrder_bytes_def)

lemma OrderAck_roundtrip:
  "length (ack_reason r) = 64 \<Longrightarrow> OrderAck_of (OrderAck_bytes r @ rest) = r"
  by (simp add: OrderAck_of_def OrderAck_bytes_def)

lemma Trade_roundtrip:
  "length (tr_symbol r) = 8 \<Longrightarrow> Trade_of (Trade_bytes r @ rest) = r"
  by (simp add: Trade_of_def Trade_bytes_def)

lemma length_images [simp, codec_simps]:
  "length (MessageHeader_bytes h) = sizeof_MessageHeader"
  "length (no_symbol r) = 8 \<Longrightarrow> length (NewOrder_bytes r) = sizeof_NewOrder"
  "length (CancelOrder_bytes c) = sizeof_CancelOrder"
  "length (ModifyOrder_bytes m) = sizeof_ModifyOrder"
  "length (ack_reason a) = 64 \<Longrightarrow> length (OrderAck_bytes a) = sizeof_OrderAck"
  "length (tr_symbol t) = 8 \<Longrightarrow> length (Trade_bytes t) = sizeof_Trade"
  by (simp_all add: MessageHeader_bytes_def NewOrder_bytes_def CancelOrder_bytes_def
      ModifyOrder_bytes_def OrderAck_bytes_def Trade_bytes_def sizeof_defs)

section \<open>memcpy\<close>

definition mem_read :: "nat \<Rightarrow> bytes \<Rightarrow> bytes outcome" where
  "mem_read n p = (if n \<le> length p then Inr (take n p) else Inl OutOfBoundsRead)"

definition mem_write :: "nat \<Rightarrow> bytes \<Rightarrow> bytes \<Rightarrow> bytes outcome" where
  "mem_write off src buf =
     (if off + length src \<le> length buf
      then Inr (take off buf @ src @ drop (off + length src) buf)
      else Inl OutOfBoundsWrite)"

lemma mem_read_ok [simp]: "n \<le> length p \<Longrightarrow> mem_read n p = Inr (take n p)"
  by (simp add: mem_read_def)

lemma mem_read_fault [simp]: "length p < n \<Longrightarrow> mem_read n p = Inl OutOfBoundsRead"
  by (simp add: mem_read_def)

lemma mem_write_ok:
  "off + length src \<le> length buf \<Longrightarrow>
   mem_write off src buf = Inr (take off buf @ src @ drop (off + length src) buf)"
  by (simp add: mem_write_def)

section \<open>The checksum\<close>

text \<open>
  \<^verbatim>\<open>data[i]\<close> is a plain \<^verbatim>\<open>char\<close>, signed on x86 (the sources include \<^verbatim>\<open>immintrin.h\<close>), so the
  conversion to \<^verbatim>\<open>uint32_t\<close> sign-extends; the client script reproduces this on purpose.
\<close>

definition checksum_term :: "nat \<Rightarrow> byte \<Rightarrow> u32" where
  "checksum_term i b = push_bit (i mod 4 * 8) (scast b)"

function checksum_loop :: "bytes \<Rightarrow> nat \<Rightarrow> nat \<Rightarrow> u32 \<Rightarrow> u32 outcome" where
  "checksum_loop data len i checksum =
     (if i < len
      then (if i < length data
            then checksum_loop data len (Suc i) (checksum XOR checksum_term i (data ! i))
            else Inl OutOfBoundsRead)
      else Inr checksum)"
  by pat_completeness auto
termination
  by (relation "measure (\<lambda>(data, len, i, checksum). len - i)") auto

declare checksum_loop.simps [simp del]

definition calculate_checksum :: "bytes \<Rightarrow> u64 \<Rightarrow> u32 outcome" where
  "calculate_checksum data len = checksum_loop data (unat len) 0 0"

definition validate_message :: "MessageHeader \<Rightarrow> bytes \<Rightarrow> bool outcome" where
  "validate_message header payload =
     (case calculate_checksum payload (mh_length header - of_nat sizeof_MessageHeader) of
        Inl e \<Rightarrow> Inl e
      | Inr expected_checksum \<Rightarrow> Inr (mh_checksum header = expected_checksum))"

section \<open>Parsing\<close>

definition zero_header :: MessageHeader where
  "zero_header = \<lparr>mh_type = 0, mh_length = 0, mh_timestamp = 0, mh_checksum = 0\<rparr>"

definition parse_header :: "bytes \<Rightarrow> nat \<Rightarrow> MessageHeader outcome" where
  "parse_header data len =
     (if sizeof_MessageHeader \<le> len
      then map_sum id MessageHeader_of (mem_read sizeof_MessageHeader data)
      else Inr zero_header)"

definition parse_new_order :: "bytes \<Rightarrow> NewOrder outcome" where
  "parse_new_order data = map_sum id NewOrder_of (mem_read sizeof_NewOrder data)"

definition parse_cancel_order :: "bytes \<Rightarrow> CancelOrder outcome" where
  "parse_cancel_order data = map_sum id CancelOrder_of (mem_read sizeof_CancelOrder data)"

definition parse_modify_order :: "bytes \<Rightarrow> ModifyOrder outcome" where
  "parse_modify_order data = map_sum id ModifyOrder_of (mem_read sizeof_ModifyOrder data)"

text \<open>
  The unframed format of \<^verbatim>\<open>MessageParser::parse\<close>: a type byte directly followed by the fields
  of \<^verbatim>\<open>NewOrder\<close>.
\<close>

record WireNewOrder =
  w_type :: byte
  w_order_id :: u64
  w_price :: u64
  w_quantity :: u32
  w_symbol :: bytes
  w_side :: byte

definition sizeof_WireNewOrder :: nat where "sizeof_WireNewOrder = 1 + 8 + 8 + 4 + 8 + 1"

definition WireNewOrder_bytes :: "WireNewOrder \<Rightarrow> bytes" where
  "WireNewOrder_bytes r =
     [w_type r] @ le_bytes 8 (w_order_id r) @ le_bytes 8 (w_price r) @
     le_bytes 4 (w_quantity r) @ w_symbol r @ [w_side r]"

definition WireNewOrder_of :: "bytes \<Rightarrow> WireNewOrder" where
  "WireNewOrder_of bs =
     \<lparr>w_type = le_word (field_at 0 1 bs), w_order_id = le_word (field_at 1 8 bs),
      w_price = le_word (field_at 9 8 bs), w_quantity = le_word (field_at 17 4 bs),
      w_symbol = field_at 21 8 bs, w_side = le_word (field_at 29 1 bs)\<rparr>"

definition MessageParser_parse :: "bytes \<Rightarrow> nat \<Rightarrow> Order option outcome" where
  "MessageParser_parse data len =
     (if len < sizeof_WireNewOrder then Inr None
      else case mem_read sizeof_WireNewOrder data of
             Inl e \<Rightarrow> Inl e
           | Inr img \<Rightarrow>
               (let msg = WireNewOrder_of img in
                if w_type msg \<noteq> message_type_code NEW_ORDER then Inr None
                else let symbol_str = take (strnlen (w_symbol msg) 8) (w_symbol msg);
                         is_buy = (w_side msg = of_char (CHR ''B''))
                     in Inr (Some (Order_make (w_order_id msg) (w_price msg)
                              (ucast (w_quantity msg)) symbol_str is_buy))))"

section \<open>Serialising\<close>

definition payload_size_of :: "MessageType \<Rightarrow> nat option" where
  "payload_size_of type =
     (case type of ORDER_ACK \<Rightarrow> Some sizeof_OrderAck | TRADE \<Rightarrow> Some sizeof_Trade | _ \<Rightarrow> None)"

text \<open>
  \<open>serialize_message type payload buffer buffer_size now\<close> returns the number of bytes and the
  new contents of the buffer.
\<close>

definition serialize_message ::
    "MessageType \<Rightarrow> bytes \<Rightarrow> bytes \<Rightarrow> nat \<Rightarrow> u64 \<Rightarrow> (nat \<times> bytes) outcome" where
  "serialize_message type payload buffer buffer_size now =
     (let header = zero_header\<lparr>mh_type := message_type_code type, mh_timestamp := now\<rparr> in
      case payload_size_of type of
        None \<Rightarrow> Inr (0, buffer)
      | Some payload_size \<Rightarrow>
          (let len = sizeof_MessageHeader + payload_size;
               header = header\<lparr>mh_length := of_nat len\<rparr> in
           if buffer_size < len then Inr (0, buffer)
           else case mem_write 0 (MessageHeader_bytes header) buffer of
             Inl e \<Rightarrow> Inl e
           | Inr buffer1 \<Rightarrow> (case mem_read payload_size payload of
             Inl e \<Rightarrow> Inl e
           | Inr img \<Rightarrow> (case mem_write sizeof_MessageHeader img buffer1 of
             Inl e \<Rightarrow> Inl e
           | Inr buffer2 \<Rightarrow>
               (case calculate_checksum (drop sizeof_MessageHeader buffer2)
                       (of_nat payload_size) of
             Inl e \<Rightarrow> Inl e
           | Inr checksum \<Rightarrow>
               (case mem_write 0 (MessageHeader_bytes (header\<lparr>mh_checksum := checksum\<rparr>)) buffer2 of
             Inl e \<Rightarrow> Inl e
           | Inr buffer3 \<Rightarrow> Inr (len, buffer3)))))))"

definition serialize_order_ack :: "OrderAck \<Rightarrow> bytes \<Rightarrow> u64 \<Rightarrow> (nat \<times> bytes) outcome" where
  "serialize_order_ack ack buffer now =
     serialize_message ORDER_ACK (OrderAck_bytes ack) buffer
       (sizeof_MessageHeader + sizeof_OrderAck) now"

definition serialize_trade :: "Trade \<Rightarrow> bytes \<Rightarrow> u64 \<Rightarrow> (nat \<times> bytes) outcome" where
  "serialize_trade trade buffer now =
     serialize_message TRADE (Trade_bytes trade) buffer
       (sizeof_MessageHeader + sizeof_Trade) now"

section \<open>The checksum in closed form\<close>

primrec checksum_spec :: "nat \<Rightarrow> bytes \<Rightarrow> u32" where
  "checksum_spec i [] = 0"
| "checksum_spec i (b # bs) = checksum_term i b XOR checksum_spec (Suc i) bs"

lemma checksum_loop_spec:
  "i \<le> length data \<Longrightarrow>
   checksum_loop data len i acc =
     (if len \<le> length data then Inr (acc XOR checksum_spec i (drop i (take len data)))
      else Inl OutOfBoundsRead)"
proof (induction data len i acc rule: checksum_loop.induct)
  case (1 data len i acc)
  show ?case
  proof (cases "i < len \<and> i < length data")
    case True
    then have "drop i (take len data) = data ! i # drop (Suc i) (take len data)"
      by (metis Cons_nth_drop_Suc length_take min_less_iff_conj nth_take)
    with True "1.IH" show ?thesis
      by (auto simp: checksum_loop.simps [of data len i acc] xor.assoc)
  next
    case False
    with "1.prems" show ?thesis
      by (auto simp: checksum_loop.simps [of data len i acc])
  qed
qed

lemma calculate_checksum_eq:
  "calculate_checksum data len =
     (if unat len \<le> length data then Inr (checksum_spec 0 (take (unat len) data))
      else Inl OutOfBoundsRead)"
  by (simp add: calculate_checksum_def checksum_loop_spec)

lemma checksum_term_inj:
  assumes "checksum_term i a = checksum_term i b"
  shows "a = b"
proof (rule bit_word_eqI)
  fix k assume "k < LENGTH(8)"
  then have k: "k < 8" by simp
  have m: "i mod 4 * 8 + k < 32"
    using k mod_less_divisor [of 4 i] by linarith
  have "bit (checksum_term i c) (i mod 4 * 8 + k) = bit c k" for c
    using k m by (auto simp: checksum_term_def bit_simps min_def le_less_Suc_eq dest: le_antisym)
  then show "bit a k = bit b k"
    using assms by metis
qed

lemma checksum_spec_append:
  "checksum_spec i (xs @ ys) = checksum_spec i xs XOR checksum_spec (i + length xs) ys"
  by (induction xs arbitrary: i) (simp_all add: xor.assoc)

lemma checksum_spec_update:
  "k < length xs \<Longrightarrow>
   checksum_spec i (xs[k := b]) =
     checksum_spec i xs XOR checksum_term (i + k) (xs ! k) XOR checksum_term (i + k) b"
proof (induction xs arbitrary: i k)
  case Nil
  then show ?case by simp
next
  case (Cons x xs)
  then show ?case
    by (cases k) (simp_all add: xor.assoc xor.left_commute xor.commute)
qed

lemma checksum_spec_update_eq_iff:
  assumes "k < length xs"
  shows "checksum_spec i (xs[k := b]) = checksum_spec i xs \<longleftrightarrow> b = xs ! k"
proof -
  have "checksum_spec i (xs[k := b]) = checksum_spec i xs \<longleftrightarrow>
        checksum_term (i + k) (xs ! k) = checksum_term (i + k) b"
    by (simp add: checksum_spec_update [OF assms] xor.assoc xor_fix_word xor_eq_0_word)
  then show ?thesis
    using checksum_term_inj by metis
qed

section \<open>Frames\<close>

text \<open>
  A well-formed message: a header whose length counts header and payload and whose checksum is
  that of the payload, followed by the payload. Both sides of the protocol send these.
\<close>

definition frame_header :: "byte \<Rightarrow> u64 \<Rightarrow> bytes \<Rightarrow> MessageHeader" where
  "frame_header code now payload =
     \<lparr>mh_type = code, mh_length = of_nat (sizeof_MessageHeader + length payload),
      mh_timestamp = now, mh_checksum = checksum_spec 0 payload\<rparr>"

definition frame :: "byte \<Rightarrow> u64 \<Rightarrow> bytes \<Rightarrow> bytes" where
  "frame code now payload = MessageHeader_bytes (frame_header code now payload) @ payload"

lemma frame_header_sel [simp]:
  "mh_type (frame_header code now payload) = code"
  "mh_length (frame_header code now payload) = of_nat (sizeof_MessageHeader + length payload)"
  "mh_timestamp (frame_header code now payload) = now"
  "mh_checksum (frame_header code now payload) = checksum_spec 0 payload"
  by (simp_all add: frame_header_def)

lemma length_frame [simp, codec_simps]:
  "length (frame code now payload) = sizeof_MessageHeader + length payload"
  by (simp add: frame_def)

lemma drop_frame [simp, codec_simps]:
  "drop sizeof_MessageHeader (frame code now payload) = payload"
  by (simp add: frame_def)

lemma parse_header_frame [simp]:
  "sizeof_MessageHeader \<le> len \<Longrightarrow>
   parse_header (frame code now payload @ rest) len = Inr (frame_header code now payload)"
  by (simp add: parse_header_def frame_def MessageHeader_roundtrip [where rest = "[]", simplified])

lemma frame_header_payload_length:
  "length payload < 2 ^ 64 \<Longrightarrow>
   unat (mh_length (frame_header code now payload) - of_nat sizeof_MessageHeader) = length payload"
  by (simp add: unat_of_nat_u64)

lemma validate_frame [simp]:
  assumes "length payload < 2 ^ 64"
  shows "validate_message (frame_header code now payload) (payload @ rest) = Inr True"
  using frame_header_payload_length [OF assms, of code now]
  by (simp add: validate_message_def calculate_checksum_eq)

lemma serialize_message_frame:
  assumes size: "payload_size_of type = Some n" "length payload = n"
    and room: "sizeof_MessageHeader + n \<le> buffer_size" "sizeof_MessageHeader + n \<le> length buffer"
  shows "serialize_message type payload buffer buffer_size now =
           Inr (sizeof_MessageHeader + n,
                frame (message_type_code type) now payload @
                drop (sizeof_MessageHeader + n) buffer)"
proof -
  have n: "n < 2 ^ 64"
    using size(1) by (cases type) (auto simp: payload_size_of_def sizeof_defs)
  define h where "h = zero_header\<lparr>mh_type := message_type_code type, mh_timestamp := now,
                        mh_length := of_nat (sizeof_MessageHeader + n)\<rparr>"
  have r: "mem_read n payload = Inr payload"
    using size by simp
  have w1: "mem_write 0 (MessageHeader_bytes h) buffer =
              Inr (MessageHeader_bytes h @ drop sizeof_MessageHeader buffer)"
    using room by (simp add: mem_write_ok)
  have w2: "mem_write sizeof_MessageHeader payload
              (MessageHeader_bytes h @ drop sizeof_MessageHeader buffer) =
            Inr (MessageHeader_bytes h @ payload @ drop (sizeof_MessageHeader + n) buffer)"
    using room size by (simp add: mem_write_ok add.commute)
  have c: "calculate_checksum (payload @ drop (sizeof_MessageHeader + n) buffer) (of_nat n) =
             Inr (checksum_spec 0 payload)"
    using size n by (simp add: calculate_checksum_eq unat_of_nat_u64)
  have w3: "mem_write 0 (MessageHeader_bytes h')
              (MessageHeader_bytes h @ payload @ drop (sizeof_MessageHeader + n) buffer) =
            Inr (MessageHeader_bytes h' @ payload @ drop (sizeof_MessageHeader + n) buffer)" for h'
    by (simp add: mem_write_ok)
  have h: "h\<lparr>mh_checksum := checksum_spec 0 payload\<rparr> =
           frame_header (message_type_code type) now payload"
    using size by (simp add: h_def frame_header_def zero_header_def)
  have eq: "zero_header\<lparr>mh_type := message_type_code type, mh_timestamp := now\<rparr>
              \<lparr>mh_length := of_nat (sizeof_MessageHeader + n)\<rparr> = h"
    by (simp add: h_def)
  show ?thesis
    using room
    by (simp only: serialize_message_def Let_def size(1) option.case eq w1 sum.case r w2)
       (simp add: w3 c h frame_def)
qed

text \<open>C23: every message \<^verbatim>\<open>serialize_message\<close> produces is one the receiving side accepts. For
  an acknowledgement or a trade, a buffer with room for header and payload and a payload of the
  type's size, the call returns the total size, and reading the buffer back with
  \<^verbatim>\<open>parse_header\<close> gives the type, that length and the time of the call, \<^verbatim>\<open>validate_message\<close>
  accepts the checksum, the payload follows the header unchanged and the rest of the buffer is
  untouched.\<close>

theorem serialize_message_accepted:
  assumes "payload_size_of type = Some n" and "length payload = n"
    and "sizeof_MessageHeader + n \<le> buffer_size"
    and "sizeof_MessageHeader + n \<le> length buffer"
  shows "\<exists>buffer' header.
           serialize_message type payload buffer buffer_size now =
             Inr (sizeof_MessageHeader + n, buffer') \<and>
           parse_header buffer' (length buffer') = Inr header \<and>
           mh_type header = message_type_code type \<and>
           unat (mh_length header) = sizeof_MessageHeader + n \<and>
           mh_timestamp header = now \<and>
           validate_message header (drop sizeof_MessageHeader buffer') = Inr True \<and>
           take n (drop sizeof_MessageHeader buffer') = payload \<and>
           drop (sizeof_MessageHeader + n) buffer' = drop (sizeof_MessageHeader + n) buffer"
proof -
  let ?code = "message_type_code type"
  have n: "sizeof_MessageHeader + n < 2 ^ 64"
    using assms(1) by (cases type) (auto simp: payload_size_of_def sizeof_defs)
  then have len: "unat (of_nat (sizeof_MessageHeader + n) :: u64) = sizeof_MessageHeader + n"
    by (rule unat_of_nat_u64)
  show ?thesis
    using serialize_message_frame [OF assms] n len assms(2)
    by (intro exI [of _ "frame ?code now payload @ drop (sizeof_MessageHeader + n) buffer"]
        exI [of _ "frame_header ?code now payload"])
       simp
qed

theorem serialize_message_accepted_witness:
  "\<exists>buffer' header.
     serialize_message TRADE (replicate 48 7) (replicate 69 0) 69 1700 = Inr (69, buffer') \<and>
     parse_header buffer' (length buffer') = Inr header \<and>
     validate_message header (drop sizeof_MessageHeader buffer') = Inr True"
  using serialize_message_accepted [of TRADE 48 "replicate 48 7" 69 "replicate 69 0" 1700]
  by (auto simp: payload_size_of_def sizeof_defs)

text \<open>\<^verbatim>\<open>serialize_message\<close> refuses without touching the buffer: it returns 0 for every type but
  an acknowledgement or a trade, and for these when the stated buffer size is too small.\<close>

theorem serialize_message_refuses:
  "payload_size_of type = None \<or>
   (\<exists>n. payload_size_of type = Some n \<and> buffer_size < sizeof_MessageHeader + n)
   \<longleftrightarrow> serialize_message type payload buffer buffer_size now = Inr (0, buffer)"
proof -
  have pos: "fst r \<noteq> 0"
    if "serialize_message type payload buffer buffer_size now = Inr r"
      and "payload_size_of type = Some n" "\<not> buffer_size < sizeof_MessageHeader + n" for r n
    using that by (auto simp: serialize_message_def Let_def sizeof_defs split: sum.splits)
  show ?thesis
  proof (cases "payload_size_of type")
    case None
    then show ?thesis by (simp add: serialize_message_def Let_def)
  next
    case (Some n)
    show ?thesis
    proof (cases "buffer_size < sizeof_MessageHeader + n")
      case True
      with Some show ?thesis by (simp add: serialize_message_def Let_def)
    next
      case False
      then show ?thesis
        using Some pos [of "(0, buffer)"] by fastforce
    qed
  qed
qed

text \<open>The checksum detects every change of a single payload byte: a message whose header was
  built for one payload and whose payload differs from it in one byte is rejected, whatever
  follows it in the buffer.\<close>

theorem single_byte_error_rejected:
  assumes "k < length payload" and "b \<noteq> payload ! k" and "length payload < 2 ^ 64"
  shows "validate_message (frame_header code now payload) (payload[k := b] @ rest) = Inr False"
  using checksum_spec_update_eq_iff [OF assms(1), of 0 b] assms(2)
    frame_header_payload_length [OF assms(3), of code now]
  by (auto simp: validate_message_def calculate_checksum_eq)

theorem single_byte_error_rejected_witness:
  "validate_message (frame_header 2 5 [1, 2, 3, 4, 5]) ([1, 2, 3, 4, 200] @ [9]) = Inr False"
  using single_byte_error_rejected [of 4 "[1, 2, 3, 4, 5]" 200 2 5 "[9]"] by simp

text \<open>The checksum is blind to the order of bytes that lie a multiple of four apart: exchanging
  two such payload bytes gives a message that is accepted as well.\<close>

theorem transposition_accepted:
  assumes "i < length payload" and "j < length payload" and "i mod 4 = j mod 4"
    and "length payload < 2 ^ 64"
  shows "validate_message (frame_header code now payload)
           (payload[i := payload ! j, j := payload ! i] @ rest) = Inr True"
proof -
  have t: "checksum_term i = checksum_term j"
    using assms(3) by (simp add: checksum_term_def fun_eq_iff)
  have "checksum_spec 0 (payload[i := payload ! j, j := payload ! i]) = checksum_spec 0 payload"
    using assms t
    by (cases "i = j")
       (simp_all add: checksum_spec_update xor.assoc xor.left_commute xor.commute)
  then show ?thesis
    using frame_header_payload_length [OF assms(4), of code now]
    by (simp add: validate_message_def calculate_checksum_eq)
qed

theorem transposition_accepted_witness:
  "validate_message (frame_header 2 5 [1, 2, 3, 4, 5]) [5, 2, 3, 4, 1] = Inr True"
  using transposition_accepted [of 0 "[1, 2, 3, 4, 5]" 4 2 5 "[]"] by simp

text \<open>\<^verbatim>\<open>validate_message\<close> trusts the length field of the header: it reads exactly
  \<open>length - 21\<close> bytes in 64-bit arithmetic, so it runs out of the payload's array exactly when
  that many are not there; a stated length below the size of the header wraps around and faults
  on any payload that fits an address space.\<close>

theorem validate_message_fault_iff:
  "(validate_message header payload = Inl OutOfBoundsRead \<longleftrightarrow>
      length payload < unat (mh_length header - of_nat sizeof_MessageHeader)) \<and>
   (mh_length header < of_nat sizeof_MessageHeader \<and> length payload < 2 ^ 64 - sizeof_MessageHeader
      \<longrightarrow> validate_message header payload = Inl OutOfBoundsRead)"
proof -
  have iff: "validate_message header payload = Inl OutOfBoundsRead \<longleftrightarrow>
      length payload < unat (mh_length header - of_nat sizeof_MessageHeader)"
    by (simp add: validate_message_def calculate_checksum_eq not_le)
  have "2 ^ 64 - sizeof_MessageHeader \<le> unat (mh_length header - of_nat sizeof_MessageHeader)"
    if "mh_length header < of_nat sizeof_MessageHeader"
  proof -
    have "unat (mh_length header) < 21"
      using that by (simp add: sizeof_defs word_less_nat_alt)
    moreover have "unat (mh_length header - 21) = 2 ^ 64 - 21 + unat (mh_length header)"
      using that by (simp add: sizeof_defs unat_sub_if_size word_less_nat_alt word_size)
    ultimately show ?thesis
      by (simp add: sizeof_defs)
  qed
  then show ?thesis
    using iff by fastforce
qed

theorem validate_message_fault_iff_witness:
  "validate_message (zero_header\<lparr>mh_length := 20\<rparr>) (replicate 4075 0) = Inl OutOfBoundsRead"
  using validate_message_fault_iff [of "zero_header\<lparr>mh_length := 20\<rparr>" "replicate 4075 0"]
  by (simp add: sizeof_defs)

text \<open>\<^verbatim>\<open>MessageParser::parse\<close> accepts exactly the complete messages of type \<^verbatim>\<open>NEW_ORDER\<close>; the
  order it returns has the fields of the message, the symbol cut at its first NUL and padded
  with NULs to eight bytes, the quantity widened without loss, and is a buy exactly for side
  \<open>B\<close>.\<close>

theorem MessageParser_parse_correct:
  assumes "length (w_symbol msg) = 8"
  shows "MessageParser_parse (WireNewOrder_bytes msg @ rest) len =
           Inr (if len < 30 \<or> w_type msg \<noteq> 1 then None
                else Some \<lparr>ord_id = w_order_id msg, ord_price = w_price msg,
                           ord_quantity = ucast (w_quantity msg),
                           ord_symbol = strncpy 8 (w_symbol msg),
                           ord_is_buy = (w_side msg = of_char (CHR ''B'')),
                           ord_timestamp = 0, ord_command = ADD\<rparr>)"
proof -
  have "length (WireNewOrder_bytes msg) = sizeof_WireNewOrder"
    and "WireNewOrder_of (WireNewOrder_bytes msg) = msg"
    using assms
    by (simp_all add: WireNewOrder_bytes_def WireNewOrder_of_def sizeof_WireNewOrder_def)
  then show ?thesis
    using assms
    by (simp add: MessageParser_parse_def Order_make_def take_strnlen sizeof_WireNewOrder_def)
qed

theorem MessageParser_parse_correct_witness:
  "\<exists>order. MessageParser_parse (WireNewOrder_bytes \<lparr>w_type = 1, w_order_id = 12345,
       w_price = 50000, w_quantity = 100, w_symbol = [66, 84, 67, 85, 83, 68, 0, 0],
       w_side = 66\<rparr>) 30 = Inr (Some order) \<and> ord_id order = 12345 \<and> ord_is_buy order"
  using MessageParser_parse_correct [of "\<lparr>w_type = 1, w_order_id = 12345,
       w_price = 50000, w_quantity = 100, w_symbol = [66, 84, 67, 85, 83, 68, 0, 0],
       w_side = 66\<rparr>" "[]" 30]
  by simp

end
