(* ===== verification/Order_Book.thy ===== *)
theory Order_Book
  imports Message_Parser
begin

text \<open>
  \<^verbatim>\<open>matching_engine/order_book.h\<close> and \<^verbatim>\<open>matching_engine/order_book.cpp\<close>: the book of one symbol.
  The engine hands every book a fresh \<^verbatim>\<open>shared_ptr\<close> copy of each order and keeps none, so an
  order is a value of the list that holds it. \<^verbatim>\<open>std::sort\<close> is the argument \<open>srt\<close>; what is assumed
  of it is the locale \<open>std_sort\<close> of the prelude.
\<close>

section \<open>State and operations\<close>

record OrderBook =
  ob_symbol :: bytes
  m_bids :: "Order list"
  m_asks :: "Order list"

type_synonym order_sort = "(Order \<Rightarrow> Order \<Rightarrow> bool) \<Rightarrow> Order list \<Rightarrow> Order list"

definition OrderBook_new :: "bytes \<Rightarrow> OrderBook" where
  "OrderBook_new symbol = \<lparr>ob_symbol = symbol, m_bids = [], m_asks = []\<rparr>"

definition OrderBook_get_bids :: "OrderBook \<Rightarrow> Order list" where
  "OrderBook_get_bids book = m_bids book"

definition OrderBook_get_asks :: "OrderBook \<Rightarrow> Order list" where
  "OrderBook_get_asks book = m_asks book"

definition bid_before :: "Order \<Rightarrow> Order \<Rightarrow> bool" where
  "bid_before a b = (ord_price a > ord_price b)"

definition ask_before :: "Order \<Rightarrow> Order \<Rightarrow> bool" where
  "ask_before a b = (ord_price a < ord_price b)"

definition OrderBook_add_order :: "order_sort \<Rightarrow> Order \<Rightarrow> OrderBook \<Rightarrow> OrderBook" where
  "OrderBook_add_order srt order book =
     (if ord_is_buy order
      then book\<lparr>m_bids := srt bid_before (m_bids book @ [order])\<rparr>
      else book\<lparr>m_asks := srt ask_before (m_asks book @ [order])\<rparr>)"

text \<open>
  The loop of \<^verbatim>\<open>match\<close>: while both sides have a front order and their prices cross, trade the
  smaller quantity at the price of the ask and erase a front order that is used up.
\<close>

function (sequential) match_loop ::
    "bytes \<Rightarrow> Order list \<Rightarrow> Order list \<Rightarrow> Trade list \<Rightarrow> Order list \<times> Order list \<times> Trade list" where
  "match_loop symb (best_bid # bids) (best_ask # asks) trades =
     (if ord_price best_ask \<le> ord_price best_bid
      then let quantity = min (ord_quantity best_bid) (ord_quantity best_ask);
               trades = trades @ [Trade_make (ord_id best_bid) (ord_id best_ask)
                                    (ord_price best_ask) quantity symb];
               best_bid = best_bid\<lparr>ord_quantity := ord_quantity best_bid - quantity\<rparr>;
               best_ask = best_ask\<lparr>ord_quantity := ord_quantity best_ask - quantity\<rparr>
           in match_loop symb
                (if ord_quantity best_bid = 0 then bids else best_bid # bids)
                (if ord_quantity best_ask = 0 then asks else best_ask # asks)
                trades
      else (best_bid # bids, best_ask # asks, trades))"
| "match_loop symb bids asks trades = (bids, asks, trades)"
  by pat_completeness auto
termination
  by (relation "measure (\<lambda>(symb, bids, asks, trades). length bids + length asks)")
     (auto simp: min_def)

definition OrderBook_match :: "OrderBook \<Rightarrow> Trade list \<times> OrderBook" where
  "OrderBook_match book =
     (case match_loop (ob_symbol book) (m_bids book) (m_asks book) [] of
        (bids, asks, trades) \<Rightarrow> (trades, book\<lparr>m_bids := bids, m_asks := asks\<rparr>))"

definition remove_id :: "u64 \<Rightarrow> Order list \<Rightarrow> Order list" where
  "remove_id order_id os = filter (\<lambda>ord. ord_id ord \<noteq> order_id) os"

definition OrderBook_cancel_order :: "u64 \<Rightarrow> OrderBook \<Rightarrow> bool \<times> OrderBook" where
  "OrderBook_cancel_order order_id book =
     (if list_ex (\<lambda>ord. ord_id ord = order_id) (m_bids book)
      then (True, book\<lparr>m_bids := remove_id order_id (m_bids book)\<rparr>)
      else if list_ex (\<lambda>ord. ord_id ord = order_id) (m_asks book)
      then (True, book\<lparr>m_asks := remove_id order_id (m_asks book)\<rparr>)
      else (False, book))"

fun find_and_remove :: "u64 \<Rightarrow> Order list \<Rightarrow> (Order \<times> Order list) option" where
  "find_and_remove order_id [] = None"
| "find_and_remove order_id (ord # os) =
     (if ord_id ord = order_id then Some (ord, os)
      else map_option (\<lambda>(found, rest). (found, ord # rest)) (find_and_remove order_id os))"

definition OrderBook_modify_order ::
    "order_sort \<Rightarrow> u64 \<Rightarrow> u32 \<Rightarrow> u64 \<Rightarrow> OrderBook \<Rightarrow> bool \<times> OrderBook" where
  "OrderBook_modify_order srt order_id new_quantity new_price book =
     (let removed =
        (case find_and_remove order_id (m_bids book) of
           Some (found, bids) \<Rightarrow> Some (found, book\<lparr>m_bids := bids\<rparr>)
         | None \<Rightarrow> (case find_and_remove order_id (m_asks book) of
             Some (found, asks) \<Rightarrow> Some (found, book\<lparr>m_asks := asks\<rparr>)
           | None \<Rightarrow> None))
      in case removed of
           Some (found_order, book) \<Rightarrow>
             (True, OrderBook_add_order srt
                      (found_order\<lparr>ord_quantity := ucast new_quantity, ord_price := new_price\<rparr>) book)
         | None \<Rightarrow> (False, book))"

section \<open>Well-formed books\<close>

text \<open>Bids by falling price, asks by rising price, every order on its side.\<close>

definition book_ok :: "OrderBook \<Rightarrow> bool" where
  "book_ok book \<longleftrightarrow>
     ordered_by bid_before (m_bids book) \<and> ordered_by ask_before (m_asks book) \<and>
     (\<forall>ord\<in>set (m_bids book). ord_is_buy ord) \<and> (\<forall>ord\<in>set (m_asks book). \<not> ord_is_buy ord)"

definition crossed :: "Order list \<Rightarrow> Order list \<Rightarrow> bool" where
  "crossed bids asks =
     (case (bids, asks) of (b # _, a # _) \<Rightarrow> ord_price a \<le> ord_price b | _ \<Rightarrow> False)"

definition resting :: "OrderBook \<Rightarrow> Order multiset" where
  "resting book = mset (m_bids book) + mset (m_asks book)"

lemma bid_before_swo [simp]: "strict_weak_order bid_before"
  and ask_before_swo [simp]: "strict_weak_order ask_before"
  by (auto simp: strict_weak_order_def bid_before_def ask_before_def)

lemma bid_before_update [simp]:
  "bid_before (a\<lparr>ord_quantity := n\<rparr>) b = bid_before a b"
  "bid_before a (b\<lparr>ord_quantity := n\<rparr>) = bid_before a b"
  "ask_before (a\<lparr>ord_quantity := n\<rparr>) b = ask_before a b"
  "ask_before a (b\<lparr>ord_quantity := n\<rparr>) = ask_before a b"
  by (simp_all add: bid_before_def ask_before_def)

lemma book_ok_new [simp]: "book_ok (OrderBook_new s)"
  by (simp add: book_ok_def OrderBook_new_def)

text \<open>One trade of the loop, on the two sides of the book.\<close>

definition fill :: "u64 \<Rightarrow> Order list \<Rightarrow> Order list" where
  "fill n os =
     (case os of [] \<Rightarrow> []
      | ord # rest \<Rightarrow> (if ord_quantity ord - n = 0 then rest
                      else ord\<lparr>ord_quantity := ord_quantity ord - n\<rparr> # rest))"

lemma match_loop_step:
  "match_loop symb bids asks trades =
     (if crossed bids asks
      then let n = min (ord_quantity (hd bids)) (ord_quantity (hd asks))
           in match_loop symb (fill n bids) (fill n asks)
                (trades @ [Trade_make (ord_id (hd bids)) (ord_id (hd asks)) (ord_price (hd asks)) n symb])
      else (bids, asks, trades))"
  by (cases bids; cases asks) (simp_all add: crossed_def fill_def Let_def)

lemma fill_shrinks:
  assumes "crossed bids asks"
  shows "length (fill (min (ord_quantity (hd bids)) (ord_quantity (hd asks))) bids) +
         length (fill (min (ord_quantity (hd bids)) (ord_quantity (hd asks))) asks)
         < length bids + length asks"
  using assms by (auto simp: crossed_def fill_def min_def split: list.splits)

text \<open>
  The induction rule of the loop, free of the accumulated trades: a property of the front
  orders that holds of an uncrossed pair of sides and is carried back over one trade.
\<close>

lemma match_induct [case_names uncrossed trade]:
  assumes uncrossed: "\<And>bids asks. \<not> crossed bids asks \<Longrightarrow> P bids asks bids asks []"
    and trade: "\<And>bids asks bids' asks' trades n.
      \<lbrakk> crossed bids asks; n = min (ord_quantity (hd bids)) (ord_quantity (hd asks));
        P (fill n bids) (fill n asks) bids' asks' trades \<rbrakk> \<Longrightarrow>
      P bids asks bids' asks'
        (Trade_make (ord_id (hd bids)) (ord_id (hd asks)) (ord_price (hd asks)) n symb # trades)"
  shows "\<exists>bids' asks' trades. (\<forall>acc. match_loop symb bids asks acc = (bids', asks', acc @ trades)) \<and>
           P bids asks bids' asks' trades"
proof (induction "length bids + length asks" arbitrary: bids asks rule: less_induct)
  case less
  show ?case
  proof (cases "crossed bids asks")
    case False
    then have "\<forall>acc. match_loop symb bids asks acc = (bids, asks, acc @ [])"
      by (subst match_loop_step) simp
    with uncrossed [OF False] show ?thesis by blast
  next
    case True
    define n where "n = min (ord_quantity (hd bids)) (ord_quantity (hd asks))"
    define t where "t = Trade_make (ord_id (hd bids)) (ord_id (hd asks)) (ord_price (hd asks)) n symb"
    obtain bids' asks' trades where
      r: "\<forall>acc. match_loop symb (fill n bids) (fill n asks) acc = (bids', asks', acc @ trades)"
      and P: "P (fill n bids) (fill n asks) bids' asks' trades"
      using less [of "fill n bids" "fill n asks"] fill_shrinks [OF True] unfolding n_def by blast
    have "match_loop symb bids asks acc = (bids', asks', acc @ t # trades)" for acc
      by (subst match_loop_step) (simp add: True r Let_def flip: n_def t_def)
    moreover have "P bids asks bids' asks' (t # trades)"
      unfolding t_def by (rule trade [OF True n_def P])
    ultimately show ?thesis by blast
  qed
qed

lemma match_loop_rule [consumes 1, case_names uncrossed trade]:
  assumes "match_loop symb bids asks [] = (bids', asks', trades)"
    and "\<And>bids asks. \<not> crossed bids asks \<Longrightarrow> P bids asks bids asks []"
    and "\<And>bids asks bids' asks' trades n.
      \<lbrakk> crossed bids asks; n = min (ord_quantity (hd bids)) (ord_quantity (hd asks));
        P (fill n bids) (fill n asks) bids' asks' trades \<rbrakk> \<Longrightarrow>
      P bids asks bids' asks'
        (Trade_make (ord_id (hd bids)) (ord_id (hd asks)) (ord_price (hd asks)) n symb # trades)"
  shows "P bids asks bids' asks' trades"
proof -
  obtain b a ts where r: "\<forall>acc. match_loop symb bids asks acc = (b, a, acc @ ts)"
    and P: "P bids asks b a ts"
    using match_induct [of P symb bids asks, OF assms(2,3)] by blast
  show ?thesis
    using P assms(1) spec [OF r, of "[]"] by simp
qed

lemma crossed_Cons: "crossed bids asks \<Longrightarrow> bids \<noteq> [] \<and> asks \<noteq> []"
  by (auto simp: crossed_def split: list.splits)

lemma crossed_prices: "crossed bids asks \<Longrightarrow> ord_price (hd asks) \<le> ord_price (hd bids)"
  by (auto simp: crossed_def split: list.splits)

lemma fill_ordered [simp]:
  "ordered_by bid_before os \<Longrightarrow> ordered_by bid_before (fill n os)"
  "ordered_by ask_before os \<Longrightarrow> ordered_by ask_before (fill n os)"
  by (auto simp: fill_def split: list.splits)

text \<open>Matching changes nothing of an order but its quantity.\<close>

definition same_order :: "Order \<Rightarrow> Order \<Rightarrow> bool" where
  "same_order a b \<longleftrightarrow> a\<lparr>ord_quantity := 0\<rparr> = b\<lparr>ord_quantity := 0\<rparr>"

lemma same_order_refl [simp]: "same_order a a"
  and same_order_fill [simp]: "same_order (a\<lparr>ord_quantity := n\<rparr>) b = same_order a b"
  and same_order_trans: "same_order a b \<Longrightarrow> same_order b c \<Longrightarrow> same_order a c"
  by (simp_all add: same_order_def)

lemma same_orderD:
  assumes "same_order a b"
  shows "ord_id a = ord_id b" "ord_price a = ord_price b" "ord_is_buy a = ord_is_buy b"
    "ord_symbol a = ord_symbol b"
  using arg_cong [OF assms [unfolded same_order_def], of ord_id]
    arg_cong [OF assms [unfolded same_order_def], of ord_price]
    arg_cong [OF assms [unfolded same_order_def], of ord_is_buy]
    arg_cong [OF assms [unfolded same_order_def], of ord_symbol]
  by simp_all

lemma fill_members: "ord \<in> set (fill n os) \<Longrightarrow> \<exists>ord'\<in>set os. same_order ord ord'"
proof (cases os)
  case (Cons x rest)
  moreover assume "ord \<in> set (fill n os)"
  ultimately have "ord \<in> set rest \<or> same_order ord x"
    by (auto simp: fill_def split: if_splits)
  then show ?thesis
    using Cons same_order_refl by (metis list.set_intros)
qed (simp add: fill_def)

section \<open>Quantities\<close>

definition open_quantity :: "u64 \<Rightarrow> Order list \<Rightarrow> nat" where
  "open_quantity i os = sum_list (map (\<lambda>ord. if ord_id ord = i then unat (ord_quantity ord) else 0) os)"

definition bought :: "u64 \<Rightarrow> Trade list \<Rightarrow> nat" where
  "bought i ts = sum_list (map (\<lambda>t. if tr_buy_order_id t = i then unat (tr_quantity t) else 0) ts)"

definition sold :: "u64 \<Rightarrow> Trade list \<Rightarrow> nat" where
  "sold i ts = sum_list (map (\<lambda>t. if tr_sell_order_id t = i then unat (tr_quantity t) else 0) ts)"

definition volume :: "Trade list \<Rightarrow> nat" where
  "volume ts = sum_list (map (\<lambda>t. unat (tr_quantity t)) ts)"

definition weight :: "(Order \<Rightarrow> bool) \<Rightarrow> Order list \<Rightarrow> nat" where
  "weight Q os = sum_list (map (\<lambda>ord. if Q ord then unat (ord_quantity ord) else 0) os)"

text \<open>A trade takes its quantity off the front order, without wrap-around.\<close>

lemma weight_fill:
  assumes "os \<noteq> []" and "n \<le> ord_quantity (hd os)"
    and "\<And>ord m. Q (ord\<lparr>ord_quantity := m\<rparr>) = Q ord"
  shows "weight Q os = weight Q (fill n os) + (if Q (hd os) then unat n else 0)"
proof (cases os)
  case (Cons ord rest)
  have le: "n \<le> ord_quantity ord"
    using assms(2) Cons by simp
  have split: "unat (ord_quantity ord) = unat (ord_quantity ord - n) + unat n"
    using le by (simp add: unat_sub word_le_nat_alt)
  show ?thesis
  proof (cases "ord_quantity ord - n = 0")
    case True
    then have "unat (ord_quantity ord) = unat n"
      using split by simp
    with True show ?thesis
      by (simp add: Cons fill_def weight_def)
  next
    case False
    then show ?thesis
      using split by (simp add: Cons fill_def weight_def assms(3))
  qed
qed (use assms(1) in simp)

lemma open_quantity_weight: "open_quantity i os = weight (\<lambda>ord. ord_id ord = i) os"
  by (simp add: open_quantity_def weight_def)

lemma open_quantity_fill:
  "os \<noteq> [] \<Longrightarrow> n \<le> ord_quantity (hd os) \<Longrightarrow>
   open_quantity i os = open_quantity i (fill n os) + (if ord_id (hd os) = i then unat n else 0)"
  unfolding open_quantity_weight by (rule weight_fill) simp_all

lemma Trade_make_sel [simp]:
  "tr_buy_order_id (Trade_make b s p n symb) = b" "tr_sell_order_id (Trade_make b s p n symb) = s"
  "tr_price (Trade_make b s p n symb) = p" "tr_quantity (Trade_make b s p n symb) = n"
  "tr_symbol (Trade_make b s p n symb) = strncpy 8 symb"
  by (simp_all add: Trade_make_def)

lemma volume_simps [simp]:
  "volume [] = 0" "volume (t # ts) = unat (tr_quantity t) + volume ts"
  by (simp_all add: volume_def)

section \<open>What a match does\<close>

lemma match_loop_conserves:
  assumes "match_loop symb bids asks [] = (bids', asks', trades)"
  shows "open_quantity i bids = open_quantity i bids' + bought i trades \<and>
         open_quantity i asks = open_quantity i asks' + sold i trades"
  using assms
proof (induction rule: match_loop_rule)
  case (uncrossed bids asks)
  then show ?case by (simp add: bought_def sold_def)
next
  case (trade bids asks bids' asks' trades n)
  then show ?case
    using crossed_Cons [OF trade(1)] open_quantity_fill [of bids n i] open_quantity_fill [of asks n i]
    by (auto simp: bought_def sold_def)
qed

lemma match_loop_ordered:
  assumes "match_loop symb bids asks [] = (bids', asks', trades)"
  shows "(ordered_by bid_before bids \<longrightarrow> ordered_by bid_before bids') \<and>
         (ordered_by ask_before asks \<longrightarrow> ordered_by ask_before asks') \<and> \<not> crossed bids' asks'"
  using assms by (induction rule: match_loop_rule) auto

lemma match_loop_members:
  assumes "match_loop symb bids asks [] = (bids', asks', trades)"
  shows "(\<forall>ord\<in>set bids'. \<exists>ord'\<in>set bids. same_order ord ord') \<and>
         (\<forall>ord\<in>set asks'. \<exists>ord'\<in>set asks. same_order ord ord')"
  using assms
proof (induction rule: match_loop_rule)
  case (uncrossed bids asks)
  then show ?case using same_order_refl by blast
next
  case (trade bids asks bids' asks' trades n)
  then show ?case
    using fill_members same_order_trans by meson
qed

text \<open>Every trade is between a bid and an ask of the book, within the limits of both.\<close>

lemma match_loop_trades:
  assumes "match_loop symb bids asks [] = (bids', asks', trades)"
  shows "\<forall>t\<in>set trades. \<exists>b\<in>set bids. \<exists>a\<in>set asks.
           tr_buy_order_id t = ord_id b \<and> tr_sell_order_id t = ord_id a \<and>
           tr_price t = ord_price a \<and> ord_price a \<le> ord_price b \<and>
           tr_symbol t = strncpy 8 symb"
  using assms
proof (induction rule: match_loop_rule)
  case (uncrossed bids asks)
  then show ?case by simp
next
  case (trade bids asks bids' asks' trades n)
  have keep: "\<exists>ord'\<in>set os. ord_id ord = ord_id ord' \<and> ord_price ord = ord_price ord'"
    if "ord \<in> set (fill n os)" for ord os
    using fill_members [OF that] same_orderD by metis
  show ?case
    using crossed_Cons [OF trade(1)] crossed_prices [OF trade(1)] trade(3) keep
    by (simp only: set_simps ball_simps Trade_make_sel) (metis list.set_sel(1))
qed

section \<open>Priority\<close>

text \<open>
  \<open>served_front os os'\<close>: some orders at the front of \<open>os\<close> are gone, the next one may have less
  quantity than before, and all the others are as they were.
\<close>

definition served_front :: "Order list \<Rightarrow> Order list \<Rightarrow> bool" where
  "served_front os os' \<longleftrightarrow>
     (\<exists>served. os = served @ os') \<or>
     (\<exists>served ord rest n. os = served @ ord # rest \<and> os' = ord\<lparr>ord_quantity := n\<rparr> # rest \<and>
        n \<le> ord_quantity ord)"

lemma served_front_all: "served_front (served @ os) os"
  and served_front_part:
    "n \<le> ord_quantity ord \<Longrightarrow> served_front (served @ ord # rest) (ord\<lparr>ord_quantity := n\<rparr> # rest)"
  by (auto simp: served_front_def)

lemma served_front_Cons: "served_front os os' \<Longrightarrow> served_front (ord # os) os'"
  unfolding served_front_def by (metis append_Cons)

text \<open>A partly filled front order served further is the original one served.\<close>

lemma served_front_partial:
  assumes "n \<le> ord_quantity ord" and "served_front (ord\<lparr>ord_quantity := n\<rparr> # rest) os'"
  shows "served_front (ord # rest) os'"
  using assms(2) [unfolded served_front_def]
proof (elim disjE exE conjE)
  fix served assume eq: "ord\<lparr>ord_quantity := n\<rparr> # rest = served @ os'"
  show ?thesis
  proof (cases served)
    case Nil
    then show ?thesis
      using eq served_front_part [OF assms(1), of "[]"] by auto
  next
    case (Cons _ pre)
    then show ?thesis
      using eq served_front_all [of pre os'] by (auto intro: served_front_Cons)
  qed
next
  fix served x r m
  assume eq: "ord\<lparr>ord_quantity := n\<rparr> # rest = served @ x # r"
    and os': "os' = x\<lparr>ord_quantity := m\<rparr> # r" and m: "m \<le> ord_quantity x"
  show ?thesis
  proof (cases served)
    case Nil
    then have "m \<le> ord_quantity ord" and "os' = ord\<lparr>ord_quantity := m\<rparr> # rest"
      using eq os' m assms(1) by auto
    then show ?thesis
      using served_front_part [of m ord "[]" rest] by simp
  next
    case (Cons _ pre)
    then show ?thesis
      using eq os' served_front_part [OF m, of pre r] by (auto intro: served_front_Cons)
  qed
qed

lemma served_front_fill:
  assumes "os \<noteq> []" and "n \<le> ord_quantity (hd os)" and "served_front (fill n os) os'"
  shows "served_front os os'"
proof (cases os)
  case (Cons ord rest)
  have "ord_quantity ord - n \<le> ord_quantity ord"
    using assms(2) Cons by (simp add: word_sub_le)
  then show ?thesis
    using assms(3) served_front_partial [of "ord_quantity ord - n" ord rest os']
    by (auto simp: Cons fill_def intro: served_front_Cons split: if_splits)
qed (use assms(1) in simp)

lemma match_loop_served_front:
  assumes "match_loop symb bids asks [] = (bids', asks', trades)"
  shows "served_front bids bids' \<and> served_front asks asks'"
  using assms
proof (induction rule: match_loop_rule)
  case (uncrossed bids asks)
  then show ?case by (auto simp: served_front_def)
next
  case (trade bids asks bids' asks' trades n)
  then show ?case
    using crossed_Cons [OF trade(1)] served_front_fill [of bids n bids']
      served_front_fill [of asks n asks'] by simp
qed

section \<open>The executable volume\<close>

text \<open>
  At a limit price \<open>p\<close> the buyers would take \<open>demand_at p\<close> and the sellers give \<open>supply_at p\<close>; no
  set of trades that respects both limits can move more than the largest minimum of the two.
\<close>

definition demand_at :: "u64 \<Rightarrow> Order list \<Rightarrow> nat" where
  "demand_at p bids = weight (\<lambda>ord. p \<le> ord_price ord) bids"

definition supply_at :: "u64 \<Rightarrow> Order list \<Rightarrow> nat" where
  "supply_at p asks = weight (\<lambda>ord. ord_price ord \<le> p) asks"

lemma weight_zero: "(\<And>ord. ord \<in> set os \<Longrightarrow> \<not> Q ord) \<Longrightarrow> weight Q os = 0"
  by (induction os) (auto simp: weight_def)

lemma weight_pos: "0 < weight Q os \<Longrightarrow> \<exists>ord\<in>set os. Q ord"
  using weight_zero by (metis less_irrefl)

lemma demand_fill:
  "os \<noteq> [] \<Longrightarrow> n \<le> ord_quantity (hd os) \<Longrightarrow>
   demand_at p os = demand_at p (fill n os) + (if p \<le> ord_price (hd os) then unat n else 0)"
  unfolding demand_at_def by (rule weight_fill) simp_all

lemma supply_fill:
  "os \<noteq> [] \<Longrightarrow> n \<le> ord_quantity (hd os) \<Longrightarrow>
   supply_at p os = supply_at p (fill n os) + (if ord_price (hd os) \<le> p then unat n else 0)"
  unfolding supply_at_def by (rule weight_fill) simp_all

lemma bids_best_first: "ordered_by bid_before bids \<Longrightarrow> ord \<in> set bids \<Longrightarrow> ord_price ord \<le> ord_price (hd bids)"
  by (cases bids) (auto simp: bid_before_def not_less)

lemma asks_best_first: "ordered_by ask_before asks \<Longrightarrow> ord \<in> set asks \<Longrightarrow> ord_price (hd asks) \<le> ord_price ord"
  by (cases asks) (auto simp: ask_before_def not_less)

lemma uncrossed_no_volume:
  assumes "\<not> crossed bids asks" and "ordered_by bid_before bids" and "ordered_by ask_before asks"
  shows "min (demand_at p bids) (supply_at p asks) = 0"
proof (rule ccontr)
  assume "min (demand_at p bids) (supply_at p asks) \<noteq> 0"
  then obtain b a where "b \<in> set bids" "p \<le> ord_price b" "a \<in> set asks" "ord_price a \<le> p"
    using weight_pos unfolding demand_at_def supply_at_def by (metis min_0L min_0R not_gr0)
  moreover from this have "ord_price (hd asks) \<le> ord_price (hd bids)"
    using bids_best_first [OF assms(2)] asks_best_first [OF assms(3)] by (meson order_trans)
  ultimately show False
    using assms(1) by (cases bids; cases asks) (auto simp: crossed_def)
qed

lemma match_loop_volume_upper:
  assumes "match_loop symb bids asks [] = (bids', asks', trades)"
  shows "ordered_by bid_before bids \<longrightarrow> ordered_by ask_before asks \<longrightarrow>
         min (demand_at p bids) (supply_at p asks) \<le> volume trades"
  using assms
proof (induction rule: match_loop_rule)
  case (uncrossed bids asks)
  then show ?case using uncrossed_no_volume by simp
next
  case (trade bids asks bids' asks' trades n)
  have "demand_at p bids \<le> demand_at p (fill n bids) + unat n"
    and "supply_at p asks \<le> supply_at p (fill n asks) + unat n"
    using crossed_Cons [OF trade(1)] trade(2) demand_fill [of bids n p] supply_fill [of asks n p]
    by auto
  moreover have "min (demand_at p (fill n bids)) (supply_at p (fill n asks)) \<le> volume trades"
    if "ordered_by bid_before bids" "ordered_by ask_before asks"
    using trade(3) that by simp
  ultimately show ?case
    by auto
qed

lemma match_loop_volume_attained:
  assumes "match_loop symb bids asks [] = (bids', asks', trades)"
  shows "ordered_by bid_before bids \<longrightarrow> ordered_by ask_before asks \<longrightarrow>
         (\<exists>p. volume trades \<le> min (demand_at p bids) (supply_at p asks))"
  using assms
proof (induction rule: match_loop_rule)
  case (uncrossed bids asks)
  then show ?case by simp
next
  case (trade bids asks bids' asks' trades n)
  have c: "bids \<noteq> []" "asks \<noteq> []" "n \<le> ord_quantity (hd bids)" "n \<le> ord_quantity (hd asks)"
    using crossed_Cons [OF trade(1)] trade(2) by simp_all
  show ?case
  proof (intro impI)
    assume srtd: "ordered_by bid_before bids" "ordered_by ask_before asks"
    then obtain p where p: "volume trades \<le> min (demand_at p (fill n bids)) (supply_at p (fill n asks))"
      using trade(3) by auto
    show "\<exists>p. volume (Trade_make (ord_id (hd bids)) (ord_id (hd asks)) (ord_price (hd asks)) n symb # trades)
            \<le> min (demand_at p bids) (supply_at p asks)"
    proof (cases "volume trades = 0")
      case True
      then have "unat n \<le> min (demand_at (ord_price (hd asks)) bids) (supply_at (ord_price (hd asks)) asks)"
        using demand_fill [OF c(1,3), of "ord_price (hd asks)"]
          supply_fill [OF c(2,4), of "ord_price (hd asks)"] crossed_prices [OF trade(1)] by simp
      with True show ?thesis
        by (intro exI [of _ "ord_price (hd asks)"]) simp
    next
      case False
      then have "0 < demand_at p (fill n bids)" "0 < supply_at p (fill n asks)"
        using p by linarith+
      then obtain b a where "b \<in> set (fill n bids)" "p \<le> ord_price b"
        "a \<in> set (fill n asks)" "ord_price a \<le> p"
        unfolding demand_at_def supply_at_def using weight_pos by meson
      then obtain b0 a0 where "b0 \<in> set bids" "same_order b b0" "a0 \<in> set asks" "same_order a a0"
        "p \<le> ord_price b" "ord_price a \<le> p"
        using fill_members by blast
      then have "p \<le> ord_price (hd bids)" "ord_price (hd asks) \<le> p"
        using bids_best_first [OF srtd(1), of b0] asks_best_first [OF srtd(2), of a0]
          same_orderD(2) [of b b0] same_orderD(2) [of a a0] by auto
      then show ?thesis
        using p demand_fill [OF c(1,3), of p] supply_fill [OF c(2,4), of p]
        by (intro exI [of _ p]) simp
    qed
  qed
qed

section \<open>The interface of a book\<close>

text \<open>
  What the engine relies on: each operation keeps the book well-formed, an added order rests in
  the book, and no operation invents an order: what rests afterwards is an order that rested
  before, up to its quantity (match), or its quantity and price (modify). A cancelled identifier
  is gone when it was not on both sides, and a modified one stays.
\<close>

definition rests :: "u64 \<Rightarrow> OrderBook \<Rightarrow> bool" where
  "rests i book \<longleftrightarrow> (\<exists>ord\<in>#resting book. ord_id ord = i)"

definition one_sided :: "u64 \<Rightarrow> OrderBook \<Rightarrow> bool" where
  "one_sided i book \<longleftrightarrow>
     \<not> ((\<exists>b\<in>set (m_bids book). ord_id b = i) \<and> (\<exists>a\<in>set (m_asks book). ord_id a = i))"

definition same_listing :: "Order \<Rightarrow> Order \<Rightarrow> bool" where
  "same_listing a b \<longleftrightarrow>
     ord_id a = ord_id b \<and> ord_is_buy a = ord_is_buy b \<and> ord_symbol a = ord_symbol b"

lemma same_order_listing: "same_order a b \<Longrightarrow> same_listing a b"
  by (simp add: same_listing_def same_orderD)

lemma same_listing_refl [simp]: "same_listing a a"
  by (simp add: same_listing_def)

locale order_book_ops =
  fixes add :: "Order \<Rightarrow> OrderBook \<Rightarrow> OrderBook"
    and matching :: "OrderBook \<Rightarrow> Trade list \<times> OrderBook"
    and cancel :: "u64 \<Rightarrow> OrderBook \<Rightarrow> bool \<times> OrderBook"
    and modify :: "u64 \<Rightarrow> u32 \<Rightarrow> u64 \<Rightarrow> OrderBook \<Rightarrow> bool \<times> OrderBook"
    and ok :: "OrderBook \<Rightarrow> bool"
  assumes add_ok: "ok b \<Longrightarrow> ok (add ord b)"
    and match_ok: "ok b \<Longrightarrow> ok (snd (matching b))"
    and cancel_ok: "ok b \<Longrightarrow> ok (snd (cancel i b))"
    and modify_ok: "ok b \<Longrightarrow> ok (snd (modify i n p b))"
    and add_resting: "resting (add ord b) = add_mset ord (resting b)"
    and match_resting: "x \<in># resting (snd (matching b)) \<Longrightarrow> \<exists>y\<in>#resting b. same_listing x y"
    and cancel_resting: "resting (snd (cancel i b)) \<subseteq># resting b"
    and cancel_gone: "one_sided i b \<Longrightarrow> \<not> rests i (snd (cancel i b))"
    and modify_resting: "x \<in># resting (snd (modify i n p b)) \<Longrightarrow> \<exists>y\<in>#resting b. same_listing x y"
    and symbol_kept: "ob_symbol (add ord b) = ob_symbol b"
      "ob_symbol (snd (matching b)) = ob_symbol b" "ob_symbol (snd (cancel i b)) = ob_symbol b"
      "ob_symbol (snd (modify i n p b)) = ob_symbol b"

locale order_sorting = std_sort srt for srt :: order_sort
begin

lemma add_order_ok: "book_ok book \<Longrightarrow> book_ok (OrderBook_add_order srt order book)"
  using srt_ordered srt_set by (auto simp: book_ok_def OrderBook_add_order_def)

lemma add_order_resting: "resting (OrderBook_add_order srt order book) = add_mset order (resting book)"
  using srt_perm by (simp add: resting_def OrderBook_add_order_def)

end

lemma OrderBook_match_eq:
  assumes "OrderBook_match book = (trades, book')"
  shows "match_loop (ob_symbol book) (m_bids book) (m_asks book) [] =
           (m_bids book', m_asks book', trades) \<and>
         ob_symbol book' = ob_symbol book"
  using assms by (auto simp: OrderBook_match_def split: prod.splits)

lemma match_book_ok: "book_ok book \<Longrightarrow> book_ok (snd (OrderBook_match book))"
proof -
  assume ok: "book_ok book"
  obtain trades book' where m: "OrderBook_match book = (trades, book')"
    by (cases "OrderBook_match book")
  show ?thesis
    using ok match_loop_ordered [OF conjunct1 [OF OrderBook_match_eq [OF m]]]
      match_loop_members [OF conjunct1 [OF OrderBook_match_eq [OF m]]]
    unfolding book_ok_def m snd_conv by (metis same_orderD(3))
qed

lemma match_resting_origin:
  assumes "x \<in># resting (snd (OrderBook_match book))"
  shows "\<exists>y\<in>#resting book. same_listing x y"
proof -
  obtain trades book' where m: "OrderBook_match book = (trades, book')"
    by (cases "OrderBook_match book")
  show ?thesis
    using assms match_loop_members [OF conjunct1 [OF OrderBook_match_eq [OF m]]]
    unfolding m resting_def snd_conv by (auto simp: Bex_def) (meson same_order_listing)+
qed

lemma ordered_remove_id: "ordered_by lt os \<Longrightarrow> ordered_by lt (remove_id i os)"
  by (simp add: ordered_by_def remove_id_def sorted_wrt_filter)

lemma mset_remove_id: "mset (remove_id i os) = filter_mset (\<lambda>ord. ord_id ord \<noteq> i) (mset os)"
  by (simp add: remove_id_def)

lemma set_remove_id: "set (remove_id i os) = {ord \<in> set os. ord_id ord \<noteq> i}"
  by (auto simp: remove_id_def)

lemma cancel_book_ok: "book_ok book \<Longrightarrow> book_ok (snd (OrderBook_cancel_order i book))"
  by (auto simp: book_ok_def OrderBook_cancel_order_def ordered_remove_id set_remove_id)

lemma remove_id_absent: "\<forall>ord\<in>set os. ord_id ord \<noteq> i \<Longrightarrow> remove_id i os = os"
  by (simp add: remove_id_def)

lemma cancel_one_sided:
  assumes "one_sided i book"
  shows "resting (snd (OrderBook_cancel_order i book)) =
         filter_mset (\<lambda>ord. ord_id ord \<noteq> i) (resting book)"
proof -
  have "m_bids (snd (OrderBook_cancel_order i book)) = remove_id i (m_bids book)"
    and "m_asks (snd (OrderBook_cancel_order i book)) = remove_id i (m_asks book)"
    using assms
    by (auto simp: OrderBook_cancel_order_def one_sided_def list_ex_iff remove_id_absent)
  then show ?thesis
    by (simp add: resting_def mset_remove_id)
qed

lemma find_and_remove_Some:
  "find_and_remove i os = Some (found, rest) \<Longrightarrow>
   ord_id found = i \<and> mset os = add_mset found (mset rest) \<and>
   (ordered_by lt os \<longrightarrow> ordered_by lt rest)"
proof (induction os arbitrary: rest)
  case Nil
  then show ?case by simp
next
  case (Cons ord os)
  show ?case
  proof (cases "ord_id ord = i")
    case False
    then obtain r where r: "find_and_remove i os = Some (found, r)" "rest = ord # r"
      using Cons.prems by auto
    have "set r \<subseteq> set os"
      using Cons.IH [OF r(1)] by (metis insert_subset set_mset_add_mset_insert set_mset_mset order_refl)
    then show ?thesis
      using Cons.IH [OF r(1)] r(2) by (auto simp: add_mset_commute)
  qed (use Cons.prems in auto)
qed

lemma find_and_remove_None: "find_and_remove i os = None \<longleftrightarrow> (\<forall>ord\<in>set os. ord_id ord \<noteq> i)"
  by (induction os) auto

lemma find_and_remove_shrinks:
  assumes "find_and_remove i os = Some (found, rest)"
  shows "found \<in> set os" "set rest \<subseteq> set os"
  using find_and_remove_Some [OF assms]
  by (metis insert_subset order_refl set_mset_add_mset_insert set_mset_mset)+

lemma modify_cases:
  obtains (absent) "\<not> rests i book" "OrderBook_modify_order srt i n p book = (False, book)"
  | (found) found base where "ord_id found = i" "resting book = add_mset found (resting base)"
      "book_ok book \<Longrightarrow> book_ok base" "ob_symbol base = ob_symbol book"
      "OrderBook_modify_order srt i n p book =
         (True, OrderBook_add_order srt (found\<lparr>ord_quantity := ucast n, ord_price := p\<rparr>) base)"
proof (cases "find_and_remove i (m_bids book)")
  case (Some r)
  obtain ord bids where r: "r = (ord, bids)" by (cases r)
  show thesis
    by (rule found [of ord "book\<lparr>m_bids := bids\<rparr>"])
       (use Some r find_and_remove_Some [of i "m_bids book" ord bids]
          find_and_remove_shrinks [of i "m_bids book" ord bids]
        in \<open>auto simp: OrderBook_modify_order_def resting_def book_ok_def\<close>)
next
  case no_bid: None
  show thesis
  proof (cases "find_and_remove i (m_asks book)")
    case (Some r)
    obtain ord asks where r: "r = (ord, asks)" by (cases r)
    show thesis
      by (rule found [of ord "book\<lparr>m_asks := asks\<rparr>"])
         (use no_bid Some r find_and_remove_Some [of i "m_asks book" ord asks]
            find_and_remove_shrinks [of i "m_asks book" ord asks]
          in \<open>auto simp: OrderBook_modify_order_def resting_def book_ok_def\<close>)
  next
    case None
    show thesis
    proof (rule absent)
      show "\<not> rests i book"
        using no_bid None by (auto simp: rests_def resting_def find_and_remove_None)
      show "OrderBook_modify_order srt i n p book = (False, book)"
        using no_bid None by (simp add: OrderBook_modify_order_def)
    qed
  qed
qed

lemma ob_symbol_ops [simp]:
  "ob_symbol (OrderBook_add_order srt ord book) = ob_symbol book"
  "ob_symbol (snd (OrderBook_match book)) = ob_symbol book"
  "ob_symbol (snd (OrderBook_cancel_order i book)) = ob_symbol book"
  by (simp_all add: OrderBook_add_order_def OrderBook_match_def OrderBook_cancel_order_def
      split: prod.splits)

lemma cancel_resting_subset: "resting (snd (OrderBook_cancel_order i book)) \<subseteq># resting book"
  by (simp add: OrderBook_cancel_order_def resting_def mset_remove_id)

lemma cancel_not_rests: "one_sided i book \<Longrightarrow> \<not> rests i (snd (OrderBook_cancel_order i book))"
  by (simp add: rests_def cancel_one_sided)

context order_sorting
begin

lemma modify_order_ok: "book_ok book \<Longrightarrow> book_ok (snd (OrderBook_modify_order srt i n p book))"
  by (rule modify_cases [of i book srt n p]) (auto simp: add_order_ok)

lemma modify_order_origin:
  assumes "x \<in># resting (snd (OrderBook_modify_order srt i n p book))"
  shows "\<exists>y\<in>#resting book. same_listing x y"
proof (rule modify_cases [of i book srt n p])
  assume "OrderBook_modify_order srt i n p book = (False, book)"
  then have "x \<in># resting book" using assms by simp
  then show ?thesis by (rule bexI [rotated]) simp
next
  fix found base
  assume "resting book = add_mset found (resting base)"
    "OrderBook_modify_order srt i n p book =
       (True, OrderBook_add_order srt (found\<lparr>ord_quantity := ucast n, ord_price := p\<rparr>) base)"
  then show ?thesis
    using assms by (auto simp: add_order_resting same_listing_def)
qed

lemma modify_order_symbol: "ob_symbol (snd (OrderBook_modify_order srt i n p book)) = ob_symbol book"
  by (rule modify_cases [of i book srt n p]) auto

end

sublocale order_sorting \<subseteq> book: order_book_ops
  "OrderBook_add_order srt" OrderBook_match OrderBook_cancel_order "OrderBook_modify_order srt"
  book_ok
  by unfold_locales
     (simp_all add: add_order_ok match_book_ok cancel_book_ok modify_order_ok add_order_resting
       match_resting_origin cancel_resting_subset cancel_not_rests modify_order_origin
       modify_order_symbol)

interpretation ins_book: order_sorting insertion_sort
  by unfold_locales

section \<open>Correctness of the book\<close>

text \<open>Sample orders on which the theorems are exercised.\<close>

definition sample_bid :: "u64 \<Rightarrow> u64 \<Rightarrow> u64 \<Rightarrow> Order" where
  "sample_bid i p n = Order_make i p n [65] True"

definition sample_ask :: "u64 \<Rightarrow> u64 \<Rightarrow> u64 \<Rightarrow> Order" where
  "sample_ask i p n = Order_make i p n [65] False"

definition sample_book :: OrderBook where
  "sample_book = \<lparr>ob_symbol = [65], m_bids = [sample_bid 1 102 10, sample_bid 2 100 5],
                  m_asks = [sample_ask 3 101 4, sample_ask 4 101 8, sample_ask 5 103 7]\<rparr>"

lemma sample_sel [simp]:
  "ord_id (sample_bid i p n) = i" "ord_price (sample_bid i p n) = p"
  "ord_quantity (sample_bid i p n) = n" "ord_is_buy (sample_bid i p n)"
  "ord_id (sample_ask i p n) = i" "ord_price (sample_ask i p n) = p"
  "ord_quantity (sample_ask i p n) = n" "\<not> ord_is_buy (sample_ask i p n)"
  by (simp_all add: sample_bid_def sample_ask_def Order_make_def)

lemma sample_book_ok: "book_ok sample_book"
  by (simp add: book_ok_def sample_book_def bid_before_def ask_before_def)

lemma sample_sort: "std_sort (insertion_sort :: order_sort)"
  by (rule ins.std_sort_axioms)

text \<open>C6: every operation of the book keeps the bids in falling and the asks in rising price order
  with every order on its own side, for any sort that satisfies the contract of \<^verbatim>\<open>std::sort\<close>; and
  after \<^verbatim>\<open>match\<close> the best bid is below the best ask.\<close>

theorem book_invariant:
  assumes "std_sort srt" and "book_ok book"
  shows "book_ok (OrderBook_add_order srt order book) \<and>
         book_ok (snd (OrderBook_cancel_order i book)) \<and>
         book_ok (snd (OrderBook_modify_order srt i n p book)) \<and>
         book_ok (snd (OrderBook_match book)) \<and>
         \<not> crossed (m_bids (snd (OrderBook_match book))) (m_asks (snd (OrderBook_match book)))"
proof -
  have s: "order_sorting srt"
    using assms(1) by (rule order_sorting.intro)
  obtain trades book' where m: "OrderBook_match book = (trades, book')"
    by (cases "OrderBook_match book")
  have "book_ok book'"
    using match_book_ok [OF assms(2)] m by simp
  then show ?thesis
    using assms(2) order_sorting.add_order_ok [OF s] order_sorting.modify_order_ok [OF s]
      cancel_book_ok match_loop_ordered [OF conjunct1 [OF OrderBook_match_eq [OF m]]] m
    by simp
qed

theorem book_invariant_witness:
  "book_ok (OrderBook_add_order insertion_sort (sample_bid 9 101 1) sample_book) \<and>
   \<not> crossed (m_bids (snd (OrderBook_match sample_book))) (m_asks (snd (OrderBook_match sample_book)))"
  using book_invariant [OF sample_sort sample_book_ok, of "sample_bid 9 101 1" 0 0 0] by simp

text \<open>C5: matching conserves quantity order by order: for every identifier, what its bids had
  open before the match is what they have open afterwards plus what it bought in the trades, and
  likewise for asks and sales. No subtraction of the 64-bit quantities wraps around.\<close>

theorem match_conserves_quantity:
  assumes "OrderBook_match book = (trades, book')"
  shows "open_quantity i (m_bids book) = open_quantity i (m_bids book') + bought i trades \<and>
         open_quantity i (m_asks book) = open_quantity i (m_asks book') + sold i trades"
  using match_loop_conserves OrderBook_match_eq [OF assms] by blast

theorem match_conserves_quantity_witness:
  "\<exists>trades book'. OrderBook_match sample_book = (trades, book') \<and> bought 1 trades = 10 \<and>
     open_quantity 1 (m_bids sample_book) = open_quantity 1 (m_bids book') + bought 1 trades"
proof -
  obtain trades book' where m: "OrderBook_match sample_book = (trades, book')"
    by (cases "OrderBook_match sample_book")
  have "bought 1 (fst (OrderBook_match sample_book)) = 10"
    by (simp add: OrderBook_match_def sample_book_def bought_def)
  then show ?thesis
    using m match_conserves_quantity [OF m, of 1] by auto
qed

text \<open>C25: every trade of a match is between a bid and an ask that were in the book, at the ask's
  price, which is at most the bid's limit, and carries the symbol of the book.\<close>

theorem match_within_limits:
  assumes "OrderBook_match book = (trades, book')" and "t \<in> set trades"
  shows "\<exists>b\<in>set (m_bids book). \<exists>a\<in>set (m_asks book).
           tr_buy_order_id t = ord_id b \<and> tr_sell_order_id t = ord_id a \<and>
           tr_price t = ord_price a \<and> tr_price t \<le> ord_price b \<and>
           tr_symbol t = strncpy 8 (ob_symbol book)"
  using match_loop_trades [OF conjunct1 [OF OrderBook_match_eq [OF assms(1)]]] assms(2) by metis

theorem match_within_limits_witness:
  "\<exists>t book'. OrderBook_match \<lparr>ob_symbol = [65], m_bids = [sample_bid 1 102 10],
       m_asks = [sample_ask 3 101 4]\<rparr> = ([t], book') \<and> tr_price t \<le> 102 \<and> tr_buy_order_id t = 1"
proof -
  let ?book = "\<lparr>ob_symbol = [65], m_bids = [sample_bid 1 102 10], m_asks = [sample_ask 3 101 4]\<rparr>"
  obtain t book' where m: "OrderBook_match ?book = ([t], book')"
    by (simp add: OrderBook_match_def)
  then show ?thesis
    using match_within_limits [OF m, of t] by auto
qed

text \<open>C4: a match executes all the volume the limits allow. In a well-formed book the total
  quantity traded is the largest, over all prices, of the minimum of what the bids at that price
  or better demand and the asks at that price or better supply.\<close>

theorem match_volume_maximal:
  assumes "book_ok book" and "OrderBook_match book = (trades, book')"
  shows "(\<forall>p. min (demand_at p (m_bids book)) (supply_at p (m_asks book)) \<le> volume trades) \<and>
         (\<exists>p. min (demand_at p (m_bids book)) (supply_at p (m_asks book)) = volume trades)"
proof -
  have l: "match_loop (ob_symbol book) (m_bids book) (m_asks book) [] =
             (m_bids book', m_asks book', trades)"
    using OrderBook_match_eq [OF assms(2)] by simp
  have "\<forall>p. min (demand_at p (m_bids book)) (supply_at p (m_asks book)) \<le> volume trades"
    using match_loop_volume_upper [OF l] assms(1) by (simp add: book_ok_def)
  moreover obtain p where "volume trades \<le> min (demand_at p (m_bids book)) (supply_at p (m_asks book))"
    using match_loop_volume_attained [OF l] assms(1) by (auto simp: book_ok_def)
  ultimately show ?thesis
    using le_antisym by blast
qed

theorem match_volume_maximal_witness:
  "volume (fst (OrderBook_match sample_book)) = 10 \<and>
   min (demand_at 101 (m_bids sample_book)) (supply_at 101 (m_asks sample_book)) \<le> 10"
proof -
  obtain trades book' where m: "OrderBook_match sample_book = (trades, book')"
    by (cases "OrderBook_match sample_book")
  have "volume (fst (OrderBook_match sample_book)) = 10"
    by (simp add: OrderBook_match_def sample_book_def)
  then show ?thesis
    using match_volume_maximal [OF sample_book_ok m] m by auto
qed

text \<open>C24: orders are served strictly from the front of each side: after a match each side is what
  it was without some orders at its front, where the first remaining one may have less quantity
  than before and all others are unchanged.\<close>

theorem match_serves_front:
  assumes "OrderBook_match book = (trades, book')"
  shows "served_front (m_bids book) (m_bids book') \<and> served_front (m_asks book) (m_asks book')"
  using match_loop_served_front OrderBook_match_eq [OF assms] by blast

theorem match_serves_front_witness:
  "served_front (m_asks sample_book) (m_asks (snd (OrderBook_match sample_book))) \<and>
   map ord_quantity (m_asks (snd (OrderBook_match sample_book))) = [2, 7]"
proof -
  have "map ord_quantity (m_asks (snd (OrderBook_match sample_book))) = [2, 7]"
    by (simp add: OrderBook_match_def sample_book_def)
  then show ?thesis
    using match_serves_front [OF prod.collapse [symmetric], of sample_book] by simp
qed

text \<open>With a stable sort the book has price-time priority: adding an order leaves the orders of
  every price level in their order of arrival, the new one last of its level, and rearranges
  nothing on the other side.\<close>

theorem add_order_time_priority:
  assumes "std_stable_sort srt"
  shows "filter (\<lambda>ord. ord_price ord = p) (m_bids (OrderBook_add_order srt order book)) =
           filter (\<lambda>ord. ord_price ord = p)
             (m_bids book @ (if ord_is_buy order then [order] else [])) \<and>
         filter (\<lambda>ord. ord_price ord = p) (m_asks (OrderBook_add_order srt order book)) =
           filter (\<lambda>ord. ord_price ord = p)
             (m_asks book @ (if ord_is_buy order then [] else [order]))"
proof -
  define probe :: Order where "probe = sample_bid 0 p 0"
  have "equivalent_by bid_before probe = (\<lambda>ord. ord_price ord = p)"
    and "equivalent_by ask_before probe = (\<lambda>ord. ord_price ord = p)"
    by (auto simp: equivalent_by_def bid_before_def ask_before_def probe_def fun_eq_iff)
  then show ?thesis
    using std_stable_sort.srt_stable [OF assms, of bid_before probe]
      std_stable_sort.srt_stable [OF assms, of ask_before probe]
    by (simp add: OrderBook_add_order_def)
qed

theorem add_order_time_priority_witness:
  "filter (\<lambda>ord. ord_price ord = 102)
     (m_bids (OrderBook_add_order insertion_sort (sample_bid 9 102 1) sample_book)) =
   [sample_bid 1 102 10, sample_bid 9 102 1]"
  using add_order_time_priority [OF ins.std_stable_sort_axioms, of 102 "sample_bid 9 102 1" sample_book]
  by (simp add: sample_book_def)

text \<open>C35: the contract of \<^verbatim>\<open>std::sort\<close> does not promise time priority: there is a sort that satisfies
  it under which an order is put before an earlier one at the same price, so that the later order
  trades first.\<close>

theorem time_priority_not_promised:
  "\<exists>srt :: order_sort. std_sort srt \<and>
     (let book = OrderBook_add_order srt (sample_bid 2 100 5)
                   (OrderBook_add_order srt (sample_bid 1 100 5) (OrderBook_new [65]));
          result = OrderBook_match (OrderBook_add_order srt (sample_ask 3 100 5) book)
      in map ord_id (m_bids book) = [2, 1] \<and> map tr_buy_order_id (fst result) = [2])"
proof (intro exI conjI)
  show "std_sort (\<lambda>lt xs :: Order list. insertion_sort lt (rev xs))"
    by unfold_locales (simp_all add: ins.srt_perm ins.srt_ordered)
qed (simp add: Let_def OrderBook_add_order_def OrderBook_new_def OrderBook_match_def
    insertion_sort_def bid_before_def)

text \<open>C26: cancelling an identifier that is not on both sides removes exactly the orders with that
  identifier and reports whether there was one; if it is on both sides only the bids go.\<close>

theorem cancel_order_correct:
  shows "fst (OrderBook_cancel_order i book) = rests i book \<and>
         resting (snd (OrderBook_cancel_order i book)) =
           (if one_sided i book then filter_mset (\<lambda>ord. ord_id ord \<noteq> i) (resting book)
            else filter_mset (\<lambda>ord. ord_id ord \<noteq> i) (mset (m_bids book)) + mset (m_asks book))"
proof -
  have "fst (OrderBook_cancel_order i book) = rests i book"
    by (auto simp: OrderBook_cancel_order_def rests_def resting_def list_ex_iff)
  moreover have "resting (snd (OrderBook_cancel_order i book)) =
      filter_mset (\<lambda>ord. ord_id ord \<noteq> i) (mset (m_bids book)) + mset (m_asks book)"
    if "\<not> one_sided i book"
    using that
    by (auto simp: OrderBook_cancel_order_def resting_def mset_remove_id one_sided_def list_ex_iff)
  ultimately show ?thesis
    using cancel_one_sided by simp
qed

lemma find_and_remove_first:
  "\<forall>ord\<in>set pre. ord_id ord \<noteq> i \<Longrightarrow> ord_id found = i \<Longrightarrow>
   find_and_remove i (pre @ found # post) = Some (found, pre @ post)"
  by (induction pre) auto

text \<open>C27: modifying an order, on a well-formed book. The first bid with the identifier, or if there is none
  the first ask, is replaced by the same order with the new price and the new quantity on the same
  side; all other orders of that side and the whole other side stay. If no order has the
  identifier the result is false and the book is unchanged.\<close>

theorem modify_order_correct:
  assumes "std_sort srt" and "book_ok book"
  shows "(m_bids book = pre @ found # post \<and> (\<forall>ord\<in>set pre. ord_id ord \<noteq> i) \<and> ord_id found = i \<longrightarrow>
            (\<exists>book'. OrderBook_modify_order srt i n p book = (True, book') \<and>
               mset (m_bids book') =
                 add_mset (found\<lparr>ord_quantity := ucast n, ord_price := p\<rparr>) (mset (pre @ post)) \<and>
               m_asks book' = m_asks book)) \<and>
         ((\<forall>ord\<in>set (m_bids book). ord_id ord \<noteq> i) \<and>
          m_asks book = pre @ found # post \<and> (\<forall>ord\<in>set pre. ord_id ord \<noteq> i) \<and> ord_id found = i \<longrightarrow>
            (\<exists>book'. OrderBook_modify_order srt i n p book = (True, book') \<and>
               mset (m_asks book') =
                 add_mset (found\<lparr>ord_quantity := ucast n, ord_price := p\<rparr>) (mset (pre @ post)) \<and>
               m_bids book' = m_bids book)) \<and>
         (\<not> rests i book \<longrightarrow> OrderBook_modify_order srt i n p book = (False, book))"
proof (intro conjI impI)
  assume a: "m_bids book = pre @ found # post \<and> (\<forall>ord\<in>set pre. ord_id ord \<noteq> i) \<and> ord_id found = i"
  then have "ord_is_buy found" and "find_and_remove i (m_bids book) = Some (found, pre @ post)"
    using assms(2) by (simp_all add: book_ok_def find_and_remove_first)
  then show "\<exists>book'. OrderBook_modify_order srt i n p book = (True, book') \<and>
      mset (m_bids book') = add_mset (found\<lparr>ord_quantity := ucast n, ord_price := p\<rparr>) (mset (pre @ post)) \<and>
      m_asks book' = m_asks book"
    using std_sort.srt_perm [OF assms(1)] by (simp add: OrderBook_modify_order_def OrderBook_add_order_def)
next
  assume a: "(\<forall>ord\<in>set (m_bids book). ord_id ord \<noteq> i) \<and> m_asks book = pre @ found # post \<and>
      (\<forall>ord\<in>set pre. ord_id ord \<noteq> i) \<and> ord_id found = i"
  then have "\<not> ord_is_buy found" and "find_and_remove i (m_asks book) = Some (found, pre @ post)"
    and "find_and_remove i (m_bids book) = None"
    using assms(2) by (simp_all add: book_ok_def find_and_remove_first find_and_remove_None)
  then show "\<exists>book'. OrderBook_modify_order srt i n p book = (True, book') \<and>
      mset (m_asks book') = add_mset (found\<lparr>ord_quantity := ucast n, ord_price := p\<rparr>) (mset (pre @ post)) \<and>
      m_bids book' = m_bids book"
    using std_sort.srt_perm [OF assms(1)] by (simp add: OrderBook_modify_order_def OrderBook_add_order_def)
next
  assume "\<not> rests i book"
  then show "OrderBook_modify_order srt i n p book = (False, book)"
    by (metis modify_cases rests_def union_single_eq_member)
qed

theorem modify_order_correct_witness:
  "\<exists>pre found post book'. m_bids sample_book = pre @ found # post \<and> ord_id found = 2 \<and>
     OrderBook_modify_order insertion_sort 2 50 104 sample_book = (True, book') \<and>
     mset (m_bids book') = add_mset (found\<lparr>ord_quantity := 50, ord_price := 104\<rparr>) (mset (pre @ post)) \<and>
     m_asks book' = m_asks sample_book \<and>
     OrderBook_modify_order insertion_sort 77 50 104 sample_book = (False, sample_book)"
proof -
  have bids: "m_bids sample_book = [sample_bid 1 102 10] @ sample_bid 2 100 5 # []"
    by (simp add: sample_book_def)
  have absent: "\<not> rests 77 sample_book"
    by (auto simp: rests_def resting_def sample_book_def)
  note m = modify_order_correct [OF sample_sort sample_book_ok]
  obtain book' where "OrderBook_modify_order insertion_sort 2 50 104 sample_book = (True, book')"
    "mset (m_bids book') = add_mset ((sample_bid 2 100 5)\<lparr>ord_quantity := 50, ord_price := 104\<rparr>)
       (mset ([sample_bid 1 102 10] @ []))" "m_asks book' = m_asks sample_book"
    using conjunct1 [OF m [of "[sample_bid 1 102 10]" "sample_bid 2 100 5" "[]" 2 50 104]] bids by auto
  moreover have "OrderBook_modify_order insertion_sort 77 50 104 sample_book = (False, sample_book)"
    using m [of "[]" "sample_bid 2 100 5" "[]" 77 50 104] absent by simp
  ultimately show ?thesis
    using bids by (metis sample_sel(1))
qed

text \<open>\<^verbatim>\<open>modify_order\<close> does not match: from a well-formed uncrossed book it can produce one whose
  best bid is at or above its best ask.\<close>

theorem modify_can_cross:
  "\<exists>book. book_ok book \<and> \<not> crossed (m_bids book) (m_asks book) \<and>
     (let book' = snd (OrderBook_modify_order insertion_sort 1 10 102 book)
      in crossed (m_bids book') (m_asks book'))"
  by (intro exI [of _ "\<lparr>ob_symbol = [65], m_bids = [sample_bid 1 100 10],
                        m_asks = [sample_ask 3 101 4]\<rparr>"])
     (simp add: book_ok_def crossed_def OrderBook_modify_order_def OrderBook_add_order_def
       insertion_sort_def)

text \<open>What the getters show: in a well-formed book the best prices come first, and after a match the best
  bid is below the best ask.\<close>

theorem getters_best_first:
  assumes "book_ok book"
  shows "sorted_wrt (\<ge>) (map ord_price (OrderBook_get_bids book)) \<and>
         sorted_wrt (\<le>) (map ord_price (OrderBook_get_asks book)) \<and>
         (\<forall>b\<in>set (OrderBook_get_bids (snd (OrderBook_match book))).
            \<forall>a\<in>set (OrderBook_get_asks (snd (OrderBook_match book))). ord_price b < ord_price a)"
proof -
  obtain trades book' where m: "OrderBook_match book = (trades, book')"
    by (cases "OrderBook_match book")
  have ok: "book_ok book'" and un: "\<not> crossed (m_bids book') (m_asks book')"
    using match_book_ok [OF assms] match_loop_ordered [OF conjunct1 [OF OrderBook_match_eq [OF m]]] m by simp_all
  have "ord_price b < ord_price a" if t: "b \<in> set (m_bids book')" "a \<in> set (m_asks book')" for a b
  proof -
    obtain b0 bs a0 as where e: "m_bids book' = b0 # bs" "m_asks book' = a0 # as"
      using t by (cases "m_bids book'"; cases "m_asks book'") auto
    then have "ord_price b \<le> ord_price b0" "ord_price a0 \<le> ord_price a"
      using ok t by (auto simp: book_ok_def ordered_by_def bid_before_def ask_before_def not_less)
    moreover have "ord_price b0 < ord_price a0"
      using un e by (simp add: crossed_def not_le)
    ultimately show ?thesis by simp
  qed
  then show ?thesis
    using assms m
    by (simp add: OrderBook_get_bids_def OrderBook_get_asks_def book_ok_def ordered_by_def
        bid_before_def ask_before_def sorted_wrt_map not_less)
qed

theorem getters_best_first_witness:
  "sorted_wrt (\<ge>) (map ord_price (OrderBook_get_bids sample_book))"
  using getters_best_first [OF sample_book_ok] by simp

end
