(* ===== verification/Lockfree_Queue.thy ===== *)
theory Lockfree_Queue
  imports Gateway_Prelude
begin

text \<open>
  \<^verbatim>\<open>lockfree_queue/lockfree_queue.h\<close>: the bounded queue between the gateway's client threads and
  the matching thread, as each method behaves when it runs alone. The element type is a pointer
  type; \<^verbatim>\<open>nullptr\<close> is \<open>None\<close>. Nodes live in one array, a \<^verbatim>\<open>Node*\<close> is an index into it (\<open>None\<close> is
  null). The template parameter \<^verbatim>\<open>Size\<close> is an argument. Positions are below \<^verbatim>\<open>Size\<close>, which is
  the length of an allocated array, so they are natural numbers without wrap-around. The
  interleaving of several threads is the subject of theory \<open>Queue_Concurrency\<close>.
\<close>

section \<open>State and operations\<close>

record 'a Node =
  m_data :: "'a option"
  m_next :: "nat option"

record 'a LockFreeQueue =
  m_head :: nat
  m_tail :: nat
  m_nodes :: "'a Node list"
  m_write_pos :: nat
  m_read_pos :: nat

text \<open>The constructor: \<^verbatim>\<open>Size\<close> empty nodes, each linked to the following one, the last to null.\<close>

definition linked_nodes :: "nat \<Rightarrow> 'a Node list" where
  "linked_nodes Size =
     map (\<lambda>i. \<lparr>m_data = None, m_next = (if i < Size - 1 then Some (i + 1) else None)\<rparr>) [0..<Size]"

definition LockFreeQueue_new :: "nat \<Rightarrow> 'a LockFreeQueue" where
  "LockFreeQueue_new Size =
     \<lparr>m_head = 0, m_tail = 0, m_nodes = linked_nodes Size, m_write_pos = 0, m_read_pos = 0\<rparr>"

definition store_data :: "nat \<Rightarrow> 'a option \<Rightarrow> 'a LockFreeQueue \<Rightarrow> 'a LockFreeQueue" where
  "store_data node item q = q\<lparr>m_nodes := (m_nodes q)[node := (m_nodes q ! node)\<lparr>m_data := item\<rparr>]\<rparr>"

definition LockFreeQueue_push ::
    "nat \<Rightarrow> 'a option \<Rightarrow> 'a LockFreeQueue \<Rightarrow> bool \<times> 'a LockFreeQueue" where
  "LockFreeQueue_push Size item q =
     (let current_write = m_write_pos q; current_read = m_read_pos q in
      if (current_write + 1) mod Size = current_read then (False, q)
      else let tail = m_tail q; q1 = store_data tail item q in
           case m_next (m_nodes q1 ! tail) of
             Some next \<Rightarrow>
               (True, q1\<lparr>m_tail := next, m_write_pos := (current_write + 1) mod Size\<rparr>)
           | None \<Rightarrow> (False, q1))"

definition LockFreeQueue_pop ::
    "nat \<Rightarrow> 'a LockFreeQueue \<Rightarrow> 'a option \<times> 'a LockFreeQueue" where
  "LockFreeQueue_pop Size q =
     (let head = m_head q in
      case m_data (m_nodes q ! head) of
        None \<Rightarrow> (None, q)
      | Some data \<Rightarrow>
          (case m_next (m_nodes q ! head) of
             None \<Rightarrow> (None, q)
           | Some next \<Rightarrow>
               (let q1 = (store_data head None q)\<lparr>m_head := next\<rparr>;
                    current_read = m_read_pos q1
                in (Some data, q1\<lparr>m_read_pos := (current_read + 1) mod Size\<rparr>))))"

definition LockFreeQueue_size :: "nat \<Rightarrow> 'a LockFreeQueue \<Rightarrow> nat" where
  "LockFreeQueue_size Size q =
     (let w = m_write_pos q; r = m_read_pos q in if r \<le> w then w - r else Size - (r - w))"

definition LockFreeQueue_empty :: "'a LockFreeQueue \<Rightarrow> bool" where
  "LockFreeQueue_empty q = (m_write_pos q = m_read_pos q)"

text \<open>
  The destructor pops until it gets null and deletes each element; the result is the list of
  deleted pointers in order. Whether the loop ends is to be proved, so it may return \<open>None\<close>.
\<close>

partial_function (option) LockFreeQueue_destroy ::
    "nat \<Rightarrow> 'a list \<Rightarrow> 'a LockFreeQueue \<Rightarrow> ('a list \<times> 'a LockFreeQueue) option" where
  "LockFreeQueue_destroy Size deleted q =
     (case LockFreeQueue_pop Size q of
        (None, q') \<Rightarrow> Some (deleted, q')
      | (Some data, q') \<Rightarrow> LockFreeQueue_destroy Size (deleted @ [data]) q')"

section \<open>The queue interface\<close>

text \<open>
  What a client relies on: a list of items, appended to by an accepted push and consumed from
  the front by a pop. A client is a sequence of pushes and pops.
\<close>

datatype 'a queue_op = Push 'a | Pop

fun run_queue ::
    "('a \<Rightarrow> 'q \<Rightarrow> bool \<times> 'q) \<Rightarrow> ('q \<Rightarrow> 'a option \<times> 'q) \<Rightarrow> 'a queue_op list \<Rightarrow> 'q \<Rightarrow>
     'a list \<times> 'a list \<times> 'q" where
  "run_queue push pop [] q = ([], [], q)"
| "run_queue push pop (Push x # ops) q =
     (case push x q of (ok, q1) \<Rightarrow>
        (case run_queue push pop ops q1 of (accepted, popped, q2) \<Rightarrow>
           ((if ok then [x] else []) @ accepted, popped, q2)))"
| "run_queue push pop (Pop # ops) q =
     (case pop q of (r, q1) \<Rightarrow>
        (case run_queue push pop ops q1 of (accepted, popped, q2) \<Rightarrow>
           (accepted, (case r of None \<Rightarrow> [] | Some x \<Rightarrow> [x]) @ popped, q2)))"

fun pushed :: "'a queue_op list \<Rightarrow> 'a list" where
  "pushed [] = []"
| "pushed (Push x # ops) = x # pushed ops"
| "pushed (Pop # ops) = pushed ops"

locale fifo_queue =
  fixes push :: "'a \<Rightarrow> 'q \<Rightarrow> bool \<times> 'q"
    and pop :: "'q \<Rightarrow> 'a option \<times> 'q"
    and items :: "'q \<Rightarrow> 'a list"
    and inv :: "'q \<Rightarrow> bool"
  assumes push_inv: "inv q \<Longrightarrow> inv (snd (push x q))"
    and push_items: "inv q \<Longrightarrow>
      items (snd (push x q)) = items q @ (if fst (push x q) then [x] else [])"
    and pop_inv: "inv q \<Longrightarrow> inv (snd (pop q))"
    and pop_items: "inv q \<Longrightarrow>
      items q = (case fst (pop q) of None \<Rightarrow> [] | Some x \<Rightarrow> [x]) @ items (snd (pop q))"
    and pop_None: "inv q \<Longrightarrow> fst (pop q) = None \<Longrightarrow> items q = []"
begin

lemma pop_empty: "inv q \<Longrightarrow> items q = [] \<Longrightarrow> fst (pop q) = None \<and> items (snd (pop q)) = []"
  using pop_items [of q] by (cases "fst (pop q)") auto

lemma pop_nonempty:
  assumes "inv q" and "items q = x # xs"
  shows "fst (pop q) = Some x \<and> items (snd (pop q)) = xs"
  using pop_items [OF assms(1)] pop_None [OF assms(1)] assms(2)
  by (cases "fst (pop q)") auto

text \<open>First in, first out: what is popped is what was there and what was accepted, in order.\<close>

lemma run_fifo:
  "inv q \<Longrightarrow> run_queue push pop ops q = (accepted, popped, q') \<Longrightarrow>
   inv q' \<and> items q @ accepted = popped @ items q'"
proof (induction ops arbitrary: q accepted popped)
  case Nil
  then show ?case by simp
next
  case (Cons op ops)
  show ?case
  proof (cases op)
    case (Push x)
    obtain ok q1 where p: "push x q = (ok, q1)" by (cases "push x q")
    obtain a r q2 where t: "run_queue push pop ops q1 = (a, r, q2)"
      by (cases "run_queue push pop ops q1")
    then show ?thesis
      using Cons.IH [of q1 a r] Cons.prems Push p push_inv [of q x] push_items [of q x] by auto
  next
    case Pop
    obtain r q1 where p: "pop q = (r, q1)" by (cases "pop q")
    obtain a out q2 where t: "run_queue push pop ops q1 = (a, out, q2)"
      by (cases "run_queue push pop ops q1")
    then show ?thesis
      using Cons.IH [of q1 a out] Cons.prems Pop p pop_inv [of q] pop_items [of q] by auto
  qed
qed

end

text \<open>
  A queue whose pushes use up a budget that pops do not restore: it accepts the first
  \<open>cap\<close> elements of its life and no other.
\<close>

locale finite_life_queue = fifo_queue push pop items inv
  for push :: "'a \<Rightarrow> 'q \<Rightarrow> bool \<times> 'q"
    and pop :: "'q \<Rightarrow> 'a option \<times> 'q"
    and items :: "'q \<Rightarrow> 'a list"
    and inv :: "'q \<Rightarrow> bool" +
  fixes used :: "'q \<Rightarrow> nat" and cap :: nat
  assumes push_accepts: "inv q \<Longrightarrow> fst (push x q) \<longleftrightarrow> used q < cap"
    and push_used: "inv q \<Longrightarrow> used (snd (push x q)) = (if fst (push x q) then Suc (used q) else used q)"
    and pop_used: "inv q \<Longrightarrow> used (snd (pop q)) = used q"
begin

lemma run_accepts:
  "inv q \<Longrightarrow> run_queue push pop ops q = (accepted, popped, q') \<Longrightarrow>
   accepted = take (cap - used q) (pushed ops) \<and> used q' = used q + length accepted"
proof (induction ops arbitrary: q accepted popped)
  case Nil
  then show ?case by simp
next
  case (Cons op ops)
  show ?case
  proof (cases op)
    case (Push x)
    obtain ok q1 where p: "push x q = (ok, q1)" by (cases "push x q")
    obtain a r q2 where t: "run_queue push pop ops q1 = (a, r, q2)"
      by (cases "run_queue push pop ops q1")
    have "ok \<longleftrightarrow> used q < cap" and "used q1 = (if ok then Suc (used q) else used q)" and "inv q1"
      using push_accepts [of q x] push_used [of q x] push_inv [of q x] Cons.prems p by auto
    moreover from this have "cap - used q = (if ok then Suc (cap - used q1) else 0)"
      by auto
    ultimately show ?thesis
      using Cons.IH [of q1 a r] Cons.prems Push p t by auto
  next
    case Pop
    obtain r q1 where p: "pop q = (r, q1)" by (cases "pop q")
    obtain a out q2 where t: "run_queue push pop ops q1 = (a, out, q2)"
      by (cases "run_queue push pop ops q1")
    then show ?thesis
      using Cons.IH [of q1 a out] Cons.prems Pop p pop_inv [of q] pop_used [of q] by auto
  qed
qed

end

section \<open>The invariant of the node array\<close>

text \<open>
  The links never change, so head and tail only move right: the cells before the head are
  empty again, those from head to tail hold the pending items, the tail cell is empty. A push
  at the last node stores its item before it finds no successor, so the last cell may hold a
  stale item. The positions are the head and the tail.
\<close>

definition queue_inv :: "nat \<Rightarrow> 'a LockFreeQueue \<Rightarrow> bool" where
  "queue_inv Size q \<longleftrightarrow>
     length (m_nodes q) = Size \<and> m_head q \<le> m_tail q \<and> m_tail q < Size \<and>
     m_write_pos q = m_tail q \<and> m_read_pos q = m_head q \<and>
     (\<forall>i<Size. m_next (m_nodes q ! i) = (if Suc i < Size then Some (Suc i) else None)) \<and>
     (\<forall>i<Size. i < m_head q \<or> m_tail q < i \<longrightarrow> m_data (m_nodes q ! i) = None) \<and>
     (\<forall>i<m_tail q. m_head q \<le> i \<longrightarrow> m_data (m_nodes q ! i) \<noteq> None) \<and>
     (Suc (m_tail q) < Size \<longrightarrow> m_data (m_nodes q ! m_tail q) = None)"

definition contents :: "'a LockFreeQueue \<Rightarrow> 'a list" where
  "contents q = map (\<lambda>i. the (m_data (m_nodes q ! i))) [m_head q..<m_tail q]"

lemma m_nodes_store_data [simp]:
  "m_nodes (store_data n x q) = (m_nodes q)[n := (m_nodes q ! n)\<lparr>m_data := x\<rparr>]"
  "m_head (store_data n x q) = m_head q" "m_tail (store_data n x q) = m_tail q"
  "m_write_pos (store_data n x q) = m_write_pos q" "m_read_pos (store_data n x q) = m_read_pos q"
  by (simp_all add: store_data_def)

lemma m_next_store [simp]:
  "m_next ((ns[n := (ns ! n)\<lparr>m_data := x\<rparr>]) ! i) = m_next (ns ! i)"
  by (cases "n < length ns") (auto simp: nth_list_update list_update_beyond)

lemma m_data_store:
  "n < length ns \<Longrightarrow>
   m_data ((ns[n := (ns ! n)\<lparr>m_data := x\<rparr>]) ! i) = (if i = n then x else m_data (ns ! i))"
  by (auto simp: nth_list_update)

lemma queue_inv_new: "0 < Size \<Longrightarrow> queue_inv Size (LockFreeQueue_new Size)"
  by (auto simp: queue_inv_def LockFreeQueue_new_def linked_nodes_def)

lemma contents_new [simp]: "contents (LockFreeQueue_new Size) = []"
  and m_tail_new [simp]: "m_tail (LockFreeQueue_new Size) = 0"
  by (simp_all add: contents_def LockFreeQueue_new_def)

text \<open>A push succeeds exactly while the tail has a successor.\<close>

lemma push_shape:
  assumes "queue_inv Size q"
  shows "LockFreeQueue_push Size item q =
           (if Suc (m_tail q) < Size
            then (True, (store_data (m_tail q) item q)
                          \<lparr>m_tail := Suc (m_tail q), m_write_pos := Suc (m_tail q)\<rparr>)
            else (False, if m_head q = 0 then q else store_data (m_tail q) item q))"
proof (cases "Suc (m_tail q) < Size")
  case True
  then have "Suc (m_tail q) mod Size = Suc (m_tail q)" by simp
  then show ?thesis
    using assms True by (simp add: LockFreeQueue_push_def queue_inv_def Let_def)
next
  case False
  then have Size: "Size = Suc (m_tail q)"
    using assms by (simp add: queue_inv_def)
  have "m_next (m_nodes q ! m_tail q) = None"
    and "m_write_pos q = m_tail q" and "m_read_pos q = m_head q"
    using assms Size by (simp_all add: queue_inv_def)
  then show ?thesis
    by (simp add: LockFreeQueue_push_def Let_def Size)
qed

lemma pop_shape:
  assumes "queue_inv Size q"
  shows "LockFreeQueue_pop Size q =
           (if m_head q < m_tail q
            then (m_data (m_nodes q ! m_head q),
                  (store_data (m_head q) None q)
                    \<lparr>m_head := Suc (m_head q), m_read_pos := Suc (m_head q)\<rparr>)
            else (None, q))"
proof (cases "m_head q < m_tail q")
  case True
  moreover from this obtain x where "m_data (m_nodes q ! m_head q) = Some x"
    using assms by (auto simp: queue_inv_def)
  ultimately show ?thesis
    using assms by (simp add: LockFreeQueue_pop_def queue_inv_def Let_def)
next
  case False
  then have "m_head q = m_tail q"
    using assms by (simp add: queue_inv_def)
  then show ?thesis
    using assms by (auto simp: LockFreeQueue_pop_def queue_inv_def Let_def split: option.splits)
qed

lemma push_preserves:
  assumes "queue_inv Size q"
  shows "queue_inv Size (snd (LockFreeQueue_push Size (Some x) q))"
  using assms unfolding push_shape [OF assms]
  by (auto simp: queue_inv_def m_data_store less_Suc_eq)

lemma pop_preserves:
  assumes "queue_inv Size q"
  shows "queue_inv Size (snd (LockFreeQueue_pop Size q))"
  using assms unfolding pop_shape [OF assms]
  by (auto simp: queue_inv_def m_data_store Suc_le_eq le_neq_implies_less)

lemma push_contents:
  assumes "queue_inv Size q"
  shows "contents (snd (LockFreeQueue_push Size (Some x) q)) =
         contents q @ (if fst (LockFreeQueue_push Size (Some x) q) then [x] else [])"
  using assms unfolding push_shape [OF assms]
  by (auto simp: contents_def queue_inv_def m_data_store)

lemma pop_contents:
  assumes "queue_inv Size q"
  shows "contents q =
         (case fst (LockFreeQueue_pop Size q) of None \<Rightarrow> [] | Some x \<Rightarrow> [x]) @
         contents (snd (LockFreeQueue_pop Size q))"
proof (cases "m_head q < m_tail q")
  case True
  moreover from this obtain x where "m_data (m_nodes q ! m_head q) = Some x"
    using assms by (auto simp: queue_inv_def)
  ultimately show ?thesis
    using assms unfolding pop_shape [OF assms]
    by (auto simp: contents_def queue_inv_def m_data_store upt_conv_Cons)
next
  case False
  then show ?thesis
    by (simp add: pop_shape [OF assms] contents_def)
qed

lemma pop_None_contents:
  assumes "queue_inv Size q" and "fst (LockFreeQueue_pop Size q) = None"
  shows "contents q = []"
proof -
  have "\<not> m_head q < m_tail q"
    using assms unfolding pop_shape [OF assms(1)] by (auto simp: queue_inv_def split: if_splits)
  then show ?thesis by (simp add: contents_def)
qed

interpretation lfq: finite_life_queue
  "\<lambda>x. LockFreeQueue_push Size (Some x)" "LockFreeQueue_pop Size" contents "queue_inv Size"
  m_tail "Size - 1" for Size
proof
  show "queue_inv Size q \<Longrightarrow> queue_inv Size (snd (LockFreeQueue_push Size (Some x) q))" for q x
    by (rule push_preserves)
  show "queue_inv Size q \<Longrightarrow> queue_inv Size (snd (LockFreeQueue_pop Size q))" for q
    by (rule pop_preserves)
  show "queue_inv Size q \<Longrightarrow>
    contents (snd (LockFreeQueue_push Size (Some x) q)) =
    contents q @ (if fst (LockFreeQueue_push Size (Some x) q) then [x] else [])" for q x
    by (rule push_contents)
  show "queue_inv Size q \<Longrightarrow>
    contents q = (case fst (LockFreeQueue_pop Size q) of None \<Rightarrow> [] | Some x \<Rightarrow> [x]) @
      contents (snd (LockFreeQueue_pop Size q))" for q
    by (rule pop_contents)
  show "queue_inv Size q \<Longrightarrow> fst (LockFreeQueue_pop Size q) = None \<Longrightarrow> contents q = []" for q
    by (rule pop_None_contents)
qed (simp_all add: push_shape pop_shape, auto)

section \<open>Functional behaviour\<close>

lemma destroy_contents:
  "queue_inv Size q \<Longrightarrow>
   \<exists>q'. LockFreeQueue_destroy Size deleted q = Some (deleted @ contents q, q') \<and>
        queue_inv Size q' \<and> contents q' = []"
proof (induction "contents q" arbitrary: q deleted)
  case Nil
  then have "fst (LockFreeQueue_pop Size q) = None" and "contents (snd (LockFreeQueue_pop Size q)) = []"
    using lfq.pop_empty [of Size q] by simp_all
  moreover have "queue_inv Size (snd (LockFreeQueue_pop Size q))"
    using Nil by (intro pop_preserves)
  ultimately show ?case
    using Nil by (subst LockFreeQueue_destroy.simps) (auto split: prod.split)
next
  case (Cons x xs)
  then obtain q1 where p: "LockFreeQueue_pop Size q = (Some x, q1)" "contents q1 = xs"
    using lfq.pop_nonempty [of Size q x xs] by (metis prod.collapse)
  moreover have "queue_inv Size q1"
    using pop_preserves [OF Cons.prems] p by simp
  ultimately show ?case
    using Cons.hyps(1) [of q1 "deleted @ [x]"] Cons.hyps(2)
    by (subst LockFreeQueue_destroy.simps) (metis (no_types, lifting) append.assoc append_Cons
        append_Nil case_prod_conv option.simps(5))
qed

text \<open>C15: the queue is first in, first out over its whole life, and its life is bounded. In any
  sequence of pushes and pops on a new queue the pushes that return true are those of the first
  \<^verbatim>\<open>Size - 1\<close> elements, whatever was popped in between, and the elements popped are these in
  the order of their pushes.\<close>

theorem queue_lifetime:
  assumes "0 < Size"
    and "run_queue (\<lambda>x. LockFreeQueue_push Size (Some x)) (LockFreeQueue_pop Size) ops
           (LockFreeQueue_new Size) = (accepted, popped, q)"
  shows "accepted = take (Size - 1) (pushed ops) \<and> accepted = popped @ contents q"
  using lfq.run_fifo [OF queue_inv_new [OF assms(1)] assms(2)]
    lfq.run_accepts [OF queue_inv_new [OF assms(1)] assms(2)]
  by simp

theorem queue_lifetime_witness:
  "\<exists>q. run_queue (\<lambda>x. LockFreeQueue_push 3 (Some x)) (LockFreeQueue_pop 3)
         [Push 10, Pop, Push 20, Pop, Pop, Push (30::nat), Push 40] (LockFreeQueue_new 3) =
       ([10, 20], [10, 20], q)"
proof -
  obtain accepted popped q where run:
    "run_queue (\<lambda>x. LockFreeQueue_push 3 (Some x)) (LockFreeQueue_pop 3)
       [Push 10, Pop, Push 20, Pop, Pop, Push (30::nat), Push 40] (LockFreeQueue_new 3) =
     (accepted, popped, q)"
    by (metis prod_cases3)
  have "accepted = [10, 20]" and "accepted = popped @ contents q"
    using queue_lifetime [OF _ run] by auto
  moreover have "fst (snd (run_queue (\<lambda>x. LockFreeQueue_push 3 (Some x)) (LockFreeQueue_pop 3)
       [Push 10, Pop, Push 20, Pop, Pop, Push (30::nat), Push 40] (LockFreeQueue_new 3))) = [10, 20]"
    by code_simp
  ultimately show ?thesis
    using run by auto
qed

text \<open>Once \<^verbatim>\<open>Size - 1\<close> elements have been accepted the queue refuses every further one, for
  ever, even when it has been emptied: no sequence of pushes and pops makes it accept again.\<close>

theorem queue_exhausted_for_ever:
  assumes "queue_inv Size q" and "m_tail q = Size - 1"
    and "run_queue (\<lambda>x. LockFreeQueue_push Size (Some x)) (LockFreeQueue_pop Size) ops q =
         (accepted, popped, q')"
  shows "accepted = [] \<and> contents q = popped @ contents q'"
  using lfq.run_fifo [OF assms(1,3)] lfq.run_accepts [OF assms(1,3)] assms(2) by simp

theorem queue_exhausted_for_ever_witness:
  "fst (run_queue (\<lambda>x. LockFreeQueue_push 2 (Some x)) (LockFreeQueue_pop 2)
          [Push 20, Pop, Push (30::nat)]
          (snd (LockFreeQueue_pop 2 (snd (LockFreeQueue_push 2 (Some 10) (LockFreeQueue_new 2)))))) =
   []"
proof -
  let ?q = "snd (LockFreeQueue_pop 2 (snd (LockFreeQueue_push 2 (Some (10::nat)) (LockFreeQueue_new 2))))"
  have "queue_inv 2 ?q"
    by (intro pop_preserves push_preserves queue_inv_new) simp
  moreover have "m_tail ?q = 2 - 1"
    by (simp add: LockFreeQueue_push_def LockFreeQueue_pop_def LockFreeQueue_new_def
        linked_nodes_def store_data_def upt_rec numeral_2_eq_2)
  ultimately show ?thesis
    using queue_exhausted_for_ever [of 2 ?q "[Push 20, Pop, Push 30]"] by (metis prod_cases3 fst_conv)
qed

text \<open>\<^verbatim>\<open>size\<close>, \<^verbatim>\<open>empty\<close> and the destructor agree with the contents: the size is the number of
  pending elements and below \<^verbatim>\<open>Size\<close>, \<^verbatim>\<open>empty\<close> holds exactly when there is none, and the
  destructor's loop ends, having deleted exactly the pending elements once each, in order (not
  the stale pointer a refused push may have left in the last node).\<close>

theorem queue_observers:
  assumes "queue_inv Size q"
  shows "LockFreeQueue_size Size q = length (contents q) \<and> length (contents q) < Size \<and>
         (LockFreeQueue_empty q \<longleftrightarrow> contents q = []) \<and>
         (\<exists>q'. LockFreeQueue_destroy Size [] q = Some (contents q, q'))"
  using assms destroy_contents [OF assms, of "[]"]
  by (auto simp: LockFreeQueue_size_def LockFreeQueue_empty_def contents_def queue_inv_def)

theorem queue_observers_witness:
  "LockFreeQueue_size 4 (snd (LockFreeQueue_push 4 (Some (7::nat)) (LockFreeQueue_new 4))) = 1 \<and>
   (\<exists>q'. LockFreeQueue_destroy 4 []
      (snd (LockFreeQueue_push 4 (Some (7::nat)) (LockFreeQueue_new 4))) = Some ([7], q'))"
proof -
  let ?q = "snd (LockFreeQueue_push 4 (Some (7::nat)) (LockFreeQueue_new 4))"
  have i: "queue_inv 4 (LockFreeQueue_new 4)" by (rule queue_inv_new) simp
  have "contents ?q = [7]"
    using push_contents [OF i, of "7::nat"] push_shape [OF i, of "Some (7::nat)"]
    by (simp add: LockFreeQueue_new_def contents_def)
  then show ?thesis
    using queue_observers [OF push_preserves [OF i, of "7::nat"]] by simp
qed

end
