(* ===== verification/Statsd_Client.thy ===== *)
theory Statsd_Client
  imports Gateway_Prelude
begin

text \<open>
  \<^verbatim>\<open>network/statsd_client.h\<close> and \<^verbatim>\<open>network/statsd_client.cpp\<close>: the metrics client of the matching
  engine. The socket layer is an argument: what \<^verbatim>\<open>socket\<close> returned and what \<^verbatim>\<open>inet_pton\<close> makes of
  the host. The datagrams handed to \<^verbatim>\<open>sendto\<close> are the result.
\<close>

section \<open>State and operations\<close>

record StatsDClient =
  sd_host :: string
  sd_port :: u16
  sd_sock :: fd

record Datagram =
  dg_addr :: u32
  dg_port :: u16
  dg_text :: string

definition StatsDClient_new :: "string \<Rightarrow> u16 \<Rightarrow> fd \<Rightarrow> StatsDClient" where
  "StatsDClient_new host port socket_result =
     \<lparr>sd_host = host, sd_port = port, sd_sock = socket_result\<rparr>"

text \<open>The destructor: the descriptors it closes.\<close>

definition StatsDClient_destroy :: "StatsDClient \<Rightarrow> fd list" where
  "StatsDClient_destroy c = (if sd_sock c \<noteq> -1 then [sd_sock c] else [])"

definition StatsDClient_send_message ::
    "(string \<Rightarrow> u32 option) \<Rightarrow> StatsDClient \<Rightarrow> string \<Rightarrow> Datagram list" where
  "StatsDClient_send_message inet_pton c message =
     (if sd_sock c = -1 then []
      else [\<lparr>dg_addr = (case inet_pton (sd_host c) of Some a \<Rightarrow> a | None \<Rightarrow> 0),
             dg_port = sd_port c, dg_text = message\<rparr>])"

definition StatsDClient_timing ::
    "(string \<Rightarrow> u32 option) \<Rightarrow> StatsDClient \<Rightarrow> string \<Rightarrow> u64 \<Rightarrow> Datagram list" where
  "StatsDClient_timing inet_pton c key val =
     StatsDClient_send_message inet_pton c (key @ '':'' @ to_string val @ ''|ms'')"

definition StatsDClient_increment ::
    "(string \<Rightarrow> u32 option) \<Rightarrow> StatsDClient \<Rightarrow> string \<Rightarrow> Datagram list" where
  "StatsDClient_increment inet_pton c key =
     StatsDClient_send_message inet_pton c (key @ '':1|c'')"

section \<open>Reading a line back\<close>

text \<open>A collector splits a line at the first colon and reads digits up to the bar.\<close>

definition line_key :: "string \<Rightarrow> string" where
  "line_key s = takeWhile (\<lambda>c. c \<noteq> CHR '':'') s"

definition line_value :: "string \<Rightarrow> nat" where
  "line_value s = decimal_value (takeWhile is_digit (drop (Suc (length (line_key s))) s))"

text \<open>A metric is one datagram to the configured host and port, or none when the socket could
  not be created; a collector that splits the line at the colon reads back the key and the
  value that was given, for every 64-bit value.\<close>

theorem statsd_timing_readable:
  assumes "CHR '':'' \<notin> set key"
  shows "if sd_sock c = -1 then StatsDClient_timing inet_pton c key val = []
         else \<exists>d. StatsDClient_timing inet_pton c key val = [d] \<and> dg_port d = sd_port c \<and>
                line_key (dg_text d) = key \<and> line_value (dg_text d) = unat val"
proof -
  let ?line = "key @ '':'' @ to_string val @ ''|ms''"
  have k: "line_key ?line = key"
    using assms by (auto simp: line_key_def takeWhile_append)
  have "takeWhile is_digit (to_string val @ ''|ms'') = to_string val"
    using decimal_digits [of "unat val"]
    by (simp add: takeWhile_append2 to_string_def is_digit_def)
  then have "line_value ?line = unat val"
    using k by (simp add: line_value_def to_string_def decimal_value_decimal)
  then show ?thesis
    using k by (simp add: StatsDClient_timing_def StatsDClient_send_message_def)
qed

theorem statsd_timing_readable_witness:
  "\<exists>d. StatsDClient_timing (\<lambda>_. None) (StatsDClient_new ''127.0.0.1'' 8125 4)
         ''engine.process_latency_us'' 1234 = [d] \<and> line_value (dg_text d) = 1234"
  using statsd_timing_readable [of "''engine.process_latency_us''"
      "StatsDClient_new ''127.0.0.1'' 8125 4" "\<lambda>_. None" 1234]
  by (auto simp: StatsDClient_new_def)

end
