(* ===== verification/Matching_Engine.thy ===== *)
theory Matching_Engine
  imports Order_Book Lockfree_Queue Statsd_Client
begin

text \<open>
  \<^verbatim>\<open>matching_engine/matching_engine.h\<close> and \<^verbatim>\<open>matching_engine/matching_engine.cpp\<close>: the engine that
  owns the books. Client threads call \<open>add_order\<close>, \<open>cancel_order\<close> and \<open>modify_order\<close>, which
  allocate a command with \<^verbatim>\<open>new\<close> and push its address; the worker thread pops addresses,
  applies the commands and deletes them. The heap is part of the state, so that use after free,
  double free and leaks can be stated. Methods run one at a time here; the interleaving of their
  atomic steps is in \<open>Queue_Concurrency\<close>. The size of the order queue is an argument, 10000 in
  the code. Whether \<^verbatim>\<open>new\<close> throws and how long a step took are inputs.
\<close>

section \<open>The heap of commands\<close>

text \<open>An address is an index; a freed cell stays \<open>None\<close> and is not handed out again.\<close>

type_synonym heap = "Order option list"

definition heap_new :: "Order \<Rightarrow> heap \<Rightarrow> nat \<times> heap" where
  "heap_new ord h = (length h, h @ [Some ord])"

definition heap_get :: "nat \<Rightarrow> heap \<Rightarrow> Order outcome" where
  "heap_get a h =
     (if a < length h then (case h ! a of Some ord \<Rightarrow> Inr ord | None \<Rightarrow> Inl UseAfterFree)
      else Inl UseAfterFree)"

definition heap_free :: "nat \<Rightarrow> heap \<Rightarrow> heap outcome" where
  "heap_free a h =
     (if a < length h \<and> h ! a \<noteq> None then Inr (h[a := None]) else Inl DoubleFree)"

section \<open>State and operations\<close>

type_synonym books = "bytes \<rightharpoonup> OrderBook"
type_synonym symbols = "u64 \<rightharpoonup> bytes"

record MatchingEngine =
  me_running :: bool
  me_worker_thread :: bool
  me_order_queue :: "nat LockFreeQueue"
  me_free_list :: "nat LockFreeQueue"
  me_order_books :: books
  me_order_id_to_symbol :: symbols
  me_trade_callback :: bool
  me_statsd :: StatsDClient
  me_heap :: heap

definition order_queue_size :: nat where
  "order_queue_size = 10000"

text \<open>\<^verbatim>\<open>operator new\<close> throws; the message of the exception is what \<^verbatim>\<open>what()\<close> returns.\<close>

datatype exn = BadAlloc

definition exn_what :: "exn \<Rightarrow> string" where
  "exn_what e = (case e of BadAlloc \<Rightarrow> ''std::bad_alloc'')"

definition MatchingEngine_new :: "nat \<Rightarrow> fd \<Rightarrow> MatchingEngine" where
  "MatchingEngine_new N socket_result =
     \<lparr>me_running = False, me_worker_thread = False, me_order_queue = LockFreeQueue_new N,
      me_free_list = LockFreeQueue_new N, me_order_books = Map.empty,
      me_order_id_to_symbol = Map.empty, me_trade_callback = False,
      me_statsd = StatsDClient_new ''127.0.0.1'' 8125 socket_result, me_heap = []\<rparr>"

definition MatchingEngine_start :: "bool \<Rightarrow> MatchingEngine \<Rightarrow> start_result \<times> MatchingEngine" where
  "MatchingEngine_start thread_ok e =
     (if me_running e then (StartError ''MatchingEngine already started'', e)
      else let e1 = e\<lparr>me_running := True\<rparr>
           in if thread_ok then (Started, e1\<lparr>me_worker_thread := True\<rparr>) else (StartThrows, e1))"

definition MatchingEngine_stop :: "MatchingEngine \<Rightarrow> MatchingEngine" where
  "MatchingEngine_stop e =
     (let e1 = e\<lparr>me_running := False\<rparr>
      in if me_worker_thread e1 then e1\<lparr>me_worker_thread := False\<rparr> else e1)"

definition MatchingEngine_set_trade_callback :: "bool \<Rightarrow> MatchingEngine \<Rightarrow> MatchingEngine" where
  "MatchingEngine_set_trade_callback callback e = e\<lparr>me_trade_callback := callback\<rparr>"

text \<open>
  The common end of the three requests: push the new command; if the queue refuses it, delete
  it again. The flag says whether it was accepted.
\<close>

definition push_command :: "nat \<Rightarrow> Order \<Rightarrow> MatchingEngine \<Rightarrow> (bool \<times> MatchingEngine) outcome" where
  "push_command N cmd e =
     (case heap_new cmd (me_heap e) of (a, h) \<Rightarrow>
        (case LockFreeQueue_push N (Some a) (me_order_queue e) of
           (True, q) \<Rightarrow> Inr (True, e\<lparr>me_heap := h, me_order_queue := q\<rparr>)
         | (False, q) \<Rightarrow> (case heap_free a h of
              Inl f \<Rightarrow> Inl f
            | Inr h' \<Rightarrow> Inr (False, e\<lparr>me_heap := h', me_order_queue := q\<rparr>))))"

definition MatchingEngine_add_order ::
    "nat \<Rightarrow> bool \<Rightarrow> Order \<Rightarrow> MatchingEngine \<Rightarrow> (exn + MatchingEngine) outcome" where
  "MatchingEngine_add_order N oom order e =
     (if oom then Inr (Inl BadAlloc)
      else map_sum id (\<lambda>(accepted, e'). Inr e') (push_command N order e))"

definition MatchingEngine_cancel_order ::
    "nat \<Rightarrow> bool \<Rightarrow> Order \<Rightarrow> u64 \<Rightarrow> MatchingEngine \<Rightarrow> (exn + bool \<times> MatchingEngine) outcome" where
  "MatchingEngine_cancel_order N oom junk order_id e =
     (if oom then Inr (Inl BadAlloc)
      else let cmd = (Order_default junk)\<lparr>ord_id := order_id, ord_command := CANCEL\<rparr>
           in map_sum id Inr (push_command N cmd e))"

definition MatchingEngine_modify_order ::
    "nat \<Rightarrow> bool \<Rightarrow> Order \<Rightarrow> u64 \<Rightarrow> u32 \<Rightarrow> u64 \<Rightarrow> MatchingEngine \<Rightarrow>
     (exn + bool \<times> MatchingEngine) outcome" where
  "MatchingEngine_modify_order N oom junk order_id new_quantity new_price e =
     (if oom then Inr (Inl BadAlloc)
      else let cmd = (Order_default junk)\<lparr>ord_id := order_id, ord_quantity := ucast new_quantity,
                        ord_price := new_price, ord_command := MODIFY\<rparr>
           in map_sum id Inr (push_command N cmd e))"

text \<open>
  The three branches of the worker's loop body, on the books and the identifier index. The
  result has the trades of the match.
\<close>

definition apply_add ::
    "order_sort \<Rightarrow> Order \<Rightarrow> books \<Rightarrow> symbols \<Rightarrow> (books \<times> symbols \<times> Trade list) outcome" where
  "apply_add srt order books ids =
     (case cstr (ord_symbol order) of
        Inl f \<Rightarrow> Inl f
      | Inr symbol \<Rightarrow>
          (let ids = ids(ord_id order \<mapsto> symbol);
               book = (case books symbol of Some book \<Rightarrow> book | None \<Rightarrow> OrderBook_new symbol);
               book = OrderBook_add_order srt order book
           in case OrderBook_match book of
                (trades, book) \<Rightarrow> Inr (books(symbol \<mapsto> book), ids, trades)))"

definition apply_cancel :: "Order \<Rightarrow> books \<Rightarrow> symbols \<Rightarrow> books \<times> symbols" where
  "apply_cancel order books ids =
     (case ids (ord_id order) of
        None \<Rightarrow> (books, ids)
      | Some symbol \<Rightarrow>
          ((case books symbol of
              Some book \<Rightarrow> books(symbol \<mapsto> snd (OrderBook_cancel_order (ord_id order) book))
            | None \<Rightarrow> books),
           ids(ord_id order := None)))"

definition apply_modify :: "order_sort \<Rightarrow> Order \<Rightarrow> books \<Rightarrow> symbols \<Rightarrow> books \<times> symbols" where
  "apply_modify srt order books ids =
     (case ids (ord_id order) of
        None \<Rightarrow> (books, ids)
      | Some symbol \<Rightarrow>
          ((case books symbol of
              Some book \<Rightarrow>
                books(symbol \<mapsto> snd (OrderBook_modify_order srt (ord_id order)
                                       (ucast (ord_quantity order)) (ord_price order) book))
            | None \<Rightarrow> books),
           ids))"

definition apply_command ::
    "order_sort \<Rightarrow> Order \<Rightarrow> books \<Rightarrow> symbols \<Rightarrow> (books \<times> symbols \<times> Trade list) outcome" where
  "apply_command srt order books ids =
     (case ord_command order of
        ADD \<Rightarrow> apply_add srt order books ids
      | CANCEL \<Rightarrow> (case apply_cancel order books ids of (books, ids) \<Rightarrow> Inr (books, ids, []))
      | MODIFY \<Rightarrow> (case apply_modify srt order books ids of (books, ids) \<Rightarrow> Inr (books, ids, [])))"

record Iteration =
  it_engine :: MatchingEngine
  it_callbacks :: "Trade list"
  it_metrics :: "Datagram list"

text \<open>
  One turn of \<^verbatim>\<open>process_orders\<close>: the new state, the trades handed to the callback in order, and
  the metrics sent. \<open>duration_us\<close> is the time between the two readings of the clock.
\<close>

definition process_iteration ::
    "nat \<Rightarrow> order_sort \<Rightarrow> (string \<Rightarrow> u32 option) \<Rightarrow> u64 \<Rightarrow> MatchingEngine \<Rightarrow> Iteration outcome" where
  "process_iteration N srt inet_pton duration_us e =
     (case LockFreeQueue_pop N (me_order_queue e) of
        (None, q) \<Rightarrow>
          Inr \<lparr>it_engine = e\<lparr>me_order_queue := q\<rparr>, it_callbacks = [], it_metrics = []\<rparr>
      | (Some a, q) \<Rightarrow>
          (case heap_get a (me_heap e) of
             Inl f \<Rightarrow> Inl f
           | Inr order \<Rightarrow>
               (case apply_command srt order (me_order_books e) (me_order_id_to_symbol e) of
                  Inl f \<Rightarrow> Inl f
                | Inr (books, ids, trades) \<Rightarrow>
                    (case heap_free a (me_heap e) of
                       Inl f \<Rightarrow> Inl f
                     | Inr h \<Rightarrow>
                         Inr \<lparr>it_engine = e\<lparr>me_order_queue := q, me_order_books := books,
                                            me_order_id_to_symbol := ids, me_heap := h\<rparr>,
                              it_callbacks = (if me_trade_callback e then trades else []),
                              it_metrics =
                                StatsDClient_timing inet_pton (me_statsd e)
                                  ''engine.process_latency_us'' duration_us @
                                StatsDClient_increment inet_pton (me_statsd e)
                                  ''engine.orders_processed''\<rparr>))))"

text \<open>
  The loop: as many turns as there are durations, fewer if \<^verbatim>\<open>m_running\<close> is false. Metrics and
  callbacks accumulate.
\<close>

fun process_orders ::
    "nat \<Rightarrow> order_sort \<Rightarrow> (string \<Rightarrow> u32 option) \<Rightarrow> u64 list \<Rightarrow> MatchingEngine \<Rightarrow> Iteration outcome" where
  "process_orders N srt inet_pton [] e = Inr \<lparr>it_engine = e, it_callbacks = [], it_metrics = []\<rparr>"
| "process_orders N srt inet_pton (d # ds) e =
     (if \<not> me_running e then Inr \<lparr>it_engine = e, it_callbacks = [], it_metrics = []\<rparr>
      else case process_iteration N srt inet_pton d e of
             Inl f \<Rightarrow> Inl f
           | Inr r \<Rightarrow> (case process_orders N srt inet_pton ds (it_engine r) of
               Inl f \<Rightarrow> Inl f
             | Inr r' \<Rightarrow> Inr (r'\<lparr>it_callbacks := it_callbacks r @ it_callbacks r',
                                it_metrics := it_metrics r @ it_metrics r'\<rparr>)))"

text \<open>
  The destructor stops the worker; the queue's destructor then deletes what is pending. The
  result is the heap that is left and the descriptors closed.
\<close>

fun free_all :: "nat list \<Rightarrow> heap \<Rightarrow> heap outcome" where
  "free_all [] h = Inr h"
| "free_all (a # as) h = (case heap_free a h of Inl f \<Rightarrow> Inl f | Inr h' \<Rightarrow> free_all as h')"

definition MatchingEngine_destroy :: "nat \<Rightarrow> MatchingEngine \<Rightarrow> (heap \<times> fd list) outcome option" where
  "MatchingEngine_destroy N e =
     (let e1 = MatchingEngine_stop e in
      case LockFreeQueue_destroy N [] (me_free_list e1) of
        None \<Rightarrow> None
      | Some (spare, _) \<Rightarrow> (case LockFreeQueue_destroy N [] (me_order_queue e1) of
        None \<Rightarrow> None
      | Some (pending, _) \<Rightarrow>
          Some (map_sum id (\<lambda>h. (h, StatsDClient_destroy (me_statsd e1)))
                  (free_all (spare @ pending) (me_heap e1)))))"

section \<open>Ownership of the commands\<close>

text \<open>
  Between two operations the live cells of the heap are exactly the pending commands, each
  queued once: nothing is leaked and nothing in the queue has been freed.
\<close>

definition live :: "heap \<Rightarrow> nat set" where
  "live h = {a. a < length h \<and> h ! a \<noteq> None}"

definition engine_inv :: "nat \<Rightarrow> MatchingEngine \<Rightarrow> bool" where
  "engine_inv N e \<longleftrightarrow>
     queue_inv N (me_order_queue e) \<and> queue_inv N (me_free_list e) \<and>
     contents (me_free_list e) = [] \<and> distinct (contents (me_order_queue e)) \<and>
     live (me_heap e) = set (contents (me_order_queue e))"

definition pending :: "MatchingEngine \<Rightarrow> Order list" where
  "pending e = map (\<lambda>a. the (me_heap e ! a)) (contents (me_order_queue e))"

definition pushes_used :: "MatchingEngine \<Rightarrow> nat" where
  "pushes_used e = m_tail (me_order_queue e)"

lemma live_append [simp]: "live (h @ [Some x]) = insert (length h) (live h)"
  by (auto simp: live_def nth_append less_Suc_eq)

lemma live_free: "live (h[a := None]) = live h - {a}"
  by (cases "a < length h") (auto simp: live_def nth_list_update split: if_splits)

lemma live_length: "a \<in> live h \<Longrightarrow> a < length h"
  by (simp add: live_def)

lemma heap_free_live: "heap_free a h = (if a \<in> live h then Inr (h[a := None]) else Inl DoubleFree)"
  by (simp add: heap_free_def live_def)

lemma heap_get_live: "a \<in> live h \<Longrightarrow> heap_get a h = Inr (the (h ! a))"
  by (auto simp: heap_get_def live_def)

lemma engine_inv_new: "0 < N \<Longrightarrow> engine_inv N (MatchingEngine_new N s)"
  and pending_new [simp]: "pending (MatchingEngine_new N s) = []"
  and pushes_used_new [simp]: "pushes_used (MatchingEngine_new N s) = 0"
  by (simp_all add: engine_inv_def MatchingEngine_new_def queue_inv_new live_def pending_def
      pushes_used_def)

lemma push_command_spec:
  assumes "engine_inv N e"
  shows "\<exists>h q. push_command N cmd e =
             Inr (pushes_used e < N - 1, e\<lparr>me_heap := h, me_order_queue := q\<rparr>) \<and>
           engine_inv N (e\<lparr>me_heap := h, me_order_queue := q\<rparr>) \<and>
           pending (e\<lparr>me_heap := h, me_order_queue := q\<rparr>) =
             pending e @ (if pushes_used e < N - 1 then [cmd] else []) \<and>
           m_tail q = (if pushes_used e < N - 1 then Suc (pushes_used e) else pushes_used e)"
proof -
  define a where "a = length (me_heap e)"
  obtain ok q where p: "LockFreeQueue_push N (Some a) (me_order_queue e) = (ok, q)"
    by (cases "LockFreeQueue_push N (Some a) (me_order_queue e)")
  have qi: "queue_inv N (me_order_queue e)"
    and own: "live (me_heap e) = set (contents (me_order_queue e))"
    and dist: "distinct (contents (me_order_queue e))"
    using assms by (simp_all add: engine_inv_def)
  have q: "queue_inv N q" "contents q = contents (me_order_queue e) @ (if ok then [a] else [])"
    "ok \<longleftrightarrow> pushes_used e < N - 1"
    "m_tail q = (if ok then Suc (pushes_used e) else pushes_used e)"
    using lfq.push_inv [OF qi, of a] lfq.push_items [OF qi, of a] lfq.push_accepts [OF qi, of a]
      lfq.push_used [OF qi, of a] p
    by (simp_all add: pushes_used_def)
  have fresh: "a \<notin> set (contents (me_order_queue e))"
    and old: "\<forall>b\<in>set (contents (me_order_queue e)). b < a"
    using own live_length unfolding a_def by blast+
  have keep: "map (\<lambda>b. the ((me_heap e @ [x]) ! b)) (contents (me_order_queue e)) = pending e" for x
    using old by (auto simp: pending_def nth_append a_def)
  show ?thesis
  proof (cases ok)
    case True
    then have "push_command N cmd e =
        Inr (True, e\<lparr>me_heap := me_heap e @ [Some cmd], me_order_queue := q\<rparr>)"
      using p by (simp add: push_command_def heap_new_def a_def)
    then show ?thesis
      using True q assms fresh dist own keep
      by (intro exI [of _ "me_heap e @ [Some cmd]"] exI [of _ q])
         (auto simp: engine_inv_def pending_def a_def)
  next
    case False
    have "heap_free a (me_heap e @ [Some cmd]) = Inr (me_heap e @ [None])"
      by (simp add: heap_free_live a_def list_update_append)
    then have "push_command N cmd e =
        Inr (False, e\<lparr>me_heap := me_heap e @ [None], me_order_queue := q\<rparr>)"
      using p False by (simp add: push_command_def heap_new_def a_def)
    moreover have "live (me_heap e @ [None]) = live (me_heap e)"
      by (auto simp: live_def nth_append less_Suc_eq)
    ultimately show ?thesis
      using False q assms dist own keep
      by (intro exI [of _ "me_heap e @ [None]"] exI [of _ q])
         (auto simp: engine_inv_def pending_def)
  qed
qed

lemma iteration_idle:
  assumes "engine_inv N e" and "pending e = []"
  shows "process_iteration N srt inet d e = Inr \<lparr>it_engine = e, it_callbacks = [], it_metrics = []\<rparr>"
proof -
  have "LockFreeQueue_pop N (me_order_queue e) = (None, me_order_queue e)"
    using assms pop_shape [of N "me_order_queue e"] lfq.pop_empty [of N "me_order_queue e"]
    by (auto simp: engine_inv_def pending_def contents_def)
  then show ?thesis
    by (simp add: process_iteration_def)
qed

lemma iteration_busy:
  assumes "engine_inv N e" and "pending e = cmd # rest"
  shows "\<exists>h q. process_iteration N srt inet d e =
      (case apply_command srt cmd (me_order_books e) (me_order_id_to_symbol e) of
         Inl f \<Rightarrow> Inl f
       | Inr (books, ids, trades) \<Rightarrow>
           Inr \<lparr>it_engine = e\<lparr>me_order_queue := q, me_order_books := books,
                              me_order_id_to_symbol := ids, me_heap := h\<rparr>,
                it_callbacks = (if me_trade_callback e then trades else []),
                it_metrics = StatsDClient_timing inet (me_statsd e) ''engine.process_latency_us'' d @
                             StatsDClient_increment inet (me_statsd e) ''engine.orders_processed''\<rparr>) \<and>
      (\<forall>books ids. let e' = e\<lparr>me_order_queue := q, me_order_books := books,
                              me_order_id_to_symbol := ids, me_heap := h\<rparr>
                   in engine_inv N e' \<and> pending e' = rest \<and> pushes_used e' = pushes_used e)"
proof -
  obtain a as where c: "contents (me_order_queue e) = a # as" "the (me_heap e ! a) = cmd"
    "map (\<lambda>b. the (me_heap e ! b)) as = rest"
    using assms(2) by (auto simp: pending_def)
  have qi: "queue_inv N (me_order_queue e)"
    using assms(1) by (simp add: engine_inv_def)
  obtain q where p: "LockFreeQueue_pop N (me_order_queue e) = (Some a, q)" "contents q = as"
    using lfq.pop_nonempty [OF qi c(1)] by (metis prod.collapse)
  have q: "queue_inv N q" "m_tail q = pushes_used e"
    using lfq.pop_inv [OF qi] lfq.pop_used [OF qi] p by (simp_all add: pushes_used_def)
  have a: "a \<in> live (me_heap e)" "a \<notin> set as" "distinct as"
    using assms(1) c(1) by (auto simp: engine_inv_def)
  have "live ((me_heap e)[a := None]) = set as"
    using assms(1) a c(1) by (auto simp: live_free engine_inv_def)
  moreover have "map (\<lambda>b. the ((me_heap e)[a := None] ! b)) as = rest"
    unfolding c(3) [symmetric] using a(2) by (intro map_cong refl) (metis nth_list_update_neq)
  moreover have "process_iteration N srt inet d e =
      (case apply_command srt cmd (me_order_books e) (me_order_id_to_symbol e) of
         Inl f \<Rightarrow> Inl f
       | Inr (books, ids, trades) \<Rightarrow>
           Inr \<lparr>it_engine = e\<lparr>me_order_queue := q, me_order_books := books,
                              me_order_id_to_symbol := ids, me_heap := (me_heap e)[a := None]\<rparr>,
                it_callbacks = (if me_trade_callback e then trades else []),
                it_metrics = StatsDClient_timing inet (me_statsd e) ''engine.process_latency_us'' d @
                             StatsDClient_increment inet (me_statsd e) ''engine.orders_processed''\<rparr>)"
    using a c p
    by (simp add: process_iteration_def heap_get_live heap_free_live split: sum.split)
  ultimately show ?thesis
    using assms(1) a q p
    by (intro exI [of _ "(me_heap e)[a := None]"] exI [of _ q])
       (simp add: engine_inv_def pending_def pushes_used_def Let_def)
qed

section \<open>Runs of the engine\<close>

text \<open>
  An execution is a sequence of requests by clients and turns of the worker. The reference
  semantics is the sequential application of a list of commands to the books.
\<close>

datatype engine_event =
    AddRequest bool Order
  | CancelRequest bool Order u64
  | ModifyRequest bool Order u64 u32 u64
  | WorkerTurn u64

fun engine_step ::
    "nat \<Rightarrow> order_sort \<Rightarrow> (string \<Rightarrow> u32 option) \<Rightarrow> engine_event \<Rightarrow> MatchingEngine \<Rightarrow>
     (MatchingEngine \<times> Trade list) outcome" where
  "engine_step N srt inet (AddRequest oom order) e =
     map_sum id (\<lambda>r. case r of Inl _ \<Rightarrow> (e, []) | Inr e' \<Rightarrow> (e', []))
       (MatchingEngine_add_order N oom order e)"
| "engine_step N srt inet (CancelRequest oom junk i) e =
     map_sum id (\<lambda>r. case r of Inl _ \<Rightarrow> (e, []) | Inr (_, e') \<Rightarrow> (e', []))
       (MatchingEngine_cancel_order N oom junk i e)"
| "engine_step N srt inet (ModifyRequest oom junk i n p) e =
     map_sum id (\<lambda>r. case r of Inl _ \<Rightarrow> (e, []) | Inr (_, e') \<Rightarrow> (e', []))
       (MatchingEngine_modify_order N oom junk i n p e)"
| "engine_step N srt inet (WorkerTurn d) e =
     map_sum id (\<lambda>r. (it_engine r, it_callbacks r)) (process_orders N srt inet [d] e)"

fun engine_run ::
    "nat \<Rightarrow> order_sort \<Rightarrow> (string \<Rightarrow> u32 option) \<Rightarrow> engine_event list \<Rightarrow> MatchingEngine \<Rightarrow>
     (MatchingEngine \<times> Trade list) outcome" where
  "engine_run N srt inet [] e = Inr (e, [])"
| "engine_run N srt inet (ev # evs) e =
     (case engine_step N srt inet ev e of
        Inl f \<Rightarrow> Inl f
      | Inr (e1, ts) \<Rightarrow> map_sum id (\<lambda>(e2, ts'). (e2, ts @ ts')) (engine_run N srt inet evs e1))"

fun request_of :: "engine_event \<Rightarrow> Order list" where
  "request_of (AddRequest oom order) = (if oom then [] else [order])"
| "request_of (CancelRequest oom junk i) =
     (if oom then [] else [junk\<lparr>ord_id := i, ord_command := CANCEL\<rparr>])"
| "request_of (ModifyRequest oom junk i n p) =
     (if oom then [] else [junk\<lparr>ord_id := i, ord_quantity := ucast n, ord_price := p,
                                ord_command := MODIFY\<rparr>])"
| "request_of (WorkerTurn d) = []"

fun apply_commands ::
    "order_sort \<Rightarrow> Order list \<Rightarrow> books \<Rightarrow> symbols \<Rightarrow> (books \<times> symbols \<times> Trade list) outcome" where
  "apply_commands srt [] books ids = Inr (books, ids, [])"
| "apply_commands srt (cmd # cmds) books ids =
     (case apply_command srt cmd books ids of
        Inl f \<Rightarrow> Inl f
      | Inr (books1, ids1, ts) \<Rightarrow>
          map_sum id (\<lambda>(books2, ids2, ts'). (books2, ids2, ts @ ts'))
            (apply_commands srt cmds books1 ids1))"

text \<open>A command that can be applied: an added order has a terminated symbol.\<close>

definition symbol_ok :: "Order \<Rightarrow> bool" where
  "symbol_ok cmd \<longleftrightarrow> (ord_command cmd = ADD \<longrightarrow> 0 \<in> set (ord_symbol cmd))"

lemma apply_command_total: "symbol_ok cmd \<Longrightarrow> \<exists>r. apply_command srt cmd books ids = Inr r"
  by (auto simp: symbol_ok_def apply_command_def apply_add_def cstr_def Let_def
      split: OrderCommand.split prod.split)

lemma apply_command_fault:
  "apply_command srt cmd books ids = Inl f \<longleftrightarrow> f = UnterminatedString \<and> \<not> symbol_ok cmd"
  by (auto simp: symbol_ok_def apply_command_def apply_add_def cstr_def Let_def
      split: OrderCommand.split prod.split)

text \<open>A step that is a request, and a turn of the worker.\<close>

lemma request_step:
  assumes "engine_inv N e" and "\<forall>d. ev \<noteq> WorkerTurn d"
  shows "\<exists>h q. engine_step N srt inet ev e = Inr (e\<lparr>me_heap := h, me_order_queue := q\<rparr>, []) \<and>
           engine_inv N (e\<lparr>me_heap := h, me_order_queue := q\<rparr>) \<and>
           pending (e\<lparr>me_heap := h, me_order_queue := q\<rparr>) =
             pending e @ take (N - 1 - pushes_used e) (request_of ev) \<and>
           m_tail q = pushes_used e + length (take (N - 1 - pushes_used e) (request_of ev))"
proof -
  have idle: ?thesis if "engine_step N srt inet ev e = Inr (e, [])" "request_of ev = []"
    using that assms(1)
    by (intro exI [of _ "me_heap e"] exI [of _ "me_order_queue e"]) (simp add: pushes_used_def)
  have push: ?thesis
    if "\<And>h q ok. push_command N cmd e = Inr (ok, e\<lparr>me_heap := h, me_order_queue := q\<rparr>) \<Longrightarrow>
          engine_step N srt inet ev e = Inr (e\<lparr>me_heap := h, me_order_queue := q\<rparr>, [])"
      and "request_of ev = [cmd]" for cmd
    using push_command_spec [OF assms(1), of cmd] that
    by (auto simp: take_Cons' split: if_splits) (metis, metis)
  show ?thesis
  proof (cases ev)
    case (AddRequest oom order)
    then show ?thesis
      by (cases oom; intro idle push) (simp_all add: MatchingEngine_add_order_def)
  next
    case (CancelRequest oom junk i)
    then show ?thesis
      by (cases oom; intro idle push)
         (simp_all add: MatchingEngine_cancel_order_def Order_default_def)
  next
    case (ModifyRequest oom junk i n p)
    then show ?thesis
      by (cases oom; intro idle push)
         (simp_all add: MatchingEngine_modify_order_def Order_default_def)
  qed (use assms(2) in blast)
qed

lemma apply_commands_Cons_Inr:
  "apply_commands srt (c # cs) books ids = Inr (books2, ids2, ts) \<longleftrightarrow>
   (\<exists>books1 ids1 t1 t2. apply_command srt c books ids = Inr (books1, ids1, t1) \<and>
      apply_commands srt cs books1 ids1 = Inr (books2, ids2, t2) \<and> ts = t1 @ t2)"
  by (cases "apply_command srt c books ids") (auto simp: map_sum_id_eq_Inr)

lemma apply_commands_append:
  "apply_commands srt cs books ids = Inr (books1, ids1, ts) \<Longrightarrow>
   apply_commands srt cs' books1 ids1 = Inr (books2, ids2, ts') \<Longrightarrow>
   apply_commands srt (cs @ cs') books ids = Inr (books2, ids2, ts @ ts')"
proof (induction cs arbitrary: books ids ts)
  case Nil
  then show ?case by simp
next
  case (Cons c cs)
  then obtain b i t1 t2 where c: "apply_command srt c books ids = Inr (b, i, t1)"
    "apply_commands srt cs b i = Inr (books1, ids1, t2)" "ts = t1 @ t2"
    unfolding apply_commands_Cons_Inr by blast
  then show ?case
    using Cons.IH [OF c(2) Cons.prems(2)] by (simp del: apply_commands.simps add: apply_commands_Cons_Inr)
qed

text \<open>
  \<open>engine_moves N srt e reqs e' ts\<close>: from \<open>e\<close> to \<open>e'\<close> the queue took the first of the requests
  \<open>reqs\<close> its budget allows, the worker applied some commands from the front of the queue, in order,
  and their trades are \<open>ts\<close>.
\<close>

definition engine_moves ::
    "nat \<Rightarrow> order_sort \<Rightarrow> MatchingEngine \<Rightarrow> Order list \<Rightarrow> MatchingEngine \<Rightarrow> Trade list \<Rightarrow> bool" where
  "engine_moves N srt e reqs e' ts \<longleftrightarrow>
     engine_inv N e' \<and> me_trade_callback e' = me_trade_callback e \<and> me_running e' = me_running e \<and>
     pushes_used e' = pushes_used e + length (take (N - 1 - pushes_used e) reqs) \<and>
     (\<exists>applied. pending e @ take (N - 1 - pushes_used e) reqs = applied @ pending e' \<and>
        apply_commands srt applied (me_order_books e) (me_order_id_to_symbol e) =
          Inr (me_order_books e', me_order_id_to_symbol e', ts))"

lemma engine_moves_refl: "engine_inv N e \<Longrightarrow> engine_moves N srt e [] e []"
  by (simp add: engine_moves_def)

lemma take_budget:
  "take k (xs @ ys) = take k xs @ take (k - length (take k xs)) (ys :: 'a list)"
  by (cases "length xs \<le> k") simp_all

lemma engine_moves_trans:
  assumes "engine_moves N srt e reqs e1 ts" and "engine_moves N srt e1 reqs' e2 ts'"
  shows "engine_moves N srt e (reqs @ reqs') e2 (ts @ ts')"
proof -
  let ?k = "N - 1 - pushes_used e"
  have k: "N - 1 - pushes_used e1 = ?k - length (take ?k reqs)"
    using assms(1) unfolding engine_moves_def by arith
  obtain as bs where as: "pending e @ take ?k reqs = as @ pending e1"
      "apply_commands srt as (me_order_books e) (me_order_id_to_symbol e) =
         Inr (me_order_books e1, me_order_id_to_symbol e1, ts)"
    and bs: "pending e1 @ take (N - 1 - pushes_used e1) reqs' = bs @ pending e2"
      "apply_commands srt bs (me_order_books e1) (me_order_id_to_symbol e1) =
         Inr (me_order_books e2, me_order_id_to_symbol e2, ts')"
    using assms unfolding engine_moves_def by blast
  have "pending e @ take ?k (reqs @ reqs') = (as @ bs) @ pending e2"
    using as(1) bs(1) k take_budget [of ?k reqs reqs'] by (metis append.assoc)
  moreover have "apply_commands srt (as @ bs) (me_order_books e) (me_order_id_to_symbol e) =
      Inr (me_order_books e2, me_order_id_to_symbol e2, ts @ ts')"
    by (rule apply_commands_append [OF as(2) bs(2)])
  moreover have "pushes_used e2 = pushes_used e + length (take ?k (reqs @ reqs'))"
    using assms k take_budget [of ?k reqs reqs'] unfolding engine_moves_def by auto
  ultimately show ?thesis
    using assms unfolding engine_moves_def by metis
qed

lemma worker_turn:
  assumes "engine_inv N e" and "\<forall>cmd\<in>set (pending e). symbol_ok cmd"
  shows "\<exists>e' ts. engine_step N srt inet (WorkerTurn d) e =
             Inr (e', if me_trade_callback e then ts else []) \<and>
           engine_moves N srt e [] e' ts"
proof (cases "me_running e \<and> pending e \<noteq> []")
  case False
  then have "engine_step N srt inet (WorkerTurn d) e = Inr (e, [])"
    using assms(1) by (auto simp: iteration_idle)
  then show ?thesis
    using engine_moves_refl [OF assms(1), of srt] by fastforce
next
  case True
  then obtain cmd rest where p: "pending e = cmd # rest"
    by (cases "pending e") auto
  obtain books ids ts where
    a: "apply_command srt cmd (me_order_books e) (me_order_id_to_symbol e) = Inr (books, ids, ts)"
    using apply_command_total [of cmd srt] assms(2) p by (metis list.set_intros(1) prod_cases3)
  obtain h q where it: "process_iteration N srt inet d e =
      Inr \<lparr>it_engine = e\<lparr>me_order_queue := q, me_order_books := books,
                            me_order_id_to_symbol := ids, me_heap := h\<rparr>,
           it_callbacks = (if me_trade_callback e then ts else []),
           it_metrics = StatsDClient_timing inet (me_statsd e) ''engine.process_latency_us'' d @
                        StatsDClient_increment inet (me_statsd e) ''engine.orders_processed''\<rparr>"
    and st: "\<forall>books ids. let e' = e\<lparr>me_order_queue := q, me_order_books := books,
                                   me_order_id_to_symbol := ids, me_heap := h\<rparr>
                   in engine_inv N e' \<and> pending e' = rest \<and> pushes_used e' = pushes_used e"
    using iteration_busy [OF assms(1) p, of srt inet d] a by auto
  let ?e = "e\<lparr>me_order_queue := q, me_order_books := books,
             me_order_id_to_symbol := ids, me_heap := h\<rparr>"
  have "engine_step N srt inet (WorkerTurn d) e = Inr (?e, if me_trade_callback e then ts else [])"
    using True it by simp
  moreover have "engine_moves N srt e [] ?e ts"
    using st a p by (auto simp: engine_moves_def Let_def intro!: exI [of _ "[cmd]"])
  ultimately show ?thesis by blast
qed

lemma engine_step_moves:
  assumes "engine_inv N e" and "\<forall>cmd\<in>set (pending e). symbol_ok cmd"
  shows "\<exists>e' ts. engine_step N srt inet ev e = Inr (e', if me_trade_callback e then ts else []) \<and>
           engine_moves N srt e (request_of ev) e' ts"
proof (cases "\<exists>d. ev = WorkerTurn d")
  case True
  then obtain d where "ev = WorkerTurn d" by blast
  then show ?thesis
    using worker_turn [OF assms, of srt inet d] by (simp only: request_of.simps)
next
  case False
  then obtain h q where "engine_step N srt inet ev e = Inr (e\<lparr>me_heap := h, me_order_queue := q\<rparr>, [])"
    and "engine_moves N srt e (request_of ev) (e\<lparr>me_heap := h, me_order_queue := q\<rparr>) []"
    using request_step [OF assms(1), of ev srt inet]
    by (auto simp: engine_moves_def pushes_used_def)
  then show ?thesis
    by (intro exI [of _ "e\<lparr>me_heap := h, me_order_queue := q\<rparr>"] exI [of _ "[]"]) simp
qed

lemma engine_moves_pending:
  assumes "engine_moves N srt e reqs e' ts"
  shows "set (pending e') \<subseteq> set (pending e) \<union> set reqs"
proof -
  obtain applied where "pending e @ take (N - 1 - pushes_used e) reqs = applied @ pending e'"
    using assms unfolding engine_moves_def by blast
  then have "set (pending e') \<subseteq> set (pending e @ take (N - 1 - pushes_used e) reqs)"
    by simp
  then show ?thesis
    using set_take_subset [of "N - 1 - pushes_used e" reqs] by auto
qed

lemma engine_run_moves:
  assumes "engine_inv N e"
    and "\<forall>cmd\<in>set (pending e) \<union> set (concat (map request_of evs)). symbol_ok cmd"
  shows "\<exists>e' ts. engine_run N srt inet evs e = Inr (e', if me_trade_callback e then ts else []) \<and>
           engine_moves N srt e (concat (map request_of evs)) e' ts"
  using assms
proof (induction evs arbitrary: e)
  case Nil
  then show ?case
    using engine_moves_refl [of N e srt] by fastforce
next
  case (Cons ev evs)
  obtain e1 ts where s: "engine_step N srt inet ev e = Inr (e1, if me_trade_callback e then ts else [])"
    and m: "engine_moves N srt e (request_of ev) e1 ts"
    using engine_step_moves [of N e srt inet ev] Cons.prems by auto
  have "set (pending e1) \<subseteq> set (pending e) \<union> set (request_of ev)"
    by (rule engine_moves_pending [OF m])
  then have "\<forall>cmd\<in>set (pending e1) \<union> set (concat (map request_of evs)). symbol_ok cmd"
    using Cons.prems(2) by auto
  moreover have "engine_inv N e1"
    using m by (simp add: engine_moves_def)
  ultimately obtain e2 ts' where r: "engine_run N srt inet evs e1 = Inr (e2, if me_trade_callback e1 then ts' else [])"
    and m': "engine_moves N srt e1 (concat (map request_of evs)) e2 ts'"
    using Cons.IH [of e1] by blast
  have "me_trade_callback e1 = me_trade_callback e"
    using m by (simp add: engine_moves_def)
  then show ?case
    using s r engine_moves_trans [OF m m'] by (intro exI [of _ e2] exI [of _ "ts @ ts'"]) simp
qed

section \<open>The books and the identifier index\<close>

text \<open>
  Every book is well-formed, filed under its own symbol, holds only orders of that symbol, and
  has no identifier on both sides; the index knows the book of every resting order.
\<close>

definition one_side_per_id :: "OrderBook \<Rightarrow> bool" where
  "one_side_per_id book \<longleftrightarrow>
     (\<forall>x\<in>#resting book. \<forall>y\<in>#resting book. ord_id x = ord_id y \<longrightarrow> ord_is_buy x = ord_is_buy y)"

definition filed_under :: "bytes \<Rightarrow> OrderBook \<Rightarrow> bool" where
  "filed_under symbol book \<longleftrightarrow>
     ob_symbol book = symbol \<and> (\<forall>x\<in>#resting book. cstr (ord_symbol x) = Inr symbol)"

definition books_inv :: "books \<Rightarrow> symbols \<Rightarrow> bool" where
  "books_inv books ids \<longleftrightarrow>
     (\<forall>symbol book. books symbol = Some book \<longrightarrow>
        book_ok book \<and> filed_under symbol book \<and> one_side_per_id book \<and>
        (\<forall>x\<in>#resting book. ids (ord_id x) = Some symbol))"

text \<open>The identifiers of added orders are new: none of them rests in a book.\<close>

definition fresh_id :: "books \<Rightarrow> Order \<Rightarrow> bool" where
  "fresh_id books cmd \<longleftrightarrow>
     (ord_command cmd = ADD \<longrightarrow>
        (\<forall>symbol book. books symbol = Some book \<longrightarrow> \<not> rests (ord_id cmd) book))"

lemma one_side_per_idI:
  "(\<And>x y. x \<in># resting book \<Longrightarrow> y \<in># resting book \<Longrightarrow> ord_id x = ord_id y \<Longrightarrow>
      ord_is_buy x = ord_is_buy y) \<Longrightarrow> one_side_per_id book"
  and one_side_per_idD:
  "one_side_per_id book \<Longrightarrow> x \<in># resting book \<Longrightarrow> y \<in># resting book \<Longrightarrow> ord_id x = ord_id y \<Longrightarrow>
   ord_is_buy x = ord_is_buy y"
  unfolding one_side_per_id_def by blast+

lemma one_sided_of: "book_ok book \<Longrightarrow> one_side_per_id book \<Longrightarrow> one_sided i book"
  unfolding one_sided_def one_side_per_id_def book_ok_def resting_def by fastforce

lemma books_invI:
  assumes "books_inv books ids" and "\<And>j. j \<noteq> i \<Longrightarrow> ids' j = ids j"
    and "\<And>s book. s \<noteq> symbol \<Longrightarrow> books s = Some book \<Longrightarrow> \<not> rests i book"
    and "book_ok book'" "filed_under symbol book'" "one_side_per_id book'"
    and "\<And>x. x \<in># resting book' \<Longrightarrow> ids' (ord_id x) = Some symbol"
  shows "books_inv (books(symbol \<mapsto> book')) ids'"
  using assms unfolding books_inv_def rests_def by (auto split: if_splits)

text \<open>The listings of one book carried over to another.\<close>

definition carried :: "OrderBook \<Rightarrow> OrderBook \<Rightarrow> bool" where
  "carried b b' \<longleftrightarrow> (\<forall>x\<in>#resting b'. \<exists>y\<in>#resting b. same_listing x y)"

lemma carriedE:
  assumes "carried b b'" and "x \<in># resting b'"
  obtains y where "y \<in># resting b" "ord_id x = ord_id y" "ord_is_buy x = ord_is_buy y"
    "ord_symbol x = ord_symbol y"
  using assms by (auto simp: carried_def same_listing_def)

lemma carried_one_side:
  assumes "carried b b'" and "one_side_per_id b"
  shows "one_side_per_id b'"
proof (rule one_side_per_idI)
  fix x y assume "x \<in># resting b'" "y \<in># resting b'" and eq: "ord_id x = ord_id y"
  from this(1) obtain x0 where x: "x0 \<in># resting b" "ord_id x = ord_id x0" "ord_is_buy x = ord_is_buy x0"
    by (rule carriedE [OF assms(1)])
  from \<open>y \<in># resting b'\<close> obtain y0 where y: "y0 \<in># resting b" "ord_id y = ord_id y0" "ord_is_buy y = ord_is_buy y0"
    by (rule carriedE [OF assms(1)])
  show "ord_is_buy x = ord_is_buy y"
    using one_side_per_idD [OF assms(2) x(1) y(1)] x y eq by simp
qed

lemma carried_filed:
  "carried b b' \<Longrightarrow> ob_symbol b' = ob_symbol b \<Longrightarrow> filed_under s b \<Longrightarrow> filed_under s b'"
  unfolding filed_under_def by (metis carriedE)

lemma carried_ids:
  "carried b b' \<Longrightarrow> \<forall>x\<in>#resting b. ids (ord_id x) = v \<Longrightarrow> x \<in># resting b' \<Longrightarrow> ids (ord_id x) = v"
  by (metis carriedE)

lemma books_inv_at:
  "books_inv books ids \<Longrightarrow> books symbol = Some b \<Longrightarrow>
   book_ok b \<and> filed_under symbol b \<and> one_side_per_id b \<and>
   (\<forall>x\<in>#resting b. ids (ord_id x) = Some symbol)"
  by (simp add: books_inv_def)

lemma books_inv_elsewhere:
  assumes "books_inv books ids" "ids i \<noteq> Some s" "books s = Some book"
  shows "\<not> rests i book"
  using books_inv_at [OF assms(1,3)] assms(2) by (auto simp: rests_def)

context order_book_ops
begin

text \<open>What the engine derives from the interface of a book alone.\<close>

lemma match_carried: "carried b (snd (matching b))"
  and cancel_carried: "carried b (snd (cancel i b))"
  and modify_carried: "carried b (snd (modify i n p b))"
  using match_resting modify_resting mset_subset_eqD [OF cancel_resting] same_listing_refl
  unfolding carried_def by blast+

lemma cancel_other:
  assumes "one_sided i b" and "x \<in># resting (snd (cancel i b))"
  shows "ord_id x \<noteq> i"
  using cancel_gone [OF assms(1)] assms(2) by (auto simp: rests_def)

lemma add_one_side:
  assumes "\<not> rests (ord_id ord) b" and "one_side_per_id b"
  shows "one_side_per_id (add ord b)"
proof (rule one_side_per_idI)
  fix x y assume "x \<in># resting (add ord b)" "y \<in># resting (add ord b)" "ord_id x = ord_id y"
  then have "x = ord \<and> y = ord \<or> x \<in># resting b \<and> y \<in># resting b"
    using assms(1) by (auto simp: add_resting rests_def)
  then show "ord_is_buy x = ord_is_buy y"
    using one_side_per_idD [OF assms(2)] \<open>ord_id x = ord_id y\<close> by blast
qed

end

context order_sorting
begin

lemma apply_add_books_inv:
  assumes inv: "books_inv books ids" and fresh: "fresh_id books cmd" "ord_command cmd = ADD"
    and ok: "apply_add srt cmd books ids = Inr (books', ids', ts)"
  shows "books_inv books' ids'"
proof -
  obtain symbol where sym: "cstr (ord_symbol cmd) = Inr symbol"
    using ok by (auto simp: apply_add_def split: sum.splits)
  define b0 where "b0 = (case books symbol of Some book \<Rightarrow> book | None \<Rightarrow> OrderBook_new symbol)"
  define b1 where "b1 = OrderBook_add_order srt cmd b0"
  have r: "books' = books(symbol \<mapsto> snd (OrderBook_match b1))" "ids' = ids(ord_id cmd \<mapsto> symbol)"
    using ok sym by (auto simp: apply_add_def Let_def b0_def b1_def split: prod.splits)
  have "book_ok b0 \<and> filed_under symbol b0 \<and> one_side_per_id b0 \<and> \<not> rests (ord_id cmd) b0 \<and>
    (\<forall>x\<in>#resting b0. ids (ord_id x) = Some symbol)"
  proof (cases "books symbol")
    case None
    then have "b0 = OrderBook_new symbol" by (simp add: b0_def)
    then show ?thesis
      by (simp add: filed_under_def one_side_per_id_def rests_def resting_def OrderBook_new_def
          book_ok_def)
  next
    case (Some b)
    then have "b0 = b" by (simp add: b0_def)
    then show ?thesis
      using books_inv_at [OF inv Some] Some fresh unfolding fresh_id_def by blast
  qed
  then have b0: "book_ok b0" "filed_under symbol b0" "one_side_per_id b0" "\<not> rests (ord_id cmd) b0"
    "\<forall>x\<in>#resting b0. ids (ord_id x) = Some symbol"
    by blast+
  have b1: "book_ok b1" "filed_under symbol b1" "one_side_per_id b1"
    "\<forall>x\<in>#resting b1. ids' (ord_id x) = Some symbol"
    using b0 sym book.add_ok book.add_one_side [OF b0(4,3)]
    by (simp_all add: b1_def filed_under_def add_order_resting r rests_def)
  show ?thesis
    unfolding r
  proof (rule books_invI [OF inv, of "ord_id cmd"])
    show "book_ok (snd (OrderBook_match b1))"
      using book.match_ok b1(1) .
    show "one_side_per_id (snd (OrderBook_match b1))"
      using carried_one_side [OF book.match_carried b1(3)] .
    show "filed_under symbol (snd (OrderBook_match b1))"
      using carried_filed [OF book.match_carried book.symbol_kept(2) b1(2)] .
    show "x \<in># resting (snd (OrderBook_match b1)) \<Longrightarrow>
          (ids(ord_id cmd \<mapsto> symbol)) (ord_id x) = Some symbol" for x
      using carried_ids [OF book.match_carried b1(4)] unfolding r .
  qed (use fresh in \<open>auto simp: fresh_id_def\<close>)
qed

lemma apply_cancel_books_inv:
  assumes inv: "books_inv books ids" and r: "apply_cancel cmd books ids = (books', ids')"
  shows "books_inv books' ids' \<and> (\<forall>s book. books' s = Some book \<longrightarrow> \<not> rests (ord_id cmd) book)"
proof (cases "ids (ord_id cmd)")
  case None
  then have "books' = books" "ids' = ids"
    using r by (simp_all add: apply_cancel_def)
  then show ?thesis
    using inv None books_inv_elsewhere [OF inv, of "ord_id cmd"] by simp
next
  case (Some symbol)
  have others: "\<not> rests (ord_id cmd) book" if "s \<noteq> symbol" "books s = Some book" for s book
    using books_inv_elsewhere [OF inv, of "ord_id cmd" s] Some that by simp
  have ids': "ids' = ids(ord_id cmd := None)"
    using Some r by (auto simp: apply_cancel_def)
  show ?thesis
  proof (cases "books symbol")
    case None
    then have "books' = books"
      using Some r by (simp add: apply_cancel_def)
    moreover have none: "\<not> rests (ord_id cmd) book" if "books s = Some book" for s book
      using others [of s book] None that by (cases "s = symbol") auto
    ultimately show ?thesis
      using inv unfolding books_inv_def ids' by (auto simp: rests_def)
  next
    case book: (Some b)
    let ?b = "snd (OrderBook_cancel_order (ord_id cmd) b)"
    have books': "books' = books(symbol \<mapsto> ?b)"
      using Some book r by (auto simp: apply_cancel_def)
    have b: "book_ok b" "filed_under symbol b" "one_side_per_id b"
      "\<forall>x\<in>#resting b. ids (ord_id x) = Some symbol"
      using books_inv_at [OF inv book] by auto
    have gone: "ord_id x \<noteq> ord_id cmd" if "x \<in># resting ?b" for x
      using book.cancel_other [OF one_sided_of [OF b(1,3)] that] .
    have "books_inv books' ids'"
      unfolding books' ids'
    proof (rule books_invI [OF inv, of "ord_id cmd"])
      show "book_ok ?b" using book.cancel_ok b(1) .
      show "one_side_per_id ?b" using carried_one_side [OF book.cancel_carried b(3)] .
      show "filed_under symbol ?b"
        using carried_filed [OF book.cancel_carried book.symbol_kept(3) b(2)] .
      show "x \<in># resting ?b \<Longrightarrow> (ids(ord_id cmd := None)) (ord_id x) = Some symbol" for x
        using carried_ids [OF book.cancel_carried b(4)] gone [of x] by simp
    qed (use others in auto)
    then show ?thesis
      using others gone by (auto simp: books' rests_def)
  qed
qed

lemma apply_modify_books_inv:
  assumes inv: "books_inv books ids" and r: "apply_modify srt cmd books ids = (books', ids')"
  shows "books_inv books' ids'"
proof (cases "ids (ord_id cmd) = None \<or> books (the (ids (ord_id cmd))) = None")
  case True
  then show ?thesis
    using inv r by (auto simp: apply_modify_def split: option.splits)
next
  case False
  then obtain symbol b where b: "ids (ord_id cmd) = Some symbol" "books symbol = Some b"
    by auto
  let ?b = "snd (OrderBook_modify_order srt (ord_id cmd) (ucast (ord_quantity cmd)) (ord_price cmd) b)"
  have r': "books' = books(symbol \<mapsto> ?b)" "ids' = ids"
    using b r by (auto simp: apply_modify_def)
  have at: "book_ok b" "filed_under symbol b" "one_side_per_id b"
    "\<forall>x\<in>#resting b. ids (ord_id x) = Some symbol"
    using books_inv_at [OF inv b(2)] by auto
  show ?thesis
    unfolding r'
  proof (rule books_invI [OF inv, of "ord_id cmd"])
    show "book_ok ?b" using book.modify_ok at(1) .
    show "one_side_per_id ?b" using carried_one_side [OF book.modify_carried at(3)] .
    show "filed_under symbol ?b"
      using carried_filed [OF book.modify_carried book.symbol_kept(4) at(2)] .
    show "x \<in># resting ?b \<Longrightarrow> ids (ord_id x) = Some symbol" for x
      using carried_ids [OF book.modify_carried at(4)] .
    show "\<not> rests (ord_id cmd) book" if "s \<noteq> symbol" "books s = Some book" for s book
      using books_inv_elsewhere [OF inv, of "ord_id cmd" s] b that by simp
  qed simp
qed

lemma apply_command_books_inv:
  assumes "books_inv books ids" and "fresh_id books cmd"
    and "apply_command srt cmd books ids = Inr (books', ids', ts)"
  shows "books_inv books' ids'"
proof (cases "ord_command cmd")
  case ADD
  then show ?thesis
    using apply_add_books_inv [OF assms(1,2)] assms(3) by (simp add: apply_command_def)
next
  case CANCEL
  then show ?thesis
    using apply_cancel_books_inv [OF assms(1), of cmd] assms(3)
    by (auto simp: apply_command_def split: prod.splits)
next
  case MODIFY
  then show ?thesis
    using apply_modify_books_inv [OF assms(1), of cmd] assms(3)
    by (auto simp: apply_command_def split: prod.splits)
qed

end

section \<open>The worker empties the queue\<close>

lemma process_orders_drains:
  assumes "engine_inv N e" and "me_running e" and "\<forall>cmd\<in>set (pending e). symbol_ok cmd"
    and "length (pending e) \<le> length ds"
  shows "\<exists>r ts. process_orders N srt inet ds e = Inr r \<and> engine_inv N (it_engine r) \<and>
           pending (it_engine r) = [] \<and>
           apply_commands srt (pending e) (me_order_books e) (me_order_id_to_symbol e) =
             Inr (me_order_books (it_engine r), me_order_id_to_symbol (it_engine r), ts) \<and>
           it_callbacks r = (if me_trade_callback e then ts else [])"
  using assms
proof (induction ds arbitrary: e)
  case Nil
  then show ?case by simp
next
  case (Cons d ds)
  show ?case
  proof (cases "pending e")
    case Nil
    then show ?thesis
      using Cons.IH [of e] Cons.prems iteration_idle [OF Cons.prems(1) Nil, of srt inet d] by force
  next
    case (Cons cmd rest)
    obtain books ids t1 where
      a: "apply_command srt cmd (me_order_books e) (me_order_id_to_symbol e) = Inr (books, ids, t1)"
      using apply_command_total [of cmd srt] Cons.prems(3) Cons
      by (metis list.set_intros(1) prod_cases3)
    obtain h q where it: "process_iteration N srt inet d e =
        Inr \<lparr>it_engine = e\<lparr>me_order_queue := q, me_order_books := books,
                              me_order_id_to_symbol := ids, me_heap := h\<rparr>,
             it_callbacks = (if me_trade_callback e then t1 else []),
             it_metrics = StatsDClient_timing inet (me_statsd e) ''engine.process_latency_us'' d @
                          StatsDClient_increment inet (me_statsd e) ''engine.orders_processed''\<rparr>"
      and st: "\<forall>books ids. let e' = e\<lparr>me_order_queue := q, me_order_books := books,
                                     me_order_id_to_symbol := ids, me_heap := h\<rparr>
                     in engine_inv N e' \<and> pending e' = rest \<and> pushes_used e' = pushes_used e"
      using iteration_busy [OF Cons.prems(1) Cons, of srt inet d] a by auto
    define e1 where "e1 = e\<lparr>me_order_queue := q, me_order_books := books,
                           me_order_id_to_symbol := ids, me_heap := h\<rparr>"
    have e1: "engine_inv N e1" "pending e1 = rest" "me_running e1" "me_order_books e1 = books"
      "me_order_id_to_symbol e1 = ids" "me_trade_callback e1 = me_trade_callback e"
      using st Cons.prems(2) by (simp_all add: e1_def Let_def)
    obtain r ts where r: "process_orders N srt inet ds e1 = Inr r" "engine_inv N (it_engine r)"
      "pending (it_engine r) = []"
      "apply_commands srt rest books ids =
         Inr (me_order_books (it_engine r), me_order_id_to_symbol (it_engine r), ts)"
      "it_callbacks r = (if me_trade_callback e then ts else [])"
      using Cons.IH [of e1] e1 Cons.prems(3,4) Cons by auto
    then show ?thesis
      using it a Cons.prems(2) Cons
      by (intro exI [of _ "r\<lparr>it_callbacks := (if me_trade_callback e then t1 else []) @ it_callbacks r,
            it_metrics := StatsDClient_timing inet (me_statsd e) ''engine.process_latency_us'' d @
              StatsDClient_increment inet (me_statsd e) ''engine.orders_processed'' @ it_metrics r\<rparr>"]
          exI [of _ "t1 @ ts"])
         (simp flip: e1_def)
  qed
qed

lemma free_all_live:
  "distinct as \<Longrightarrow> set as \<subseteq> live h \<Longrightarrow> \<exists>h'. free_all as h = Inr h' \<and> live h' = live h - set as"
proof (induction as arbitrary: h)
  case Nil
  then show ?case by simp
next
  case (Cons a as)
  then have "set as \<subseteq> live (h[a := None])" and "a \<in> live h"
    by (auto simp: live_free)
  moreover from this obtain h' where "free_all as (h[a := None]) = Inr h'"
    "live h' = live (h[a := None]) - set as"
    using Cons.IH [of "h[a := None]"] Cons.prems(1) by auto
  ultimately show ?case
    by (intro exI [of _ h']) (auto simp: heap_free_live live_free)
qed

section \<open>Correctness of the engine\<close>

definition started_engine :: "nat \<Rightarrow> fd \<Rightarrow> MatchingEngine" where
  "started_engine N s =
     snd (MatchingEngine_start True (MatchingEngine_set_trade_callback True (MatchingEngine_new N s)))"

lemma started_engine:
  "0 < N \<Longrightarrow> engine_inv N (started_engine N s)" "pending (started_engine N s) = []"
  "pushes_used (started_engine N s) = 0" "me_trade_callback (started_engine N s)"
  "me_running (started_engine N s)" "me_order_books (started_engine N s) = Map.empty"
  "me_order_id_to_symbol (started_engine N s) = Map.empty"
  using engine_inv_new [of N s]
  by (simp_all add: started_engine_def MatchingEngine_start_def MatchingEngine_set_trade_callback_def
      MatchingEngine_new_def engine_inv_def pending_def pushes_used_def)

text \<open>C3: the engine refines sequential matching. Run a started engine on any interleaving of client
  requests and worker turns whose added orders have terminated symbols: the run has no undefined
  behaviour; of the requests exactly the first \<open>N - 1\<close> are ever accepted; and the books, the
  identifier index and the trades reported to the callback are those of applying a prefix of the
  accepted requests one after the other in the order of acceptance, the rest being still queued.\<close>

theorem engine_refines_sequential:
  assumes "0 < N" and "\<forall>cmd\<in>set (concat (map request_of evs)). symbol_ok cmd"
  shows "\<exists>e trades applied.
           engine_run N srt inet evs (started_engine N s) = Inr (e, trades) \<and>
           take (N - 1) (concat (map request_of evs)) = applied @ pending e \<and>
           apply_commands srt applied Map.empty Map.empty =
             Inr (me_order_books e, me_order_id_to_symbol e, trades)"
  using engine_run_moves [OF started_engine(1) [OF assms(1)], of s evs srt inet] assms(2)
  by (auto simp: started_engine engine_moves_def)

theorem engine_refines_sequential_witness:
  "\<exists>e trades applied.
     engine_run 3 insertion_sort (\<lambda>_. None)
       [AddRequest False (sample_bid 1 100 5), WorkerTurn 1, AddRequest False (sample_ask 2 100 5),
        WorkerTurn 1, AddRequest False (sample_bid 3 100 5)] (started_engine 3 4) = Inr (e, trades) \<and>
     [sample_bid 1 100 5, sample_ask 2 100 5] = applied @ pending e"
proof -
  let ?evs = "[AddRequest False (sample_bid 1 100 5), WorkerTurn 1,
    AddRequest False (sample_ask 2 100 5), WorkerTurn 1, AddRequest False (sample_bid 3 100 5)]"
  have "\<forall>cmd\<in>set (concat (map request_of ?evs)). symbol_ok cmd"
    by (simp add: symbol_ok_def sample_bid_def sample_ask_def Order_make_def zero_in_strncpy)
  then show ?thesis
    using engine_refines_sequential [of 3 ?evs insertion_sort "\<lambda>_. None" 4] by auto
qed

text \<open>C22: the worker makes progress: as many turns as there are pending commands (or more) leave the
  queue empty, with every command applied in order and its trades reported, as long as the engine
  is running and the pending orders have terminated symbols.\<close>

theorem worker_drains_queue:
  assumes "engine_inv N e" and "me_running e" and "\<forall>cmd\<in>set (pending e). symbol_ok cmd"
    and "length (pending e) \<le> length ds"
  shows "\<exists>r trades. process_orders N srt inet ds e = Inr r \<and> pending (it_engine r) = [] \<and>
           apply_commands srt (pending e) (me_order_books e) (me_order_id_to_symbol e) =
             Inr (me_order_books (it_engine r), me_order_id_to_symbol (it_engine r), trades) \<and>
           it_callbacks r = (if me_trade_callback e then trades else [])"
  using process_orders_drains [OF assms] by blast

lemma one_pending:
  "\<exists>e. MatchingEngine_add_order 3 False (sample_bid 1 100 5) (started_engine 3 4) = Inr (Inr e) \<and>
       engine_inv 3 e \<and> me_running e \<and> pending e = [sample_bid 1 100 5] \<and>
       me_order_books e = Map.empty \<and> me_order_id_to_symbol e = Map.empty"
proof -
  obtain h q where "push_command 3 (sample_bid 1 100 5) (started_engine 3 4) =
      Inr (True, (started_engine 3 4)\<lparr>me_heap := h, me_order_queue := q\<rparr>)"
    "engine_inv 3 ((started_engine 3 4)\<lparr>me_heap := h, me_order_queue := q\<rparr>)"
    "pending ((started_engine 3 4)\<lparr>me_heap := h, me_order_queue := q\<rparr>) = [sample_bid 1 100 5]"
    using push_command_spec [OF started_engine(1) [of 3 4], of "sample_bid 1 100 5"] by (auto simp: started_engine)
  then show ?thesis
    by (simp add: MatchingEngine_add_order_def started_engine)
qed

lemma sample_bid_symbol_ok: "symbol_ok (sample_bid i p n)"
  by (simp add: symbol_ok_def sample_bid_def Order_make_def zero_in_strncpy)

theorem worker_drains_queue_witness:
  "\<exists>e r. MatchingEngine_add_order 3 False (sample_bid 1 100 5) (started_engine 3 4) = Inr (Inr e) \<and>
       pending e = [sample_bid 1 100 5] \<and>
       process_orders 3 insertion_sort (\<lambda>_. None) [7] e = Inr r \<and> pending (it_engine r) = []"
proof -
  obtain e where e: "MatchingEngine_add_order 3 False (sample_bid 1 100 5) (started_engine 3 4) = Inr (Inr e)"
      "engine_inv 3 e" "me_running e" "pending e = [sample_bid 1 100 5]"
    using one_pending by blast
  then show ?thesis
    using worker_drains_queue [OF e(2,3), of "[7]" insertion_sort "\<lambda>_. None"]
    by (auto simp: sample_bid_symbol_ok simp del: process_orders.simps)
qed

text \<open>The destructor frees what is pending and closes the metrics socket.\<close>

lemma engine_destroy_frees:
  assumes "engine_inv N e"
  shows "\<exists>h. MatchingEngine_destroy N e = Some (Inr (h, StatsDClient_destroy (me_statsd e))) \<and> live h = {}"
proof -
  let ?e = "MatchingEngine_stop e"
  have same: "me_order_queue ?e = me_order_queue e" "me_free_list ?e = me_free_list e"
    "me_heap ?e = me_heap e" "me_statsd ?e = me_statsd e"
    by (simp_all add: MatchingEngine_stop_def Let_def)
  obtain q1 q2 where d: "LockFreeQueue_destroy N [] (me_free_list e) = Some ([], q1)"
    "LockFreeQueue_destroy N [] (me_order_queue e) = Some (contents (me_order_queue e), q2)"
    using destroy_contents [of N "me_free_list e" "[]"] destroy_contents [of N "me_order_queue e" "[]"]
      assms by (auto simp: engine_inv_def)
  obtain h where "free_all (contents (me_order_queue e)) (me_heap e) = Inr h" "live h = {}"
    using free_all_live [of "contents (me_order_queue e)" "me_heap e"] assms
    by (auto simp: engine_inv_def)
  then show ?thesis
    using d same by (simp add: MatchingEngine_destroy_def Let_def)
qed

text \<open>C16: no command leaks and none is freed twice or used after being freed. A request never has
  undefined behaviour, whether or not the queue accepts it, and leaves exactly the queued commands
  allocated; the destructor ends and frees every remaining one.\<close>

theorem engine_memory_safe:
  assumes "engine_inv N e"
  shows "(\<exists>r. MatchingEngine_add_order N oom order e = Inr r \<and>
              (\<forall>e'. r = Inr e' \<longrightarrow> engine_inv N e')) \<and>
         (\<exists>r. MatchingEngine_cancel_order N oom junk i e = Inr r \<and>
              (\<forall>ok e'. r = Inr (ok, e') \<longrightarrow> engine_inv N e')) \<and>
         (\<exists>r. MatchingEngine_modify_order N oom junk i n p e = Inr r \<and>
              (\<forall>ok e'. r = Inr (ok, e') \<longrightarrow> engine_inv N e')) \<and>
         (\<exists>h fds. MatchingEngine_destroy N e = Some (Inr (h, fds)) \<and> live h = {})"
proof -
  have push: "\<exists>ok e'. push_command N cmd e = Inr (ok, e') \<and> engine_inv N e'" for cmd
    using push_command_spec [OF assms, of cmd] by blast
  have "\<exists>h fds. MatchingEngine_destroy N e = Some (Inr (h, fds)) \<and> live h = {}"
    using engine_destroy_frees [OF assms] by blast
  moreover have "\<exists>r. MatchingEngine_add_order N oom order e = Inr r \<and>
      (\<forall>e'. r = Inr e' \<longrightarrow> engine_inv N e')"
    using push [of order] by (auto simp: MatchingEngine_add_order_def)
  moreover have "\<exists>r. MatchingEngine_cancel_order N oom junk i e = Inr r \<and>
      (\<forall>ok e'. r = Inr (ok, e') \<longrightarrow> engine_inv N e')"
    using push by (force simp: MatchingEngine_cancel_order_def Let_def map_sum_id_eq_Inr)
  moreover have "\<exists>r. MatchingEngine_modify_order N oom junk i n p e = Inr r \<and>
      (\<forall>ok e'. r = Inr (ok, e') \<longrightarrow> engine_inv N e')"
    using push by (force simp: MatchingEngine_modify_order_def Let_def map_sum_id_eq_Inr)
  ultimately show ?thesis by blast
qed

theorem engine_memory_safe_witness:
  "\<exists>e h fds. MatchingEngine_add_order 3 False (sample_bid 1 100 5) (started_engine 3 4) = Inr (Inr e) \<and>
     pending e = [sample_bid 1 100 5] \<and> MatchingEngine_destroy 3 e = Some (Inr (h, fds)) \<and> live h = {}"
proof -
  obtain e where e: "MatchingEngine_add_order 3 False (sample_bid 1 100 5) (started_engine 3 4) = Inr (Inr e)"
      "engine_inv 3 e" "pending e = [sample_bid 1 100 5]"
    using one_pending by blast
  then show ?thesis
    using engine_memory_safe [OF e(2)] by blast
qed

text \<open>A request after the queue's budget is used up is lost. \<^verbatim>\<open>add_order\<close> then returns normally
  like for an accepted order, though nothing is queued; \<^verbatim>\<open>cancel_order\<close> and \<^verbatim>\<open>modify_order\<close> return
  false. This holds even when every earlier command has been processed.\<close>

theorem request_lost_after_lifetime:
  assumes "engine_inv N e" and "pushes_used e = N - 1"
  shows "(\<exists>e'. MatchingEngine_add_order N False order e = Inr (Inr e') \<and> pending e' = pending e \<and>
              me_order_books e' = me_order_books e \<and> pushes_used e' = N - 1) \<and>
         (\<exists>e'. MatchingEngine_cancel_order N False junk i e = Inr (Inr (False, e')) \<and>
              pending e' = pending e) \<and>
         (\<exists>e'. MatchingEngine_modify_order N False junk i n p e = Inr (Inr (False, e')) \<and>
              pending e' = pending e)"
proof -
  have push: "\<exists>e'. push_command N cmd e = Inr (False, e') \<and> pending e' = pending e \<and>
      me_order_books e' = me_order_books e \<and> pushes_used e' = N - 1" for cmd
    using push_command_spec [OF assms(1), of cmd] assms(2) by (auto simp: pushes_used_def)
  have "\<exists>e'. MatchingEngine_add_order N False order e = Inr (Inr e') \<and> pending e' = pending e \<and>
      me_order_books e' = me_order_books e \<and> pushes_used e' = N - 1"
    using push [of order] by (auto simp: MatchingEngine_add_order_def)
  moreover have "\<exists>e'. MatchingEngine_cancel_order N False junk i e = Inr (Inr (False, e')) \<and>
      pending e' = pending e"
    using push [of "(Order_default junk)\<lparr>ord_id := i, ord_command := CANCEL\<rparr>"]
    by (auto simp: MatchingEngine_cancel_order_def)
  moreover have "\<exists>e'. MatchingEngine_modify_order N False junk i n p e = Inr (Inr (False, e')) \<and>
      pending e' = pending e"
    using push [of "(Order_default junk)\<lparr>ord_id := i, ord_quantity := ucast n, ord_price := p,
        ord_command := MODIFY\<rparr>"]
    by (auto simp: MatchingEngine_modify_order_def)
  ultimately show ?thesis by blast
qed

theorem request_lost_after_lifetime_witness:
  "\<exists>e e'. engine_run 2 insertion_sort (\<lambda>_. None)
       [AddRequest False (sample_bid 1 100 5), WorkerTurn 1] (started_engine 2 4) = Inr (e, []) \<and>
     pending e = [] \<and> MatchingEngine_add_order 2 False (sample_ask 2 100 5) e = Inr (Inr e') \<and>
     pending e' = []"
proof -
  let ?evs = "[AddRequest False (sample_bid 1 100 5), WorkerTurn 1]"
  have ok: "symbol_ok (sample_bid 1 100 5)"
    by (simp add: symbol_ok_def sample_bid_def Order_make_def zero_in_strncpy)
  obtain e trades where r: "engine_run 2 insertion_sort (\<lambda>_. None) ?evs (started_engine 2 4) = Inr (e, trades)"
    "engine_inv 2 e" "pushes_used e = 2 - 1"
    using engine_run_moves [OF started_engine(1), of 2 4 ?evs insertion_sort "\<lambda>_. None"] ok
    by (auto simp: started_engine engine_moves_def)
  have "case engine_run 2 insertion_sort (\<lambda>_. None) ?evs (started_engine 2 4) of
          Inl _ \<Rightarrow> False | Inr (e, ts) \<Rightarrow> pending e = [] \<and> ts = []"
    by code_simp
  then have z: "pending e = []" "trades = []"
    unfolding r(1) by simp_all
  obtain e' where "MatchingEngine_add_order 2 False (sample_ask 2 100 5) e = Inr (Inr e')"
    "pending e' = pending e"
    using request_lost_after_lifetime [OF r(2,3), of "sample_ask 2 100 5"] by blast
  then show ?thesis
    using r(1) z by metis
qed

text \<open>C11: the books stay consistent and a cancel is effective. From a state in which every book is
  well-formed, holds only its own symbol's orders, has no identifier on both sides and the index
  knows the book of every resting order, a command (with a new identifier, if it adds an order)
  leads to such a state; and after a cancel no order with its identifier rests anywhere.\<close>

theorem books_invariant_and_cancel:
  assumes "std_sort srt" and "books_inv books ids" and "fresh_id books cmd"
    and "apply_command srt cmd books ids = Inr (books', ids', trades)"
  shows "books_inv books' ids' \<and>
         (ord_command cmd = CANCEL \<longrightarrow>
            (\<forall>symbol book. books' symbol = Some book \<longrightarrow> \<not> rests (ord_id cmd) book))"
proof -
  note s = order_sorting.intro [OF assms(1)]
  have "\<forall>symbol book. books' symbol = Some book \<longrightarrow> \<not> rests (ord_id cmd) book"
    if "ord_command cmd = CANCEL"
    using order_sorting.apply_cancel_books_inv [OF s assms(2), of cmd] assms(4) that
    by (auto simp: apply_command_def split: prod.splits)
  then show ?thesis
    using order_sorting.apply_command_books_inv [OF s assms(2-4)] by blast
qed

theorem books_invariant_and_cancel_witness:
  "\<exists>books' ids' trades. apply_command insertion_sort (sample_bid 1 100 5) Map.empty Map.empty =
     Inr (books', ids', trades) \<and> books_inv books' ids'"
proof -
  have "books_inv Map.empty Map.empty" "fresh_id Map.empty (sample_bid 1 100 5)"
    by (simp_all add: books_inv_def fresh_id_def)
  moreover have "symbol_ok (sample_bid 1 100 5)"
    by (simp add: symbol_ok_def sample_bid_def Order_make_def zero_in_strncpy)
  moreover from this obtain r where
    "apply_command insertion_sort (sample_bid 1 100 5) Map.empty Map.empty = Inr r"
    using apply_command_total by blast
  ultimately show ?thesis
    using books_invariant_and_cancel [OF sample_sort, of Map.empty Map.empty "sample_bid 1 100 5"]
    by (metis prod_cases3)
qed

text \<open>The only undefined behaviour of the worker is an added order whose eight symbol bytes
  contain no NUL, and an order built from a symbol of eight or more characters is one: the worker
  faults on it when it reaches the front of the queue.\<close>

theorem worker_fault_iff_unterminated:
  assumes "engine_inv N e" and "pending e = cmd # rest"
  shows "(process_iteration N srt inet d e = Inl f \<longleftrightarrow>
            f = UnterminatedString \<and> ord_command cmd = ADD \<and> 0 \<notin> set (ord_symbol cmd)) \<and>
         (cmd = Order_make i p n symb buy \<longrightarrow>
            (0 \<notin> set (ord_symbol cmd) \<longleftrightarrow> 8 \<le> length (takeWhile nonzero symb)))"
proof -
  have "process_iteration N srt inet d e = Inl f \<longleftrightarrow>
        apply_command srt cmd (me_order_books e) (me_order_id_to_symbol e) = Inl f"
    using iteration_busy [OF assms, of srt inet d]
    by (cases "apply_command srt cmd (me_order_books e) (me_order_id_to_symbol e)") auto
  then show ?thesis
    by (auto simp: apply_command_fault symbol_ok_def Order_make_def zero_in_strncpy)
qed

theorem worker_fault_iff_unterminated_witness:
  "\<exists>e. engine_run 3 insertion_sort (\<lambda>_. None)
         [AddRequest False (Order_make 1 100 5 [66, 84, 67, 85, 83, 68, 84, 50] True)]
         (started_engine 3 4) = Inr (e, []) \<and>
       process_iteration 3 insertion_sort (\<lambda>_. None) 1 e = Inl UnterminatedString"
proof -
  let ?cmd = "Order_make 1 100 5 [66, 84, 67, 85, 83, 68, 84, 50] True"
  obtain h q where "engine_step 3 insertion_sort (\<lambda>_. None) (AddRequest False ?cmd) (started_engine 3 4) =
      Inr ((started_engine 3 4)\<lparr>me_heap := h, me_order_queue := q\<rparr>, [])"
    and e: "engine_inv 3 ((started_engine 3 4)\<lparr>me_heap := h, me_order_queue := q\<rparr>)"
      "pending ((started_engine 3 4)\<lparr>me_heap := h, me_order_queue := q\<rparr>) = [?cmd]"
    using request_step [OF started_engine(1) [of 3 4], of "AddRequest False ?cmd" insertion_sort "\<lambda>_. None"]
    by (auto simp: started_engine)
  then show ?thesis
    using worker_fault_iff_unterminated [OF e, of insertion_sort "\<lambda>_. None" 1 UnterminatedString
        1 100 5 "[66, 84, 67, 85, 83, 68, 84, 50]" True]
    by (simp add: Order_make_def)
qed

end
