(* ===== verification/Tcp_Server.thy ===== *)
theory Tcp_Server
  imports Message_Parser
begin

text \<open>
  \<^verbatim>\<open>network/tcp_server.h\<close> and \<^verbatim>\<open>network/tcp_server.cpp\<close>: the listening socket, the accept loop and
  the loop that serves one client. What the operating system answers is an input: the results
  of the calls, and for a loop the list of its turns, each with the value of \<^verbatim>\<open>m_running\<close> it
  observed. The calls made are an output, so that leaks and double closes can be stated. The
  handlers are optional functions on a state \<open>'st\<close> of the server's owner, with an argument
  \<open>'env\<close> for what they in turn read from the environment. The Windows branches are not modelled.
\<close>

section \<open>State\<close>

datatype worker = AcceptThread | ClientThread fd

datatype os_call =
    SysSocket
  | SysReuseAddr fd
  | SysBind fd u16
  | SysListen fd nat
  | SysAccept fd
  | SysNoDelay fd
  | SysClose fd
  | ThreadStart worker
  | ThreadJoin worker

type_synonym ('env, 'st) message_handler = "'env \<Rightarrow> fd \<Rightarrow> bytes \<Rightarrow> nat \<Rightarrow> 'st \<Rightarrow> 'st outcome"
type_synonym ('env, 'st) session_handler = "'env \<Rightarrow> fd \<Rightarrow> 'st \<Rightarrow> 'st outcome"

record ('env, 'st) TCPServer =
  ts_port :: u16
  ts_server_fd :: fd
  ts_running :: bool
  ts_worker_threads :: "worker list"
  ts_message_handler :: "('env, 'st) message_handler option"
  ts_connect_handler :: "('env, 'st) session_handler option"
  ts_disconnect_handler :: "('env, 'st) session_handler option"

section \<open>Lifecycle\<close>

definition TCPServer_new :: "u16 \<Rightarrow> ('env, 'st) TCPServer" where
  "TCPServer_new port =
     \<lparr>ts_port = port, ts_server_fd = -1, ts_running = False, ts_worker_threads = [],
      ts_message_handler = None, ts_connect_handler = None, ts_disconnect_handler = None\<rparr>"

definition TCPServer_set_message_handler ::
    "('env, 'st) message_handler \<Rightarrow> ('env, 'st) TCPServer \<Rightarrow> ('env, 'st) TCPServer" where
  "TCPServer_set_message_handler handler s = s\<lparr>ts_message_handler := Some handler\<rparr>"

definition TCPServer_set_connect_handler ::
    "('env, 'st) session_handler \<Rightarrow> ('env, 'st) TCPServer \<Rightarrow> ('env, 'st) TCPServer" where
  "TCPServer_set_connect_handler handler s = s\<lparr>ts_connect_handler := Some handler\<rparr>"

definition TCPServer_set_disconnect_handler ::
    "('env, 'st) session_handler \<Rightarrow> ('env, 'st) TCPServer \<Rightarrow> ('env, 'st) TCPServer" where
  "TCPServer_set_disconnect_handler handler s = s\<lparr>ts_disconnect_handler := Some handler\<rparr>"

text \<open>The port in network byte order.\<close>

definition htons :: "u16 \<Rightarrow> u16" where
  "htons p = push_bit 8 p OR drop_bit 8 p"

text \<open>The results of the socket calls, and whether the threads of the engine and of the accept loop can be created.\<close>

record os_results =
  res_socket :: int
  res_setsockopt :: int
  res_bind :: int
  res_listen :: int
  res_engine_thread :: bool
  res_accept_thread :: bool

definition TCPServer_start ::
    "os_results \<Rightarrow> ('env, 'st) TCPServer \<Rightarrow> start_result \<times> os_call list \<times> ('env, 'st) TCPServer" where
  "TCPServer_start r s =
     (let s1 = s\<lparr>ts_server_fd := res_socket r\<rparr>; sock = ts_server_fd s1 in
      if sock < 0 then (StartError ''Socket creation failed'', [SysSocket], s1)
      else if res_setsockopt r < 0 then
        (StartError ''Setsockopt failed'', [SysSocket, SysReuseAddr sock, SysClose sock], s1)
      else if res_bind r < 0 then
        (StartError (''Bind failed on port '' @ to_string (ts_port s1)),
         [SysSocket, SysReuseAddr sock, SysBind sock (htons (ts_port s1)), SysClose sock], s1)
      else if res_listen r < 0 then
        (StartError ''Listen failed'',
         [SysSocket, SysReuseAddr sock, SysBind sock (htons (ts_port s1)), SysListen sock 128,
          SysClose sock], s1)
      else let s2 = s1\<lparr>ts_running := True\<rparr> in
        if res_accept_thread r then
          (Started,
           [SysSocket, SysReuseAddr sock, SysBind sock (htons (ts_port s1)), SysListen sock 128,
            ThreadStart AcceptThread],
           s2\<lparr>ts_worker_threads := ts_worker_threads s2 @ [AcceptThread]\<rparr>)
        else
          (StartThrows,
           [SysSocket, SysReuseAddr sock, SysBind sock (htons (ts_port s1)), SysListen sock 128], s2))"

text \<open>
  A join returns when the thread has ended. \<open>ended w\<close> says that thread \<open>w\<close> does end; if one of the
  threads does not, \<^verbatim>\<open>stop\<close> never returns, which is the result \<open>None\<close>. The destructor is \<open>stop\<close>.
\<close>

definition TCPServer_stop ::
    "(worker \<Rightarrow> bool) \<Rightarrow> ('env, 'st) TCPServer \<Rightarrow> (os_call list \<times> ('env, 'st) TCPServer) option" where
  "TCPServer_stop ended s =
     (let s1 = s\<lparr>ts_running := False\<rparr>;
          (calls, s2) = (if 0 \<le> ts_server_fd s1
                         then ([SysClose (ts_server_fd s1)], s1\<lparr>ts_server_fd := -1\<rparr>) else ([], s1))
      in if list_all ended (ts_worker_threads s2)
         then Some (calls @ map ThreadJoin (ts_worker_threads s2), s2\<lparr>ts_worker_threads := []\<rparr>)
         else None)"

definition TCPServer_destroy ::
    "(worker \<Rightarrow> bool) \<Rightarrow> ('env, 'st) TCPServer \<Rightarrow> (os_call list \<times> ('env, 'st) TCPServer) option" where
  "TCPServer_destroy ended s = TCPServer_stop ended s"

section \<open>The loops\<close>

record accept_turn =
  at_running :: bool
  at_client_fd :: int
  at_nodelay :: int

fun accept_connections ::
    "accept_turn list \<Rightarrow> ('env, 'st) TCPServer \<Rightarrow> os_call list \<times> ('env, 'st) TCPServer" where
  "accept_connections [] s = ([], s)"
| "accept_connections (t # ts) s =
     (if \<not> at_running t then ([], s)
      else if at_client_fd t < 0 then
        (case accept_connections ts s of (calls, s') \<Rightarrow> (SysAccept (ts_server_fd s) # calls, s'))
      else
        (case accept_connections ts
                (s\<lparr>ts_worker_threads := ts_worker_threads s @ [ClientThread (at_client_fd t)]\<rparr>) of
           (calls, s') \<Rightarrow>
             ([SysAccept (ts_server_fd s), SysNoDelay (at_client_fd t),
               ThreadStart (ClientThread (at_client_fd t))] @ calls, s')))"

text \<open>
  One \<^verbatim>\<open>recv\<close>: an error, or the bytes received, none at the end of the stream. The kernel
  writes them to the front of the buffer and leaves the rest of it.
\<close>

datatype recv_result = RecvError | Received bytes

record 'env client_turn =
  ct_running :: bool
  ct_recv :: recv_result
  ct_env :: 'env

definition buffer_size :: nat where
  "buffer_size = 4096"

definition recv_into :: "bytes \<Rightarrow> bytes \<Rightarrow> bytes" where
  "recv_into data buffer = data @ drop (length data) buffer"

datatype client_status = Waiting | Finished

fun client_loop ::
    "('env, 'st) message_handler option \<Rightarrow> fd \<Rightarrow> bytes \<Rightarrow> 'env client_turn list \<Rightarrow> 'st \<Rightarrow>
     (client_status \<times> 'st) outcome" where
  "client_loop handler client_fd buffer [] st = Inr (Waiting, st)"
| "client_loop handler client_fd buffer (t # ts) st =
     (if \<not> ct_running t then Inr (Finished, st)
      else case ct_recv t of
        RecvError \<Rightarrow> Inr (Finished, st)
      | Received data \<Rightarrow>
          (if data = [] then Inr (Finished, st)
           else let buffer = recv_into data buffer in
             case handler of
               None \<Rightarrow> client_loop handler client_fd buffer ts st
             | Some f \<Rightarrow>
                 (case f (ct_env t) client_fd buffer (length data) st of
                    Inl e \<Rightarrow> Inl e
                  | Inr st' \<Rightarrow> client_loop handler client_fd buffer ts st')))"

definition call_session_handler ::
    "('env, 'st) session_handler option \<Rightarrow> 'env \<Rightarrow> fd \<Rightarrow> 'st \<Rightarrow> 'st outcome" where
  "call_session_handler handler env client_fd st =
     (case handler of None \<Rightarrow> Inr st | Some f \<Rightarrow> f env client_fd st)"

text \<open>\<open>junk\<close> is what the uninitialised buffer on the stack holds.\<close>

definition handle_client ::
    "('env, 'st) TCPServer \<Rightarrow> 'env \<Rightarrow> fd \<Rightarrow> bytes \<Rightarrow> 'env client_turn list \<Rightarrow> 'st \<Rightarrow>
     (client_status \<times> os_call list \<times> 'st) outcome" where
  "handle_client s env client_fd junk turns st =
     (case call_session_handler (ts_connect_handler s) env client_fd st of
        Inl e \<Rightarrow> Inl e
      | Inr st1 \<Rightarrow>
          (case client_loop (ts_message_handler s) client_fd junk turns st1 of
             Inl e \<Rightarrow> Inl e
           | Inr (Waiting, st2) \<Rightarrow> Inr (Waiting, [], st2)
           | Inr (Finished, st2) \<Rightarrow>
               (case call_session_handler (ts_disconnect_handler s) env client_fd st2 of
                  Inl e \<Rightarrow> Inl e
                | Inr st3 \<Rightarrow> Inr (Finished, [SysClose client_fd], st3))))"

section \<open>What a client sees\<close>

text \<open>
  The turns served are those before the first that sees the server stopped, an error or the
  end of the stream. The handler of a turn gets the received bytes followed by what earlier
  turns, or the stack, left in the buffer.
\<close>

definition turn_served :: "'env client_turn \<Rightarrow> bool" where
  "turn_served t \<longleftrightarrow> ct_running t \<and> (case ct_recv t of RecvError \<Rightarrow> False | Received data \<Rightarrow> data \<noteq> [])"

definition turn_data :: "'env client_turn \<Rightarrow> bytes" where
  "turn_data t = (case ct_recv t of RecvError \<Rightarrow> [] | Received data \<Rightarrow> data)"

definition turn_fits :: "'env client_turn \<Rightarrow> bool" where
  "turn_fits t \<longleftrightarrow> length (turn_data t) \<le> buffer_size"

fun served_calls :: "bytes \<Rightarrow> 'env client_turn list \<Rightarrow> ('env \<times> bytes \<times> nat) list" where
  "served_calls buffer [] = []"
| "served_calls buffer (t # ts) =
     (if turn_served t
      then let buffer = recv_into (turn_data t) buffer
           in (ct_env t, buffer, length (turn_data t)) # served_calls buffer ts
      else [])"

fun call_all :: "('env, 'st) message_handler \<Rightarrow> fd \<Rightarrow> ('env \<times> bytes \<times> nat) list \<Rightarrow> 'st \<Rightarrow> 'st outcome" where
  "call_all f client_fd [] st = Inr st"
| "call_all f client_fd ((env, buffer, n) # calls) st =
     (case f env client_fd buffer n st of Inl e \<Rightarrow> Inl e | Inr st' \<Rightarrow> call_all f client_fd calls st')"

lemma length_recv_into [simp]:
  "length data \<le> length buffer \<Longrightarrow> length (recv_into data buffer) = length buffer"
  by (simp add: recv_into_def)

lemma take_recv_into [simp]: "take (length data) (recv_into data buffer) = data"
  and drop_recv_into [simp]: "drop (length data) (recv_into data buffer) = drop (length data) buffer"
  by (simp_all add: recv_into_def)

lemma client_loop_calls:
  "client_loop (Some f) client_fd buffer turns st =
     map_sum id (\<lambda>st'. (if \<forall>t\<in>set turns. turn_served t then Waiting else Finished, st'))
       (call_all f client_fd (served_calls buffer turns) st)"
proof (induction turns arbitrary: buffer st)
  case Nil
  then show ?case by simp
next
  case (Cons t ts)
  show ?case
    by (cases "ct_running t"; cases "ct_recv t")
       (auto simp: Cons.IH turn_served_def turn_data_def Let_def split: sum.split)
qed

lemma served_calls_length:
  assumes "length buffer = buffer_size" and "\<forall>t\<in>set turns. turn_fits t"
    and "(env, buffer', n) \<in> set (served_calls buffer turns)"
  shows "length buffer' = buffer_size \<and> 0 < n \<and> n \<le> buffer_size"
  using assms
proof (induction turns arbitrary: buffer)
  case Nil
  then show ?case by simp
next
  case (Cons t ts)
  show ?case
  proof (cases "turn_served t")
    case True
    have fits: "length (turn_data t) \<le> length buffer"
      using Cons.prems by (simp add: turn_fits_def)
    have "turn_data t \<noteq> []"
      using True by (auto simp: turn_served_def turn_data_def split: recv_result.splits)
    then show ?thesis
      using Cons.IH [of "recv_into (turn_data t) buffer"] Cons.prems True fits
      by (auto simp: Let_def)
  qed (use Cons.prems in simp)
qed

section \<open>The contract between the server and its owner\<close>

text \<open>
  The owner's handlers keep an invariant \<open>inv\<close> of its state and have no undefined behaviour on
  the calls \<open>good\<close> describes; then no client of the server can break the invariant.
\<close>

locale session_owner =
  fixes on_connect :: "('env, 'st) session_handler"
    and on_message :: "('env, 'st) message_handler"
    and on_disconnect :: "('env, 'st) session_handler"
    and inv :: "'st \<Rightarrow> bool"
    and good :: "bytes \<Rightarrow> nat \<Rightarrow> bool"
  assumes connect_inv: "inv st \<Longrightarrow> \<exists>st'. on_connect env client_fd st = Inr st' \<and> inv st'"
    and message_inv: "inv st \<Longrightarrow> good buffer n \<Longrightarrow>
      \<exists>st'. on_message env client_fd buffer n st = Inr st' \<and> inv st'"
    and disconnect_inv: "inv st \<Longrightarrow> \<exists>st'. on_disconnect env client_fd st = Inr st' \<and> inv st'"
begin

lemma call_all_inv:
  "inv st \<Longrightarrow> \<forall>(env, buffer, n)\<in>set calls. good buffer n \<Longrightarrow>
   \<exists>st'. call_all on_message client_fd calls st = Inr st' \<and> inv st'"
proof (induction calls arbitrary: st)
  case Nil
  then show ?case by simp
next
  case (Cons c calls)
  obtain env buffer n where c: "c = (env, buffer, n)" by (cases c)
  then obtain st' where "on_message env client_fd buffer n st = Inr st'" "inv st'"
    using message_inv [of st buffer n env client_fd] Cons.prems by auto
  then show ?case
    using Cons.IH [of st'] Cons.prems c by simp
qed

lemma handle_client_inv:
  assumes "inv st" and "ts_connect_handler s = Some on_connect"
    and "ts_message_handler s = Some on_message" and "ts_disconnect_handler s = Some on_disconnect"
    and "\<forall>(env, buffer, n)\<in>set (served_calls junk turns). good buffer n"
  shows "\<exists>status calls st'. handle_client s env client_fd junk turns st = Inr (status, calls, st') \<and>
           inv st' \<and> (status = Finished \<longrightarrow> calls = [SysClose client_fd])"
proof -
  obtain st1 where 1: "on_connect env client_fd st = Inr st1" "inv st1"
    using connect_inv [OF assms(1)] by blast
  obtain st2 where 2: "call_all on_message client_fd (served_calls junk turns) st1 = Inr st2" "inv st2"
    using call_all_inv [OF 1(2) assms(5)] by blast
  obtain st3 where 3: "on_disconnect env client_fd st2 = Inr st3" "inv st3"
    using disconnect_inv [OF 2(2)] by blast
  show ?thesis
    using 1 2 3 assms(2-4)
    by (simp add: handle_client_def call_session_handler_def client_loop_calls)
qed

end

section \<open>Results\<close>

text \<open>\<^verbatim>\<open>start\<close> leaves a running server with its accept thread, or reports or throws an error and adds no
  thread; on a reported error the socket it created is closed again.\<close>

theorem start_outcomes:
  assumes "TCPServer_start r s = (result, calls, s')"
  shows "(result = Started \<longrightarrow> ts_running s' \<and> ts_worker_threads s' = ts_worker_threads s @ [AcceptThread] \<and>
            (\<forall>c. SysClose c \<notin> set calls)) \<and>
         (result \<noteq> Started \<longrightarrow> ts_worker_threads s' = ts_worker_threads s) \<and>
         (\<forall>msg. result = StartError msg \<longrightarrow> ts_running s' = ts_running s \<and>
            (0 \<le> res_socket r \<longrightarrow> last calls = SysClose (res_socket r)))"
  using assms by (auto simp: TCPServer_start_def Let_def split: if_splits)

definition failed_bind :: os_results where
  "failed_bind = \<lparr>res_socket = 3, res_setsockopt = 0, res_bind = -1, res_listen = 0,
                  res_engine_thread = True, res_accept_thread = True\<rparr>"

theorem start_outcomes_witness:
  "\<exists>msg calls s.
     TCPServer_start failed_bind (TCPServer_new 8080 :: (unit, unit) TCPServer) = (StartError msg, calls, s) \<and>
     \<not> ts_running s \<and> last calls = SysClose 3"
proof -
  obtain msg calls s where
    e: "TCPServer_start failed_bind (TCPServer_new 8080 :: (unit, unit) TCPServer) = (StartError msg, calls, s)"
    by (simp add: TCPServer_start_def failed_bind_def)
  then show ?thesis
    using start_outcomes [OF e] by (simp add: TCPServer_new_def failed_bind_def)
qed

text \<open>A failed \<^verbatim>\<open>start\<close> keeps the number of the socket it has closed, so the destructor
  closes that number a second time; by then the process may have given it to another file.
  After a successful start, when the thread could not be created, or when there is no socket, the
  descriptor is closed exactly as often as it was opened.\<close>

theorem closes_of_server_socket:
  assumes "TCPServer_start r s = (result, calls, s')" and "ts_worker_threads s = []"
    and "TCPServer_destroy ended s' = Some (calls', s'')"
  shows "count (mset (calls @ calls')) (SysClose (res_socket r)) =
           (if res_socket r < 0 then 0 else if \<exists>msg. result = StartError msg then 2 else 1) \<and>
         ts_server_fd s'' < 0 \<and> \<not> ts_running s''"
  using assms
  by (auto simp: TCPServer_start_def TCPServer_stop_def TCPServer_destroy_def Let_def
      split: if_splits)

lemma TCPServer_stop_eq:
  "TCPServer_stop ended s =
     (if list_all ended (ts_worker_threads s)
      then Some ((if 0 \<le> ts_server_fd s then [SysClose (ts_server_fd s)] else []) @
                   map ThreadJoin (ts_worker_threads s),
                 s\<lparr>ts_running := False, ts_server_fd := (if 0 \<le> ts_server_fd s then -1 else ts_server_fd s),
                   ts_worker_threads := []\<rparr>)
      else None)"
  by (simp add: TCPServer_stop_def Let_def)

theorem closes_of_server_socket_witness:
  "\<exists>msg calls s calls' s'.
     TCPServer_start failed_bind (TCPServer_new 8080 :: (unit, unit) TCPServer) = (StartError msg, calls, s) \<and>
     TCPServer_destroy (\<lambda>_. True) s = Some (calls', s') \<and> count (mset (calls @ calls')) (SysClose 3) = 2"
proof -
  obtain msg calls s where
    e: "TCPServer_start failed_bind (TCPServer_new 8080 :: (unit, unit) TCPServer) = (StartError msg, calls, s)"
    by (simp add: TCPServer_start_def failed_bind_def)
  obtain calls' s' where d: "TCPServer_destroy (\<lambda>_. True) s = Some (calls', s')"
    by (simp add: TCPServer_destroy_def TCPServer_stop_eq list_all_iff)
  show ?thesis
    using closes_of_server_socket [OF e _ d] e d by (auto simp: TCPServer_new_def failed_bind_def)
qed

text \<open>The clients the accept loop accepts.\<close>

definition accepted_fds :: "accept_turn list \<Rightarrow> fd list" where
  "accepted_fds turns = filter (\<lambda>c. 0 \<le> c) (map at_client_fd (takeWhile at_running turns))"

lemma accept_connections_threads:
  "accept_connections turns s = (calls, s') \<Longrightarrow>
   s' = s\<lparr>ts_worker_threads := ts_worker_threads s @ map ClientThread (accepted_fds turns)\<rparr> \<and>
   filter (\<lambda>c. \<exists>w. c = ThreadStart w) calls = map (\<lambda>c. ThreadStart (ClientThread c)) (accepted_fds turns) \<and>
   (\<forall>c. SysClose c \<notin> set calls)"
  by (induction turns s arbitrary: calls s' rule: accept_connections.induct)
     (auto simp: accepted_fds_def split: prod.splits if_splits)

text \<open>Every accepted connection gets one thread, in the order of the accepts, failed accepts
  none, and none after the server has stopped; \<^verbatim>\<open>stop\<close> closes the listening socket and then joins
  all of them, but closes no client's socket: it returns exactly if all of them end by themselves, so a
  client that keeps its connection open without sending keeps \<^verbatim>\<open>stop\<close> from returning.\<close>

theorem accepted_threads_joined:
  assumes "accept_connections turns s = (calls, s')"
  shows "ts_worker_threads s' = ts_worker_threads s @ map ClientThread (accepted_fds turns) \<and>
         filter (\<lambda>c. \<exists>w. c = ThreadStart w) calls = map (\<lambda>c. ThreadStart (ClientThread c)) (accepted_fds turns) \<and>
         (if \<forall>w\<in>set (ts_worker_threads s'). ended w
          then \<exists>s''. TCPServer_stop ended s' =
                 Some ((if 0 \<le> ts_server_fd s then [SysClose (ts_server_fd s)] else []) @
                       map ThreadJoin (ts_worker_threads s'), s'') \<and> ts_worker_threads s'' = []
          else TCPServer_stop ended s' = None)"
  using accept_connections_threads [OF assms] by (auto simp: TCPServer_stop_eq list_all_iff)

definition sample_turns :: "accept_turn list" where
  "sample_turns =
     [\<lparr>at_running = True, at_client_fd = 5, at_nodelay = 0\<rparr>,
      \<lparr>at_running = True, at_client_fd = -1, at_nodelay = 0\<rparr>,
      \<lparr>at_running = False, at_client_fd = 6, at_nodelay = 0\<rparr>]"

theorem accepted_threads_joined_witness:
  "\<exists>calls s'. accept_connections sample_turns
      ((TCPServer_new 8080 :: (unit, unit) TCPServer)\<lparr>ts_server_fd := 3, ts_running := True\<rparr>) = (calls, s') \<and>
     ts_worker_threads s' = [ClientThread 5] \<and> TCPServer_stop (\<lambda>_. False) s' = None"
proof -
  let ?s = "(TCPServer_new 8080 :: (unit, unit) TCPServer)\<lparr>ts_server_fd := 3, ts_running := True\<rparr>"
  obtain calls s' where a: "accept_connections sample_turns ?s = (calls, s')" by (metis surj_pair)
  show ?thesis
    using accepted_threads_joined [OF a, of "\<lambda>_. False"] a
    by (simp add: TCPServer_new_def sample_turns_def accepted_fds_def)
qed

text \<open>What the message handler is called with. A connection calls the connect handler once,
  then the message handler once for each \<^verbatim>\<open>recv\<close> that returned data, in order, then, when it
  ends, the disconnect handler and \<^verbatim>\<open>close\<close> once each. The buffer always has 4096 bytes of which
  the first \<open>n\<close> are the data of this \<^verbatim>\<open>recv\<close>; the following ones are those an earlier message, or
  the stack, left there.\<close>

theorem handle_client_calls:
  assumes "ts_connect_handler s = Some f" and "ts_message_handler s = Some g"
    and "ts_disconnect_handler s = Some h" and "f env client_fd st = Inr st1"
    and "call_all g client_fd (served_calls junk turns) st1 = Inr st2"
    and "h env client_fd st2 = Inr st3"
    and "length junk = buffer_size" and "\<forall>t\<in>set turns. turn_fits t"
  shows "handle_client s env client_fd junk turns st =
           Inr (if \<forall>t\<in>set turns. turn_served t then (Waiting, [], st2)
                else (Finished, [SysClose client_fd], st3)) \<and>
         map (\<lambda>(env, buffer, n). take n buffer) (served_calls junk turns) =
           map turn_data (takeWhile turn_served turns) \<and>
         (\<forall>(env, buffer, n)\<in>set (served_calls junk turns). length buffer = buffer_size \<and> n \<le> buffer_size)"
proof -
  have "map (\<lambda>(env, buffer, n). take n buffer) (served_calls junk turns) =
           map turn_data (takeWhile turn_served turns)"
    by (induction junk turns rule: served_calls.induct) (simp_all add: Let_def)
  moreover have "\<forall>(env, buffer, n)\<in>set (served_calls junk turns).
      length buffer = buffer_size \<and> n \<le> buffer_size"
    using served_calls_length [OF assms(7,8)] by blast
  ultimately show ?thesis
    using assms(1-6)
    by (simp add: handle_client_def call_session_handler_def client_loop_calls)
qed

text \<open>A server whose handlers record their calls.\<close>

definition recording_server :: "(unit, (bytes \<times> nat) list) TCPServer" where
  "recording_server =
     TCPServer_set_disconnect_handler (\<lambda>_ _. Inr)
       (TCPServer_set_connect_handler (\<lambda>_ _. Inr)
         (TCPServer_set_message_handler (\<lambda>_ _ buffer n log. Inr (log @ [(buffer, n)]))
           (TCPServer_new 8080)))"

theorem handle_client_calls_witness:
  "handle_client recording_server () 7 (replicate buffer_size 0)
     [\<lparr>ct_running = True, ct_recv = Received [1, 2, 3], ct_env = ()\<rparr>,
      \<lparr>ct_running = True, ct_recv = Received [9], ct_env = ()\<rparr>,
      \<lparr>ct_running = True, ct_recv = Received [], ct_env = ()\<rparr>] [] =
   Inr (Finished, [SysClose 7],
        [([1, 2, 3] @ replicate 4093 0, 3), ([9, 2, 3] @ replicate 4093 0, 1)])"
proof -
  let ?turns = "[\<lparr>ct_running = True, ct_recv = Received [1, 2, 3], ct_env = ()\<rparr>,
      \<lparr>ct_running = True, ct_recv = Received [9], ct_env = ()\<rparr>,
      \<lparr>ct_running = True, ct_recv = Received [], ct_env = ()\<rparr>]"
  have c: "call_all (\<lambda>_ _ buffer n log. Inr (log @ [(buffer, n)])) 7
          (served_calls (replicate buffer_size 0) ?turns) [] =
        Inr [([1, 2, 3] @ replicate 4093 0, 3), ([9, 2, 3] @ replicate 4093 0, 1)]"
    by (simp add: turn_served_def turn_data_def recv_into_def buffer_size_def Let_def)
  show ?thesis
    using handle_client_calls [of recording_server "\<lambda>_ _. Inr"
        "\<lambda>_ _ buffer n log. Inr (log @ [(buffer, n)])" "\<lambda>_ _. Inr", OF _ _ _ _ c]
    by (simp add: recording_server_def TCPServer_set_message_handler_def TCPServer_new_def
        TCPServer_set_connect_handler_def TCPServer_set_disconnect_handler_def turn_served_def
        turn_fits_def turn_data_def buffer_size_def)
qed

end
