(* ===== verification/Gateway_Server.thy ===== *)
theory Gateway_Server
  imports Matching_Engine Tcp_Server
begin

text \<open>
  \<^verbatim>\<open>order_gateway/gateway_server.h\<close> and \<^verbatim>\<open>order_gateway/gateway_server.cpp\<close>: the handlers of the
  server that connects clients to the matching engine. The part of its
  state that the handlers work on is \<open>GatewayCore\<close>; the calls to \<^verbatim>\<open>send\<close> are logged in it. What
  the handlers read from the environment is a record: whether \<^verbatim>\<open>new\<close> throws, what uninitialised
  memory holds, the clock, the random number. A handler runs as one step here; its critical
  sections under \<^verbatim>\<open>m_session_mutex\<close> are finer. Log output is not modelled.
\<close>

section \<open>State\<close>

record gateway_env =
  env_oom :: bool
  env_junk :: Order
  env_stack :: "nat \<Rightarrow> byte"
  env_now :: u64
  env_send_now :: u64
  env_random :: nat

record GatewayCore =
  gc_matching_engine :: MatchingEngine
  gc_client_sessions :: "fd \<rightharpoonup> string"
  gc_order_to_client :: "u64 \<rightharpoonup> fd"
  gc_sent :: "(fd \<times> bytes) list"

section \<open>Answers\<close>

text \<open>A local array of \<open>n\<close> bytes, not initialised.\<close>

definition stack_array :: "gateway_env \<Rightarrow> nat \<Rightarrow> bytes" where
  "stack_array env n = map (env_stack env) [0..<n]"

definition send_bytes :: "fd \<Rightarrow> nat \<Rightarrow> bytes \<Rightarrow> GatewayCore \<Rightarrow> GatewayCore" where
  "send_bytes client_fd message_size buffer g =
     (if 0 < message_size then g\<lparr>gc_sent := gc_sent g @ [(client_fd, take message_size buffer)]\<rparr> else g)"

definition send_order_ack ::
    "gateway_env \<Rightarrow> fd \<Rightarrow> u64 \<Rightarrow> bool \<Rightarrow> string \<Rightarrow> GatewayCore \<Rightarrow> GatewayCore outcome" where
  "send_order_ack env client_fd order_id accepted reason g =
     (let ack = \<lparr>ack_order_id = order_id, ack_accepted = accepted, ack_timestamp = env_now env,
                 ack_reason = (strncpy (64 - 1) (bytes_of reason) @ [0])[64 - 1 := 0]\<rparr>;
          buffer = stack_array env (sizeof_MessageHeader + sizeof_OrderAck)
      in map_sum id (\<lambda>(message_size, buffer). send_bytes client_fd message_size buffer g)
           (serialize_order_ack ack buffer (env_send_now env)))"

definition send_trade_notification ::
    "gateway_env \<Rightarrow> fd \<Rightarrow> Trade \<Rightarrow> GatewayCore \<Rightarrow> GatewayCore outcome" where
  "send_trade_notification env client_fd trade g =
     (let buffer = stack_array env (sizeof_MessageHeader + sizeof_Trade)
      in map_sum id (\<lambda>(message_size, buffer). send_bytes client_fd message_size buffer g)
           (serialize_trade trade buffer (env_send_now env)))"

section \<open>Requests\<close>

definition handle_new_order ::
    "nat \<Rightarrow> gateway_env \<Rightarrow> fd \<Rightarrow> NewOrder \<Rightarrow> GatewayCore \<Rightarrow> GatewayCore outcome" where
  "handle_new_order N env client_fd order g =
     (case cstr (no_symbol order) of
        Inl f \<Rightarrow> Inl f
      | Inr symbol \<Rightarrow>
          (let g1 = g\<lparr>gc_order_to_client := (gc_order_to_client g)(no_order_id order \<mapsto> client_fd)\<rparr>;
               core_order = Order_make (no_order_id order) (no_price order)
                 (ucast (no_quantity order)) symbol (no_side order = of_char (CHR ''B''))
           in case MatchingEngine_add_order N (env_oom env) core_order (gc_matching_engine g1) of
                Inl f \<Rightarrow> Inl f
              | Inr (Inl e) \<Rightarrow>
                  send_order_ack env client_fd (no_order_id order) False (exn_what e) g1
              | Inr (Inr engine) \<Rightarrow>
                  send_order_ack env client_fd (no_order_id order) True ''''
                    (g1\<lparr>gc_matching_engine := engine\<rparr>)))"

definition handle_cancel_order ::
    "nat \<Rightarrow> gateway_env \<Rightarrow> fd \<Rightarrow> CancelOrder \<Rightarrow> GatewayCore \<Rightarrow> GatewayCore outcome" where
  "handle_cancel_order N env client_fd order g =
     (case MatchingEngine_cancel_order N (env_oom env) (env_junk env) (co_order_id order)
             (gc_matching_engine g) of
        Inl f \<Rightarrow> Inl f
      | Inr (Inl e) \<Rightarrow> send_order_ack env client_fd (co_order_id order) False (exn_what e) g
      | Inr (Inr (success, engine)) \<Rightarrow>
          send_order_ack env client_fd (co_order_id order) success
            (if success then '''' else ''Cancel request rejected (queue full)'')
            (g\<lparr>gc_matching_engine := engine\<rparr>))"

definition handle_modify_order ::
    "nat \<Rightarrow> gateway_env \<Rightarrow> fd \<Rightarrow> ModifyOrder \<Rightarrow> GatewayCore \<Rightarrow> GatewayCore outcome" where
  "handle_modify_order N env client_fd order g =
     (case MatchingEngine_modify_order N (env_oom env) (env_junk env) (mo_order_id order)
             (mo_new_quantity order) (mo_new_price order) (gc_matching_engine g) of
        Inl f \<Rightarrow> Inl f
      | Inr (Inl e) \<Rightarrow> send_order_ack env client_fd (mo_order_id order) False (exn_what e) g
      | Inr (Inr (success, engine)) \<Rightarrow>
          send_order_ack env client_fd (mo_order_id order) success
            (if success then '''' else ''Modify request rejected (queue full)'')
            (g\<lparr>gc_matching_engine := engine\<rparr>))"

section \<open>The handlers the constructor installs\<close>

text \<open>The message handler; \<open>data\<close> is the whole receive buffer, \<open>n\<close> the number of bytes received.\<close>

definition on_message :: "nat \<Rightarrow> (gateway_env, GatewayCore) message_handler" where
  "on_message N env client_fd data n g =
     (if n < sizeof_MessageHeader then Inr g
      else case parse_header data n of
        Inl f \<Rightarrow> Inl f
      | Inr header \<Rightarrow>
          (case validate_message header (drop sizeof_MessageHeader data) of
             Inl f \<Rightarrow> Inl f
           | Inr valid \<Rightarrow>
               (if \<not> valid then Inr g
                else if mh_type header = message_type_code NEW_ORDER then
                  (case parse_new_order (drop sizeof_MessageHeader data) of
                     Inl f \<Rightarrow> Inl f
                   | Inr order \<Rightarrow> handle_new_order N env client_fd order g)
                else if mh_type header = message_type_code CANCEL_ORDER then
                  (case parse_cancel_order (drop sizeof_MessageHeader data) of
                     Inl f \<Rightarrow> Inl f
                   | Inr order \<Rightarrow> handle_cancel_order N env client_fd order g)
                else if mh_type header = message_type_code MODIFY_ORDER then
                  (case parse_modify_order (drop sizeof_MessageHeader data) of
                     Inl f \<Rightarrow> Inl f
                   | Inr order \<Rightarrow> handle_modify_order N env client_fd order g)
                else Inr g)))"

text \<open>
  The trade callback. The two lookups are one critical section, the two sends follow it; each
  \<^verbatim>\<open>send\<close> reads the clock again.
\<close>

definition client_of :: "u64 \<Rightarrow> GatewayCore \<Rightarrow> fd" where
  "client_of order_id g = (case gc_order_to_client g order_id of Some c \<Rightarrow> c | None \<Rightarrow> -1)"

definition lookup_clients :: "Trade \<Rightarrow> GatewayCore \<Rightarrow> fd \<times> fd" where
  "lookup_clients trade g = (client_of (tr_buy_order_id trade) g, client_of (tr_sell_order_id trade) g)"

definition notify_clients ::
    "gateway_env \<Rightarrow> gateway_env \<Rightarrow> fd \<times> fd \<Rightarrow> Trade \<Rightarrow> GatewayCore \<Rightarrow> GatewayCore outcome" where
  "notify_clients env env' clients trade g =
     (case clients of (buyer_fd, seller_fd) \<Rightarrow>
        (case (if buyer_fd \<noteq> -1 then send_trade_notification env buyer_fd trade g else Inr g) of
           Inl f \<Rightarrow> Inl f
         | Inr g1 \<Rightarrow> if seller_fd \<noteq> -1 then send_trade_notification env' seller_fd trade g1 else Inr g1))"

definition on_trade ::
    "gateway_env \<Rightarrow> gateway_env \<Rightarrow> Trade \<Rightarrow> GatewayCore \<Rightarrow> GatewayCore outcome" where
  "on_trade env env' trade g = notify_clients env env' (lookup_clients trade g) trade g"

text \<open>
  One turn of the engine's worker with the callback installed; it is called for each trade of
  the turn in order. The environments of the two sends of the \<open>k\<close>-th trade are those at \<open>2 * k\<close>
  and \<open>2 * k + 1\<close>.
\<close>

fun deliver_trades ::
    "(nat \<Rightarrow> gateway_env) \<Rightarrow> nat \<Rightarrow> Trade list \<Rightarrow> GatewayCore \<Rightarrow> GatewayCore outcome" where
  "deliver_trades envs k [] g = Inr g"
| "deliver_trades envs k (trade # trades) g =
     (case on_trade (envs (2 * k)) (envs (2 * k + 1)) trade g of
        Inl f \<Rightarrow> Inl f
      | Inr g' \<Rightarrow> deliver_trades envs (Suc k) trades g')"

definition gateway_worker ::
    "nat \<Rightarrow> order_sort \<Rightarrow> (string \<Rightarrow> u32 option) \<Rightarrow> (nat \<Rightarrow> gateway_env) \<Rightarrow> u64 \<Rightarrow>
     GatewayCore \<Rightarrow> GatewayCore outcome" where
  "gateway_worker N srt inet_pton envs duration_us g =
     (case process_orders N srt inet_pton [duration_us] (gc_matching_engine g) of
        Inl f \<Rightarrow> Inl f
      | Inr turn \<Rightarrow>
          deliver_trades envs 0 (it_callbacks turn) (g\<lparr>gc_matching_engine := it_engine turn\<rparr>))"

definition generate_session_id :: "gateway_env \<Rightarrow> string" where
  "generate_session_id env = ''session_'' @ decimal (env_random env)"

definition register_client :: "(gateway_env, GatewayCore) session_handler" where
  "register_client env client_fd g =
     Inr (g\<lparr>gc_client_sessions := (gc_client_sessions g)(client_fd \<mapsto> generate_session_id env)\<rparr>)"

definition unregister_client :: "(gateway_env, GatewayCore) session_handler" where
  "unregister_client env client_fd g =
     Inr (g\<lparr>gc_client_sessions := (gc_client_sessions g)(client_fd := None),
            gc_order_to_client := (\<lambda>i. if gc_order_to_client g i = Some client_fd then None
                                       else gc_order_to_client g i)\<rparr>)"

section \<open>What the answers are\<close>

definition ack_of :: "gateway_env \<Rightarrow> u64 \<Rightarrow> bool \<Rightarrow> string \<Rightarrow> OrderAck" where
  "ack_of env order_id accepted reason =
     \<lparr>ack_order_id = order_id, ack_accepted = accepted, ack_timestamp = env_now env,
      ack_reason = strncpy 63 (bytes_of reason) @ [0]\<rparr>"

definition ack_frame :: "gateway_env \<Rightarrow> u64 \<Rightarrow> bool \<Rightarrow> string \<Rightarrow> bytes" where
  "ack_frame env order_id accepted reason =
     frame (message_type_code ORDER_ACK) (env_send_now env)
       (OrderAck_bytes (ack_of env order_id accepted reason))"

definition trade_frame :: "gateway_env \<Rightarrow> Trade \<Rightarrow> bytes" where
  "trade_frame env trade = frame (message_type_code TRADE) (env_send_now env) (Trade_bytes trade)"

lemma length_stack_array [simp]: "length (stack_array env n) = n"
  by (simp add: stack_array_def)

lemma ack_of_reason [simp]: "length (ack_reason (ack_of env i ok reason)) = 64"
  by (simp add: ack_of_def)

lemma send_bytes_frame:
  "send_bytes c (sizeof_MessageHeader + length payload) (frame code now payload @ rest) g =
   g\<lparr>gc_sent := gc_sent g @ [(c, frame code now payload)]\<rparr>"
  by (simp add: send_bytes_def sizeof_defs frame_def)

lemma send_order_ack_eq:
  "send_order_ack env c i ok reason g =
     Inr (g\<lparr>gc_sent := gc_sent g @ [(c, ack_frame env i ok reason)]\<rparr>)"
proof -
  let ?ack = "\<lparr>ack_order_id = i, ack_accepted = ok, ack_timestamp = env_now env,
               ack_reason = (strncpy (64 - 1) (bytes_of reason) @ [0])[64 - 1 := 0]\<rparr>"
  have ack: "?ack = ack_of env i ok reason"
    by (simp add: ack_of_def list_update_append)
  have "serialize_order_ack ?ack (stack_array env (sizeof_MessageHeader + sizeof_OrderAck))
          (env_send_now env) =
        Inr (sizeof_MessageHeader + length (OrderAck_bytes (ack_of env i ok reason)),
             ack_frame env i ok reason @ [])"
    unfolding serialize_order_ack_def ack ack_frame_def
    by (subst serialize_message_frame [where n = sizeof_OrderAck]) (simp_all add: payload_size_of_def)
  then show ?thesis
    unfolding send_order_ack_def Let_def ack_frame_def
    by (simp only: map_sum.simps prod.case send_bytes_frame)
qed

lemma send_trade_notification_eq:
  assumes "length (tr_symbol t) = 8"
  shows "send_trade_notification env c t g =
           Inr (g\<lparr>gc_sent := gc_sent g @ [(c, trade_frame env t)]\<rparr>)"
proof -
  have "serialize_trade t (stack_array env (sizeof_MessageHeader + sizeof_Trade)) (env_send_now env) =
        Inr (sizeof_MessageHeader + length (Trade_bytes t), trade_frame env t @ [])"
    unfolding serialize_trade_def trade_frame_def using assms
    by (subst serialize_message_frame [where n = sizeof_Trade]) (simp_all add: payload_size_of_def)
  then show ?thesis
    unfolding send_trade_notification_def Let_def trade_frame_def
    by (simp only: map_sum.simps prod.case send_bytes_frame)
qed

section \<open>Requests as the engine sees them\<close>

text \<open>
  The specification of the message handler: what request, if any, the bytes of the buffer are,
  the event of the engine it causes, and the answer. The number of received bytes matters only
  in being at least the size of a header.
\<close>

datatype request = ReqNew NewOrder | ReqCancel CancelOrder | ReqModify ModifyOrder

definition header_in :: "bytes \<Rightarrow> MessageHeader" where
  "header_in data = MessageHeader_of (take sizeof_MessageHeader data)"

definition payload_in :: "bytes \<Rightarrow> bytes" where
  "payload_in data = drop sizeof_MessageHeader data"

definition stated_length :: "bytes \<Rightarrow> nat" where
  "stated_length data = unat (mh_length (header_in data) - of_nat sizeof_MessageHeader)"

definition request_in :: "bytes \<Rightarrow> request option" where
  "request_in data =
     (let code = mh_type (header_in data); payload = payload_in data in
      if mh_checksum (header_in data) \<noteq> checksum_spec 0 (take (stated_length data) payload) then None
      else if code = message_type_code NEW_ORDER
        then Some (ReqNew (NewOrder_of (take sizeof_NewOrder payload)))
      else if code = message_type_code CANCEL_ORDER
        then Some (ReqCancel (CancelOrder_of (take sizeof_CancelOrder payload)))
      else if code = message_type_code MODIFY_ORDER
        then Some (ReqModify (ModifyOrder_of (take sizeof_ModifyOrder payload)))
      else None)"

fun request_event :: "gateway_env \<Rightarrow> request \<Rightarrow> engine_event" where
  "request_event env (ReqNew r) =
     AddRequest (env_oom env)
       (Order_make (no_order_id r) (no_price r) (ucast (no_quantity r))
         (takeWhile nonzero (no_symbol r)) (no_side r = of_char (CHR ''B'')))"
| "request_event env (ReqCancel r) = CancelRequest (env_oom env) (env_junk env) (co_order_id r)"
| "request_event env (ReqModify r) =
     ModifyRequest (env_oom env) (env_junk env) (mo_order_id r) (mo_new_quantity r) (mo_new_price r)"

fun request_id :: "request \<Rightarrow> u64" where
  "request_id (ReqNew r) = no_order_id r"
| "request_id (ReqCancel r) = co_order_id r"
| "request_id (ReqModify r) = mo_order_id r"

text \<open>Whether the queue has room, and what the client is told.\<close>

definition queue_open :: "nat \<Rightarrow> GatewayCore \<Rightarrow> bool" where
  "queue_open N g \<longleftrightarrow> pushes_used (gc_matching_engine g) < N - 1"

fun told_accepted :: "nat \<Rightarrow> gateway_env \<Rightarrow> request \<Rightarrow> GatewayCore \<Rightarrow> bool" where
  "told_accepted N env (ReqNew r) g \<longleftrightarrow> \<not> env_oom env"
| "told_accepted N env (ReqCancel r) g \<longleftrightarrow> \<not> env_oom env \<and> queue_open N g"
| "told_accepted N env (ReqModify r) g \<longleftrightarrow> \<not> env_oom env \<and> queue_open N g"

fun told_reason :: "nat \<Rightarrow> gateway_env \<Rightarrow> request \<Rightarrow> GatewayCore \<Rightarrow> string" where
  "told_reason N env (ReqNew r) g = (if env_oom env then exn_what BadAlloc else '''')"
| "told_reason N env (ReqCancel r) g =
     (if env_oom env then exn_what BadAlloc else if queue_open N g then ''''
      else ''Cancel request rejected (queue full)'')"
| "told_reason N env (ReqModify r) g =
     (if env_oom env then exn_what BadAlloc else if queue_open N g then ''''
      else ''Modify request rejected (queue full)'')"

fun note_owner :: "request \<Rightarrow> fd \<Rightarrow> (u64 \<rightharpoonup> fd) \<Rightarrow> (u64 \<rightharpoonup> fd)" where
  "note_owner (ReqNew r) c owners = owners(no_order_id r \<mapsto> c)"
| "note_owner (ReqCancel r) c owners = owners"
| "note_owner (ReqModify r) c owners = owners"

fun request_terminated :: "request \<Rightarrow> bool" where
  "request_terminated (ReqNew r) \<longleftrightarrow> 0 \<in> set (no_symbol r)"
| "request_terminated (ReqCancel r) \<longleftrightarrow> True"
| "request_terminated (ReqModify r) \<longleftrightarrow> True"

text \<open>A buffer the handler reads without leaving it.\<close>

definition well_framed :: "bytes \<Rightarrow> nat \<Rightarrow> bool" where
  "well_framed data n \<longleftrightarrow>
     n < sizeof_MessageHeader \<or>
     stated_length data \<le> length (payload_in data) \<and>
     (case request_in data of None \<Rightarrow> True | Some r \<Rightarrow> request_terminated r)"

definition perform_request :: "nat \<Rightarrow> gateway_env \<Rightarrow> fd \<Rightarrow> request \<Rightarrow> GatewayCore \<Rightarrow> GatewayCore outcome" where
  "perform_request N env c r g =
     (case r of ReqNew q \<Rightarrow> handle_new_order N env c q g
      | ReqCancel q \<Rightarrow> handle_cancel_order N env c q g
      | ReqModify q \<Rightarrow> handle_modify_order N env c q g)"

lemma on_message_perform:
  assumes "length data = buffer_size" and "sizeof_MessageHeader \<le> n"
  shows "on_message N env c data n g =
           (if length (payload_in data) < stated_length data then Inl OutOfBoundsRead
            else case request_in data of None \<Rightarrow> Inr g | Some r \<Rightarrow> perform_request N env c r g)"
proof -
  have h: "parse_header data n = Inr (header_in data)"
    using assms by (simp add: parse_header_def header_in_def buffer_size_def sizeof_defs)
  have v: "validate_message (header_in data) (payload_in data) =
      (if length (payload_in data) < stated_length data then Inl OutOfBoundsRead
       else Inr (mh_checksum (header_in data) =
                 checksum_spec 0 (take (stated_length data) (payload_in data))))"
    by (simp add: validate_message_def calculate_checksum_eq stated_length_def payload_in_def not_le)
  have p: "parse_new_order (payload_in data) = Inr (NewOrder_of (take sizeof_NewOrder (payload_in data)))"
    "parse_cancel_order (payload_in data) = Inr (CancelOrder_of (take sizeof_CancelOrder (payload_in data)))"
    "parse_modify_order (payload_in data) = Inr (ModifyOrder_of (take sizeof_ModifyOrder (payload_in data)))"
    using assms
    by (simp_all add: parse_new_order_def parse_cancel_order_def parse_modify_order_def payload_in_def
        buffer_size_def sizeof_defs)
  show ?thesis
    using assms(2) p unfolding on_message_def payload_in_def [symmetric]
    by (simp add: h v request_in_def perform_request_def Let_def)
qed

text \<open>A request as an event of the engine, with its one answer.\<close>

lemma perform_request_spec:
  assumes "engine_inv N (gc_matching_engine g)" and "request_terminated r"
  shows "\<exists>e. engine_step N srt inet (request_event env r) (gc_matching_engine g) = Inr (e, []) \<and>
           engine_inv N e \<and>
           perform_request N env c r g =
             Inr (g\<lparr>gc_matching_engine := e,
                    gc_order_to_client := note_owner r c (gc_order_to_client g),
                    gc_sent := gc_sent g @
                      [(c, ack_frame env (request_id r) (told_accepted N env r g) (told_reason N env r g))]\<rparr>)"
proof -
  let ?e = "gc_matching_engine g"
  have push: "\<exists>e. push_command N cmd ?e = Inr (queue_open N g, e) \<and> engine_inv N e" for cmd
    using push_command_spec [OF assms(1), of cmd] by (auto simp: queue_open_def)
  show ?thesis
  proof (cases r)
    case (ReqNew q)
    let ?cmd = "Order_make (no_order_id q) (no_price q) (ucast (no_quantity q))
        (takeWhile nonzero (no_symbol q)) (no_side q = of_char (CHR ''B''))"
    have s: "cstr (no_symbol q) = Inr (takeWhile nonzero (no_symbol q))"
      using assms(2) ReqNew by (simp add: cstr_def)
    show ?thesis
      using push [of ?cmd] assms(1) ReqNew s
      by (auto simp: perform_request_def handle_new_order_def MatchingEngine_add_order_def
          send_order_ack_eq Let_def)
  next
    case (ReqCancel q)
    show ?thesis
      using push [of "(Order_default (env_junk env))\<lparr>ord_id := co_order_id q, ord_command := CANCEL\<rparr>"]
        assms(1) ReqCancel
      by (auto simp: perform_request_def handle_cancel_order_def MatchingEngine_cancel_order_def
          send_order_ack_eq Let_def)
  next
    case (ReqModify q)
    show ?thesis
      using push [of "(Order_default (env_junk env))\<lparr>ord_id := mo_order_id q,
            ord_quantity := ucast (mo_new_quantity q), ord_price := mo_new_price q,
            ord_command := MODIFY\<rparr>"] assms(1) ReqModify
      by (auto simp: perform_request_def handle_modify_order_def MatchingEngine_modify_order_def
          send_order_ack_eq Let_def)
  qed
qed

section \<open>Trades\<close>

text \<open>The notifications of a trade: the buyer's, then the seller's, to those that are known.\<close>

definition notifications ::
    "gateway_env \<Rightarrow> gateway_env \<Rightarrow> fd \<times> fd \<Rightarrow> Trade \<Rightarrow> (fd \<times> bytes) list" where
  "notifications env env' clients t =
     (if fst clients \<noteq> -1 then [(fst clients, trade_frame env t)] else []) @
     (if snd clients \<noteq> -1 then [(snd clients, trade_frame env' t)] else [])"

text \<open>
  What the table of owners asks for: a message to the owner of order \<open>i\<close>, if it has one with a valid
  descriptor; for a list of trades, to the owner of the buy order and then to that of the sell order of each.
\<close>

definition owner_told :: "gateway_env \<Rightarrow> (u64 \<rightharpoonup> fd) \<Rightarrow> u64 \<Rightarrow> Trade \<Rightarrow> (fd \<times> bytes) list" where
  "owner_told env owners i t =
     (case owners i of None \<Rightarrow> [] | Some c \<Rightarrow> if c = -1 then [] else [(c, trade_frame env t)])"

fun trade_log ::
    "(nat \<Rightarrow> gateway_env) \<Rightarrow> nat \<Rightarrow> Trade list \<Rightarrow> GatewayCore \<Rightarrow> (fd \<times> bytes) list" where
  "trade_log envs k [] g = []"
| "trade_log envs k (t # ts) g =
     owner_told (envs (2 * k)) (gc_order_to_client g) (tr_buy_order_id t) t @
     owner_told (envs (2 * k + 1)) (gc_order_to_client g) (tr_sell_order_id t) t @
     trade_log envs (Suc k) ts g"

lemma notifications_owners:
  "notifications env env' (lookup_clients t g) t =
     owner_told env (gc_order_to_client g) (tr_buy_order_id t) t @
     owner_told env' (gc_order_to_client g) (tr_sell_order_id t) t"
  by (simp add: notifications_def owner_told_def lookup_clients_def client_of_def split: option.split)

lemma notify_clients_eq:
  assumes "length (tr_symbol t) = 8"
  shows "notify_clients env env' clients t g =
           Inr (g\<lparr>gc_sent := gc_sent g @ notifications env env' clients t\<rparr>)"
  using assms
  by (cases clients) (auto simp: notify_clients_def notifications_def send_trade_notification_eq)

lemma lookup_clients_sent [simp]: "lookup_clients t (g\<lparr>gc_sent := l\<rparr>) = lookup_clients t g"
  by (simp add: lookup_clients_def client_of_def)

lemma trade_log_sent [simp]: "trade_log envs k ts (g\<lparr>gc_sent := l\<rparr>) = trade_log envs k ts g"
  by (induction ts arbitrary: k) simp_all

lemma lookup_clients_engine [simp]:
  "lookup_clients t (g\<lparr>gc_matching_engine := e\<rparr>) = lookup_clients t g"
  by (simp add: lookup_clients_def client_of_def)

lemma trade_log_engine [simp]:
  "trade_log envs k ts (g\<lparr>gc_matching_engine := e\<rparr>) = trade_log envs k ts g"
  by (induction ts arbitrary: k) simp_all

lemma deliver_trades_eq:
  "\<forall>t\<in>set ts. length (tr_symbol t) = 8 \<Longrightarrow>
   deliver_trades envs k ts g = Inr (g\<lparr>gc_sent := gc_sent g @ trade_log envs k ts g\<rparr>)"
  by (induction ts arbitrary: k g) (simp_all add: on_trade_def notify_clients_eq notifications_owners)

lemma apply_command_trades:
  assumes "apply_command srt cmd books ids = Inr (books', ids', ts)" and "t \<in> set ts"
  shows "length (tr_symbol t) = 8"
proof -
  obtain book book' where m: "OrderBook_match book = (ts, book')"
    using assms by (auto simp: apply_command_def apply_add_def Let_def
        split: OrderCommand.splits sum.splits prod.splits)
  then show ?thesis
    using match_loop_trades [OF conjunct1 [OF OrderBook_match_eq [OF m]]] assms(2)
    by (metis length_strncpy)
qed

lemma apply_commands_trades:
  "apply_commands srt cmds books ids = Inr (books', ids', ts) \<Longrightarrow> t \<in> set ts \<Longrightarrow>
   length (tr_symbol t) = 8"
proof (induction cmds arbitrary: books ids ts)
  case Nil
  then show ?case by simp
next
  case (Cons c cmds)
  then obtain b i t1 t2 where c: "apply_command srt c books ids = Inr (b, i, t1)"
    "apply_commands srt cmds b i = Inr (books', ids', t2)" "ts = t1 @ t2"
    unfolding apply_commands_Cons_Inr by blast
  then show ?case
    using Cons.IH [OF c(2)] apply_command_trades [OF c(1)] Cons.prems(2) by auto
qed

text \<open>A turn of the worker in the gateway is the turn of the engine and the log of its trades.\<close>

lemma gateway_worker_spec:
  assumes "engine_inv N (gc_matching_engine g)"
    and "\<forall>cmd\<in>set (pending (gc_matching_engine g)). symbol_ok cmd"
  shows "\<exists>e ts. engine_step N srt inet (WorkerTurn d) (gc_matching_engine g) = Inr (e, ts) \<and>
           gateway_worker N srt inet envs d g =
             Inr (g\<lparr>gc_matching_engine := e, gc_sent := gc_sent g @ trade_log envs 0 ts g\<rparr>) \<and>
           (\<forall>t\<in>set ts. length (tr_symbol t) = 8)"
proof -
  let ?e = "gc_matching_engine g"
  obtain e ts where w: "engine_step N srt inet (WorkerTurn d) ?e =
      Inr (e, if me_trade_callback ?e then ts else [])" "engine_moves N srt ?e [] e ts"
    using worker_turn [OF assms, of srt inet d] by blast
  then obtain turn where t: "process_orders N srt inet [d] ?e = Inr turn" "it_engine turn = e"
    "it_callbacks turn = (if me_trade_callback ?e then ts else [])"
    by (auto simp del: process_orders.simps simp: map_sum_id_eq_Inr)
  have s: "\<forall>t\<in>set (it_callbacks turn). length (tr_symbol t) = 8"
    using w(2) t(3) apply_commands_trades unfolding engine_moves_def by (auto split: if_splits)
  then have "gateway_worker N srt inet envs d g =
      Inr (g\<lparr>gc_matching_engine := e, gc_sent := gc_sent g @ trade_log envs 0 (it_callbacks turn) g\<rparr>)"
    using t by (simp add: gateway_worker_def deliver_trades_eq del: process_orders.simps)
  then show ?thesis
    using w(1) t(3) s by (intro exI [of _ e] exI [of _ "it_callbacks turn"]) simp
qed

section \<open>Runs of the gateway\<close>

text \<open>Handlers and worker turns in any order.\<close>

datatype gateway_event =
    ClientConnects gateway_env fd
  | ClientSends gateway_env fd bytes nat
  | ClientLeaves gateway_env fd
  | WorkerRuns "nat \<Rightarrow> gateway_env" u64

fun gateway_step ::
    "nat \<Rightarrow> order_sort \<Rightarrow> (string \<Rightarrow> u32 option) \<Rightarrow> gateway_event \<Rightarrow> GatewayCore \<Rightarrow> GatewayCore outcome" where
  "gateway_step N srt inet (ClientConnects env c) g = register_client env c g"
| "gateway_step N srt inet (ClientSends env c data n) g = on_message N env c data n g"
| "gateway_step N srt inet (ClientLeaves env c) g = unregister_client env c g"
| "gateway_step N srt inet (WorkerRuns envs d) g = gateway_worker N srt inet envs d g"

fun gateway_run ::
    "nat \<Rightarrow> order_sort \<Rightarrow> (string \<Rightarrow> u32 option) \<Rightarrow> gateway_event list \<Rightarrow> GatewayCore \<Rightarrow> GatewayCore outcome" where
  "gateway_run N srt inet [] g = Inr g"
| "gateway_run N srt inet (ev # evs) g =
     (case gateway_step N srt inet ev g of Inl f \<Rightarrow> Inl f | Inr g' \<Rightarrow> gateway_run N srt inet evs g')"

fun event_ok :: "gateway_event \<Rightarrow> bool" where
  "event_ok (ClientSends env c data n) \<longleftrightarrow> length data = buffer_size \<and> well_framed data n"
| "event_ok _ \<longleftrightarrow> True"

fun engine_events :: "gateway_event \<Rightarrow> engine_event list" where
  "engine_events (ClientSends env c data n) =
     (if n < sizeof_MessageHeader then []
      else case request_in data of None \<Rightarrow> [] | Some r \<Rightarrow> [request_event env r])"
| "engine_events (WorkerRuns envs d) = [WorkerTurn d]"
| "engine_events _ = []"

lemma request_in_symbol: "request_in data = Some (ReqNew r) \<Longrightarrow> length (no_symbol r) \<le> 8"
  by (auto simp: request_in_def NewOrder_of_def field_at_def Let_def split: if_splits)

lemma takeWhile_shorter: "x \<in> set xs \<Longrightarrow> \<not> P x \<Longrightarrow> length (takeWhile P xs) < length xs"
  by (metis length_takeWhile_le le_neq_implies_less set_takeWhileD takeWhile_eq_take take_all order_refl)

lemma request_event_ok:
  assumes "request_in data = Some r" and "request_terminated r"
    and "cmd \<in> set (request_of (request_event env r))"
  shows "symbol_ok cmd"
proof (cases r)
  case (ReqNew q)
  have "length (takeWhile nonzero (no_symbol q)) < length (no_symbol q)"
    using assms(2) ReqNew by (intro takeWhile_shorter) auto
  then have "length (takeWhile nonzero (no_symbol q)) < 8"
    using request_in_symbol [of data q] assms(1) ReqNew by simp
  then show ?thesis
    using assms(3) ReqNew by (auto simp: symbol_ok_def Order_make_def zero_in_strncpy split: if_splits)
qed (use assms(3) in \<open>auto simp: symbol_ok_def split: if_splits\<close>)

lemma engine_events_ok:
  assumes "event_ok ev" and "cmd \<in> set (concat (map request_of (engine_events ev)))"
  shows "symbol_ok cmd"
  using assms request_event_ok
  by (cases ev) (auto simp: well_framed_def split: if_splits option.splits)

text \<open>A step of the gateway is a run of the engine over at most one event.\<close>

lemma gateway_step_engine:
  assumes "engine_inv N (gc_matching_engine g)"
    and "\<forall>cmd\<in>set (pending (gc_matching_engine g)). symbol_ok cmd" and "event_ok ev"
  shows "\<exists>g' ts. gateway_step N srt inet ev g = Inr g' \<and>
           engine_run N srt inet (engine_events ev) (gc_matching_engine g) =
             Inr (gc_matching_engine g', ts)"
proof (cases ev)
  case (ClientSends env c data n)
  show ?thesis
  proof (cases "n < sizeof_MessageHeader \<or> request_in data = None")
    case True
    then show ?thesis
      using assms(3) ClientSends on_message_perform [of data n N env c g]
      by (cases "n < sizeof_MessageHeader") (auto simp: on_message_def well_framed_def)
  next
    case False
    then obtain r where r: "request_in data = Some r" by auto
    then have "request_terminated r" "\<not> length (payload_in data) < stated_length data"
      using assms(3) ClientSends False by (auto simp: well_framed_def)
    then show ?thesis
      using perform_request_spec [OF assms(1), of r srt inet env c] False r assms(3) ClientSends
        on_message_perform [of data n N env c g]
      by auto
  qed
next
  case (WorkerRuns envs d)
  then show ?thesis
    using gateway_worker_spec [OF assms(1,2), of srt inet d envs]
    by (auto simp del: engine_step.simps)
qed (simp_all add: register_client_def unregister_client_def)

lemma engine_run_append:
  "engine_run N srt inet evs e = Inr (e1, ts) \<Longrightarrow> engine_run N srt inet evs' e1 = Inr (e2, ts') \<Longrightarrow>
   engine_run N srt inet (evs @ evs') e = Inr (e2, ts @ ts')"
proof (induction evs arbitrary: e ts)
  case Nil
  then show ?case by simp
next
  case (Cons ev evs)
  obtain e0 t0 where s: "engine_step N srt inet ev e = Inr (e0, t0)"
    using Cons.prems(1) by (auto split: sum.splits)
  then obtain t1 where "engine_run N srt inet evs e0 = Inr (e1, t1)" "ts = t0 @ t1"
    using Cons.prems(1) by (auto simp: map_sum_id_eq_Inr simp del: engine_step.simps)
  then show ?case
    using Cons.IH [OF _ Cons.prems(2)] s by simp
qed

text \<open>What holds between the steps: nothing leaks, and no pending order can fault the worker.\<close>

definition core_ok :: "nat \<Rightarrow> GatewayCore \<Rightarrow> bool" where
  "core_ok N g \<longleftrightarrow> engine_inv N (gc_matching_engine g) \<and>
     (\<forall>cmd\<in>set (pending (gc_matching_engine g)). symbol_ok cmd)"

lemma core_okD:
  assumes "core_ok N g"
  shows "engine_inv N (gc_matching_engine g)"
    and "\<forall>cmd\<in>set (pending (gc_matching_engine g)). symbol_ok cmd"
  using assms by (auto simp: core_ok_def)

lemma gateway_step_ok:
  assumes "core_ok N g" and "event_ok ev"
  shows "\<exists>g' ts. gateway_step N srt inet ev g = Inr g' \<and> core_ok N g' \<and>
           engine_run N srt inet (engine_events ev) (gc_matching_engine g) =
             Inr (gc_matching_engine g', ts)"
proof -
  obtain g1 t1 where s: "gateway_step N srt inet ev g = Inr g1"
    "engine_run N srt inet (engine_events ev) (gc_matching_engine g) = Inr (gc_matching_engine g1, t1)"
    using gateway_step_engine [OF core_okD [OF assms(1)] assms(2), of srt inet] by blast
  have ok: "\<forall>cmd\<in>set (pending (gc_matching_engine g)) \<union>
      set (concat (map request_of (engine_events ev))). symbol_ok cmd"
    using core_okD(2) [OF assms(1)] engine_events_ok [OF assms(2)] by blast
  obtain ts where m: "engine_moves N srt (gc_matching_engine g)
      (concat (map request_of (engine_events ev))) (gc_matching_engine g1) ts"
    using engine_run_moves [OF core_okD(1) [OF assms(1)] ok, of srt inet] s(2) by auto
  then have "engine_inv N (gc_matching_engine g1)"
    by (simp add: engine_moves_def)
  moreover have "\<forall>cmd\<in>set (pending (gc_matching_engine g1)). symbol_ok cmd"
    using engine_moves_pending [OF m] ok by blast
  ultimately show ?thesis
    using s by (simp add: core_ok_def)
qed

interpretation gateway_engine: run_simulation "gateway_step N srt inet" "gateway_run N srt inet"
  "engine_run N srt inet" engine_events gc_matching_engine "core_ok N" event_ok for N srt inet
proof
  show "gateway_run N srt inet [] g = Inr g" for g
    by simp
  show "gateway_run N srt inet (ev # evs) g = gateway_run N srt inet evs g'"
    if "gateway_step N srt inet ev g = Inr g'" for ev evs g g'
    using that by simp
  show "engine_run N srt inet [] e = Inr (e, [])" for e
    by simp
  show "engine_run N srt inet (as @ as') e = Inr (e2, ts @ ts')"
    if "engine_run N srt inet as e = Inr (e1, ts)" "engine_run N srt inet as' e1 = Inr (e2, ts')"
    for as as' e e1 e2 ts ts'
    using that by (rule engine_run_append)
  show "\<exists>g' ts. gateway_step N srt inet ev g = Inr g' \<and> core_ok N g' \<and>
      engine_run N srt inet (engine_events ev) (gc_matching_engine g) = Inr (gc_matching_engine g', ts)"
    if "core_ok N g" "event_ok ev" for g ev
    using that by (rule gateway_step_ok)
qed

section \<open>Sessions\<close>

text \<open>
  Every client that is to be told of a trade is connected. The handlers of a connection run
  between its registration and its removal, so messages come from connected clients.
\<close>

definition sessions_inv :: "GatewayCore \<Rightarrow> bool" where
  "sessions_inv g \<longleftrightarrow> ran (gc_order_to_client g) \<subseteq> dom (gc_client_sessions g)"

fun sender_connected :: "gateway_event \<Rightarrow> GatewayCore \<Rightarrow> bool" where
  "sender_connected (ClientSends env c data n) g \<longleftrightarrow> c \<in> dom (gc_client_sessions g)"
| "sender_connected _ g \<longleftrightarrow> True"

fun senders_connected ::
    "nat \<Rightarrow> order_sort \<Rightarrow> (string \<Rightarrow> u32 option) \<Rightarrow> gateway_event list \<Rightarrow> GatewayCore \<Rightarrow> bool" where
  "senders_connected N srt inet [] g \<longleftrightarrow> True"
| "senders_connected N srt inet (ev # evs) g \<longleftrightarrow>
     sender_connected ev g \<and>
     (case gateway_step N srt inet ev g of Inl f \<Rightarrow> True | Inr g' \<Rightarrow> senders_connected N srt inet evs g')"

lemma sessions_invD: "sessions_inv g \<Longrightarrow> gc_order_to_client g i = Some c \<Longrightarrow> c \<in> dom (gc_client_sessions g)"
  by (auto simp: sessions_inv_def ran_def)

lemma sessions_invI:
  "(\<And>i c. gc_order_to_client g i = Some c \<Longrightarrow> c \<in> dom (gc_client_sessions g)) \<Longrightarrow> sessions_inv g"
  by (auto simp: sessions_inv_def ran_def)

lemma note_owner_cases:
  "note_owner r c owners i = Some c' \<Longrightarrow> c' = c \<or> owners i = Some c'"
  by (cases r) (auto split: if_splits)

lemma gateway_step_sessions:
  assumes "core_ok N g" and "event_ok ev"
    and "sessions_inv g" and "sender_connected ev g" and "gateway_step N srt inet ev g = Inr g'"
  shows "sessions_inv g'"
proof (cases ev)
  case (ClientConnects env c)
  then have g': "g' = g\<lparr>gc_client_sessions := (gc_client_sessions g)(c \<mapsto> generate_session_id env)\<rparr>"
    using assms(5) by (simp add: register_client_def)
  show ?thesis
    unfolding g' by (rule sessions_invI) (use sessions_invD [OF assms(3)] in auto)
next
  case (ClientSends env c data n)
  show ?thesis
  proof (cases "n < sizeof_MessageHeader \<or> request_in data = None")
    case True
    then have "g' = g"
      using assms(2,5) ClientSends on_message_perform [of data n N env c g]
      by (cases "n < sizeof_MessageHeader") (auto simp: on_message_def well_framed_def split: if_splits)
    then show ?thesis using assms(3) by simp
  next
    case False
    then obtain r where r: "request_in data = Some r" by auto
    then have "request_terminated r" "\<not> length (payload_in data) < stated_length data"
      using assms(2) ClientSends False by (auto simp: well_framed_def)
    then obtain e l where g': "g' = g\<lparr>gc_matching_engine := e,
        gc_order_to_client := note_owner r c (gc_order_to_client g), gc_sent := l\<rparr>"
      using perform_request_spec [OF core_okD(1) [OF assms(1)], of r srt inet env c] False r assms(2,5) ClientSends
        on_message_perform [of data n N env c g]
      by auto
    show ?thesis
      unfolding g'
      by (rule sessions_invI)
         (use sessions_invD [OF assms(3)] assms(4) ClientSends in \<open>auto dest!: note_owner_cases\<close>)
  qed
next
  case (ClientLeaves env c)
  then have g': "g' = g\<lparr>gc_client_sessions := (gc_client_sessions g)(c := None),
      gc_order_to_client := (\<lambda>i. if gc_order_to_client g i = Some c then None
                                 else gc_order_to_client g i)\<rparr>"
    using assms(5) by (simp add: unregister_client_def)
  show ?thesis
    unfolding g'
    by (rule sessions_invI) (use sessions_invD [OF assms(3)] in \<open>auto split: if_splits\<close>)
next
  case (WorkerRuns envs d)
  then obtain e l where "g' = g\<lparr>gc_matching_engine := e, gc_sent := l\<rparr>"
    using gateway_worker_spec [OF core_okD [OF assms(1)], of srt inet d envs] assms(5) by auto
  then show ?thesis
    using assms(3) by (simp add: sessions_inv_def)
qed

lemma gateway_run_sessions:
  "core_ok N g \<Longrightarrow> sessions_inv g \<Longrightarrow> \<forall>ev\<in>set evs. event_ok ev \<Longrightarrow>
   senders_connected N srt inet evs g \<Longrightarrow> gateway_run N srt inet evs g = Inr g' \<Longrightarrow>
   core_ok N g' \<and> sessions_inv g'"
proof (induction evs arbitrary: g)
  case Nil
  then show ?case by simp
next
  case (Cons ev evs)
  obtain g1 where s: "gateway_step N srt inet ev g = Inr g1" "core_ok N g1"
    using gateway_step_ok [of N g ev srt inet] Cons.prems by auto
  have "sessions_inv g1"
    using gateway_step_sessions [OF Cons.prems(1) _ Cons.prems(2) _ s(1)] Cons.prems(3,4) by simp
  then show ?case
    using Cons.IH [OF s(2)] Cons.prems(3-5) s(1) by simp
qed

lemma trade_log_targets:
  "sessions_inv g \<Longrightarrow> (c, m) \<in> set (trade_log envs k ts g) \<Longrightarrow> c \<in> dom (gc_client_sessions g)"
proof (induction ts arbitrary: k)
  case Nil
  then show ?case by simp
next
  case (Cons t ts)
  have "c \<in> dom (gc_client_sessions g)" if "(c, m) \<in> set (owner_told env (gc_order_to_client g) i t)" for env i
    using that sessions_invD [OF Cons.prems(1), of i]
    by (cases "gc_order_to_client g i") (auto simp: owner_told_def split: if_splits)
  then show ?case
    using Cons by auto
qed

section \<open>The gateway as the owner of the TCP server\<close>

definition good_buffer :: "bytes \<Rightarrow> nat \<Rightarrow> bool" where
  "good_buffer data n \<longleftrightarrow> length data = buffer_size \<and> well_framed data n"

lemma on_message_cases:
  assumes "engine_inv N (gc_matching_engine g)" and "length data = buffer_size"
  shows "if well_framed data n
         then \<exists>g'. on_message N env c data n g = Inr g' \<and> engine_inv N (gc_matching_engine g')
         else \<exists>f. on_message N env c data n g = Inl f \<and> f \<in> {OutOfBoundsRead, UnterminatedString}"
proof (cases "n < sizeof_MessageHeader")
  case True
  then show ?thesis
    using assms by (auto simp: on_message_def well_framed_def)
next
  case False
  note m = on_message_perform [OF assms(2), of n N env c g]
  show ?thesis
  proof (cases "request_in data")
    case None
    then show ?thesis
      using m False assms(1) by (auto simp: well_framed_def)
  next
    case (Some r)
    show ?thesis
    proof (cases "request_terminated r")
      case True
      obtain g' where "perform_request N env c r g = Inr g'" "engine_inv N (gc_matching_engine g')"
        using perform_request_spec [OF assms(1) True, of undefined undefined env c] by auto
      then show ?thesis
        using m False True Some by (auto simp: well_framed_def)
    next
      case nt: False
      then obtain q where "r = ReqNew q" "0 \<notin> set (no_symbol q)"
        by (cases r) auto
      then have "perform_request N env c r g = Inl UnterminatedString"
        by (simp add: perform_request_def handle_new_order_def cstr_def)
      then show ?thesis
        using m False nt Some by (auto simp: well_framed_def)
    qed
  qed
qed

interpretation gateway: session_owner register_client "on_message N" unregister_client
  "\<lambda>g. engine_inv N (gc_matching_engine g)" good_buffer for N
proof
  show "\<exists>g'. register_client env c g = Inr g' \<and> engine_inv N (gc_matching_engine g')"
    if "engine_inv N (gc_matching_engine g)" for g env c
    using that by (simp add: register_client_def)
  show "\<exists>g'. unregister_client env c g = Inr g' \<and> engine_inv N (gc_matching_engine g')"
    if "engine_inv N (gc_matching_engine g)" for g env c
    using that by (simp add: unregister_client_def)
  show "\<exists>g'. on_message N env c data n g = Inr g' \<and> engine_inv N (gc_matching_engine g')"
    if "engine_inv N (gc_matching_engine g)" "good_buffer data n" for g data n env c
    using that on_message_cases [of N g data n env c] by (simp add: good_buffer_def)
qed

section \<open>Frames a client sends\<close>

fun request_payload :: "request \<Rightarrow> bytes" where
  "request_payload (ReqNew r) = NewOrder_bytes r"
| "request_payload (ReqCancel r) = CancelOrder_bytes r"
| "request_payload (ReqModify r) = ModifyOrder_bytes r"

fun request_type :: "request \<Rightarrow> MessageType" where
  "request_type (ReqNew r) = NEW_ORDER"
| "request_type (ReqCancel r) = CANCEL_ORDER"
| "request_type (ReqModify r) = MODIFY_ORDER"

definition request_frame :: "u64 \<Rightarrow> request \<Rightarrow> bytes" where
  "request_frame now r = frame (message_type_code (request_type r)) now (request_payload r)"

fun request_wf :: "request \<Rightarrow> bool" where
  "request_wf (ReqNew r) \<longleftrightarrow> length (no_symbol r) = 8 \<and> 0 \<in> set (no_symbol r)"
| "request_wf (ReqCancel r) \<longleftrightarrow> True"
| "request_wf (ReqModify r) \<longleftrightarrow> True"

lemma request_wf_terminated: "request_wf r \<Longrightarrow> request_terminated r"
  by (cases r) auto

lemma request_payload_length: "request_wf r \<Longrightarrow> length (request_payload r) < 2 ^ 64"
  by (cases r) (simp_all add: sizeof_defs)

lemma header_in_frame [simp]: "header_in (frame code now payload @ rest) = frame_header code now payload"
  and payload_in_frame [simp]: "payload_in (frame code now payload @ rest) = payload @ rest"
  by (simp_all add: header_in_def payload_in_def frame_def
      MessageHeader_roundtrip [where rest = "[]", simplified])

lemma stated_length_frame:
  "length payload < 2 ^ 64 \<Longrightarrow> stated_length (frame code now payload @ rest) = length payload"
  unfolding stated_length_def header_in_frame by (rule frame_header_payload_length)

lemma request_in_frame:
  assumes "request_wf r"
  shows "request_in (request_frame now r @ rest) = Some r"
proof -
  have "stated_length (request_frame now r @ rest) = length (request_payload r)"
    unfolding request_frame_def by (rule stated_length_frame [OF request_payload_length [OF assms]])
  then show ?thesis
    using assms NewOrder_roundtrip [where rest = "[]", simplified]
      CancelOrder_roundtrip [where rest = "[]", simplified]
      ModifyOrder_roundtrip [where rest = "[]", simplified]
    by (cases r) (simp_all add: request_in_def request_frame_def)
qed

lemma request_frame_in_bounds:
  "request_wf r \<Longrightarrow>
   stated_length (request_frame now r @ rest) \<le> length (payload_in (request_frame now r @ rest))"
  unfolding request_frame_def using stated_length_frame [OF request_payload_length] by simp

lemma on_message_frame:
  assumes "request_wf r" and "length (request_frame now r @ rest) = buffer_size"
    and "sizeof_MessageHeader \<le> n"
  shows "on_message N env c (request_frame now r @ rest) n g = perform_request N env c r g"
  using on_message_perform [OF assms(2,3), of N env c g] request_frame_in_bounds [OF assms(1), of now rest]
    request_in_frame [OF assms(1), of now rest]
  by (simp add: not_less)

text \<open>An order to buy and the state of a gateway that has just started, for examples.\<close>

definition sample_request :: "u64 \<Rightarrow> request" where
  "sample_request i = ReqNew \<lparr>no_order_id = i, no_price = 100, no_quantity = 5,
     no_symbol = [66, 84, 67, 0, 0, 0, 0, 0], no_side = 66\<rparr>"

definition sample_trade :: Trade where
  "sample_trade = Trade_make 1 2 100 5 [66, 84, 67]"

definition sample_env :: gateway_env where
  "sample_env = \<lparr>env_oom = False, env_junk = Order_make 0 0 0 [] False, env_stack = (\<lambda>_. 0),
                 env_now = 1700, env_send_now = 1701, env_random = 123456\<rparr>"

definition started_core :: "nat \<Rightarrow> fd \<Rightarrow> GatewayCore" where
  "started_core N statsd_socket =
     \<lparr>gc_matching_engine = started_engine N statsd_socket, gc_client_sessions = Map.empty,
      gc_order_to_client = Map.empty, gc_sent = []\<rparr>"

definition padded :: "bytes \<Rightarrow> bytes" where
  "padded data = data @ replicate (buffer_size - length data) 0"

lemma sample_request_wf [simp]: "request_wf (sample_request i)"
  by (simp add: sample_request_def)

lemma length_request_frame:
  "length (request_frame now r) = sizeof_MessageHeader + length (request_payload r)"
  by (simp add: request_frame_def)

lemma length_sample_frame [simp]: "length (request_frame now (sample_request i)) = 50"
  by (simp add: length_request_frame sample_request_def sizeof_defs)

lemma sample_request_sel [simp]:
  "request_id (sample_request i) = i" "note_owner (sample_request i) c owners = owners(i \<mapsto> c)"
  "told_accepted N sample_env (sample_request i) g"
  "told_reason N sample_env (sample_request i) g = []"
  by (simp_all add: sample_request_def sample_env_def)

lemma padded_sample [simp]:
  "padded (request_frame now (sample_request i)) =
   request_frame now (sample_request i) @ replicate 4046 0"
  by (simp add: padded_def buffer_size_def)

lemma started_core_sel [simp]:
  "gc_matching_engine (started_core N s) = started_engine N s"
  "gc_client_sessions (started_core N s) = Map.empty"
  "gc_order_to_client (started_core N s) = Map.empty" "gc_sent (started_core N s) = []"
  by (simp_all add: started_core_def)

lemma started_core_ok: "0 < N \<Longrightarrow> core_ok N (started_core N s)"
  and started_core_sessions: "sessions_inv (started_core N s)"
  by (simp_all add: core_ok_def started_engine sessions_inv_def)

section \<open>Results\<close>

text \<open>C10: every well-formed request frame is answered exactly once. Whatever follows the frame in the
  buffer, the handler performs the request on the engine once, notes the owner of a new order,
  and sends one acknowledgement to the sender, with the identifier of the request; it says
  accepted unless memory was exhausted or, for a cancel or modify, the queue refused it.\<close>

theorem message_answered:
  assumes "engine_inv N (gc_matching_engine g)" and "request_wf r"
    and "length (request_frame now r @ rest) = buffer_size" and "sizeof_MessageHeader \<le> n"
  shows "\<exists>e. engine_step N srt inet (request_event env r) (gc_matching_engine g) = Inr (e, []) \<and>
           on_message N env c (request_frame now r @ rest) n g =
             Inr (g\<lparr>gc_matching_engine := e,
                    gc_order_to_client := note_owner r c (gc_order_to_client g),
                    gc_sent := gc_sent g @
                      [(c, ack_frame env (request_id r) (told_accepted N env r g) (told_reason N env r g))]\<rparr>)"
  using perform_request_spec [OF assms(1) request_wf_terminated [OF assms(2)], of srt inet env c]
    on_message_frame [OF assms(2-4), of N env c g]
  by auto

theorem message_answered_witness:
  "\<exists>g. on_message 10000 sample_env 7 (padded (request_frame 5 (sample_request 1))) 50
         (started_core 10000 4) = Inr g \<and>
       gc_sent g = [(7, ack_frame sample_env 1 True '''')] \<and> gc_order_to_client g 1 = Some 7"
proof -
  have "engine_inv 10000 (gc_matching_engine (started_core 10000 4))"
    using started_engine(1) [of 10000 4] by simp
  from message_answered [OF this, of "sample_request 1" 5 "replicate 4046 0" 50 insertion_sort
      "\<lambda>_. None" sample_env 7]
  show ?thesis
    by (auto simp: buffer_size_def sizeof_MessageHeader_def simp del: engine_step.simps)
qed

text \<open>C28: the undefined behaviour of the message handler, exactly. On a 4096-byte buffer with at
  least a header received it leaves the buffer when the header's length field states more
  payload than the buffer holds, in 64-bit arithmetic, or it runs over the eight bytes of a
  symbol without a NUL in a new order whose checksum is right; in no other case. With no request in the
  buffer (a wrong checksum, an unknown type, less than a header) and no fault it changes nothing
  and answers nothing.\<close>

theorem message_fault_iff:
  assumes "engine_inv N (gc_matching_engine g)" and "length data = buffer_size"
  shows "((\<exists>f. on_message N env c data n g = Inl f) \<longleftrightarrow>
            sizeof_MessageHeader \<le> n \<and>
            (buffer_size - sizeof_MessageHeader < stated_length data \<or>
             (\<exists>q. request_in data = Some (ReqNew q) \<and> 0 \<notin> set (no_symbol q)))) \<and>
         (n < sizeof_MessageHeader \<or>
            request_in data = None \<and> stated_length data \<le> buffer_size - sizeof_MessageHeader \<longrightarrow>
          on_message N env c data n g = Inr g)"
proof -
  have len: "length (payload_in data) = buffer_size - sizeof_MessageHeader"
    using assms(2) by (simp add: payload_in_def)
  have ends: "(case request_in data of None \<Rightarrow> True | Some r \<Rightarrow> request_terminated r) \<longleftrightarrow>
      \<not> (\<exists>q. request_in data = Some (ReqNew q) \<and> 0 \<notin> set (no_symbol q))"
    by (cases "request_in data"; cases "the (request_in data)") auto
  have "(\<exists>f. on_message N env c data n g = Inl f) \<longleftrightarrow> \<not> well_framed data n"
    using on_message_cases [OF assms, of n env c] by (auto split: if_splits)
  moreover have "on_message N env c data n g = Inr g" if "n < sizeof_MessageHeader"
    using that by (simp add: on_message_def)
  moreover have "on_message N env c data n g = Inr g"
    if "\<not> n < sizeof_MessageHeader" "request_in data = None"
      "stated_length data \<le> buffer_size - sizeof_MessageHeader"
    using that on_message_perform [OF assms(2), of n N env c g] len by auto
  ultimately show ?thesis
    unfolding well_framed_def ends len
    by (cases "n < sizeof_MessageHeader") (auto simp: not_le not_less)
qed

theorem message_fault_iff_witness:
  "\<exists>f. on_message 10000 sample_env 7 (replicate 4096 0) 21 (started_core 10000 4) = Inl f"
proof -
  have h: "header_in (replicate 4096 0) = zero_header"
    by (simp add: header_in_def MessageHeader_of_def zero_header_def field_at_def sizeof_defs eval_nat_numeral)
  have "stated_length (replicate 4096 0) = 2 ^ 64 - 21"
    by (simp add: stated_length_def h zero_header_def sizeof_defs)
  moreover have "engine_inv 10000 (gc_matching_engine (started_core 10000 4))"
    using started_engine(1) [of 10000 4] by simp
  ultimately show ?thesis
    using message_fault_iff [of 10000 "started_core 10000 4" "replicate 4096 0" sample_env 7 21]
    by (simp add: buffer_size_def sizeof_defs)
qed

text \<open>The server treats one \<^verbatim>\<open>recv\<close> as one message, though TCP keeps no message boundaries. When
  two requests arrive in one \<^verbatim>\<open>recv\<close> the second is lost: the handler does exactly what it does
  when the first arrives alone, whatever follows it.\<close>

theorem coalesced_request_lost:
  assumes "request_wf r" and "length (request_frame now r @ request_frame now' r' @ rest) = buffer_size"
    and "length (request_frame now r @ rest') = buffer_size"
  shows "on_message N env c (request_frame now r @ request_frame now' r' @ rest)
           (length (request_frame now r @ request_frame now' r')) g =
         on_message N env c (request_frame now r @ rest') (length (request_frame now r)) g"
  using on_message_frame [OF assms(1,2)] on_message_frame [OF assms(1,3)]
  by (simp add: length_request_frame)

theorem coalesced_request_lost_witness:
  "on_message 10000 sample_env 7
     (request_frame 5 (sample_request 1) @ request_frame 5 (sample_request 2) @ replicate 3996 0) 100
     (started_core 10000 4) =
   on_message 10000 sample_env 7 (padded (request_frame 5 (sample_request 1))) 50 (started_core 10000 4)"
  using coalesced_request_lost [of "sample_request 1" 5 5 "sample_request 2" "replicate 3996 0"
      "replicate 4046 0" 10000 sample_env 7 "started_core 10000 4"]
  by (simp add: buffer_size_def)

text \<open>C32: a request can be executed twice from one payload. The handler validates and parses what is in
  the buffer, not what was received: a client that sends a frame and then its header alone has
  the request performed again on the payload left from the first \<^verbatim>\<open>recv\<close>, and gets a second
  acknowledgement.\<close>

theorem stale_payload_replayed:
  assumes "engine_inv N (gc_matching_engine g)" and "request_wf r" and "length junk = buffer_size"
    and "length (request_frame now r) \<le> buffer_size"
  shows "\<exists>g'. client_loop (Some (on_message N)) c junk
             [\<lparr>ct_running = True, ct_recv = Received (request_frame now r), ct_env = env\<rparr>,
              \<lparr>ct_running = True,
               ct_recv = Received (take sizeof_MessageHeader (request_frame now r)), ct_env = env'\<rparr>] g =
             Inr (Waiting, g') \<and>
           (\<exists>e. engine_run N srt inet [request_event env r, request_event env' r] (gc_matching_engine g) =
                  Inr (gc_matching_engine g', e)) \<and>
           length (gc_sent g') = length (gc_sent g) + 2"
proof -
  let ?f = "request_frame now r" and ?h = "take sizeof_MessageHeader (request_frame now r)"
  define buffer where "buffer = ?f @ drop (length ?f) junk"
  have len: "length buffer = buffer_size" "sizeof_MessageHeader \<le> length ?f"
    using assms(3,4) by (simp_all add: buffer_def length_request_frame)
  have again: "recv_into ?h buffer = buffer"
    using len by (simp add: recv_into_def buffer_def min_absorb2 flip: append_assoc)
  have "?f \<noteq> []" "?h \<noteq> []" "length ?h = sizeof_MessageHeader"
    using len by (auto simp: sizeof_defs)
  note bytes = this
  have first: "recv_into ?f junk = buffer"
    by (simp add: recv_into_def buffer_def)
  obtain e1 where 1: "engine_step N srt inet (request_event env r) (gc_matching_engine g) = Inr (e1, [])"
    "engine_inv N e1"
    "perform_request N env c r g = Inr (g\<lparr>gc_matching_engine := e1,
        gc_order_to_client := note_owner r c (gc_order_to_client g),
        gc_sent := gc_sent g @
          [(c, ack_frame env (request_id r) (told_accepted N env r g) (told_reason N env r g))]\<rparr>)"
    using perform_request_spec [OF assms(1) request_wf_terminated [OF assms(2)], of srt inet env c] by blast
  define g1 where "g1 = g\<lparr>gc_matching_engine := e1,
        gc_order_to_client := note_owner r c (gc_order_to_client g),
        gc_sent := gc_sent g @
          [(c, ack_frame env (request_id r) (told_accepted N env r g) (told_reason N env r g))]\<rparr>"
  have g1: "gc_matching_engine g1 = e1" "length (gc_sent g1) = length (gc_sent g) + 1"
    by (simp_all add: g1_def)
  obtain e2 g2 where 2: "engine_step N srt inet (request_event env' r) e1 = Inr (e2, [])"
    "perform_request N env' c r g1 = Inr g2" "gc_matching_engine g2 = e2"
    "length (gc_sent g2) = length (gc_sent g1) + 1"
    using perform_request_spec [of N g1 r srt inet env' c] request_wf_terminated [OF assms(2)] 1(2) g1(1)
    by auto
  have "on_message N env c buffer (length ?f) g = Inr g1"
    and "on_message N env' c buffer sizeof_MessageHeader g1 = Inr g2"
    using 1(3) 2(2) len on_message_frame [OF assms(2), of now "drop (length ?f) junk"]
    by (simp_all add: buffer_def g1_def)
  then show ?thesis
    using bytes first again 1(1) 2 g1 by (intro exI [of _ g2]) (simp add: Let_def del: engine_step.simps)
qed

theorem stale_payload_replayed_witness:
  "\<exists>g. client_loop (Some (on_message 10000)) 7 (replicate 4096 0)
         [\<lparr>ct_running = True, ct_recv = Received (request_frame 5 (sample_request 1)), ct_env = sample_env\<rparr>,
          \<lparr>ct_running = True,
           ct_recv = Received (take sizeof_MessageHeader (request_frame 5 (sample_request 1))),
           ct_env = sample_env\<rparr>] (started_core 10000 4) = Inr (Waiting, g) \<and>
       length (gc_sent g) = 2"
proof -
  have "engine_inv 10000 (gc_matching_engine (started_core 10000 4))"
    using started_engine(1) [of 10000 4] by simp
  from stale_payload_replayed [OF this, of "sample_request 1" "replicate 4096 0" 5 7 sample_env sample_env
      insertion_sort "\<lambda>_. None"]
  show ?thesis
    by (auto simp: buffer_size_def numeral_2_eq_2 simp del: engine_run.simps client_loop.simps)
qed

text \<open>C31: a new order that the queue refuses is acknowledged as accepted. Once the queue has taken its
  lifetime's worth of commands, the client of a new order is told that it was accepted and is noted
  as its owner, while the engine has neither queued nor booked it; a cancel in the same state is
  answered with a rejection.\<close>

theorem dropped_order_acknowledged:
  assumes "engine_inv N (gc_matching_engine g)" and "pushes_used (gc_matching_engine g) = N - 1"
    and "request_wf (ReqNew q)" and "length (request_frame now (ReqNew q) @ rest) = buffer_size"
    and "length (request_frame now (ReqCancel k) @ rest') = buffer_size"
    and "\<not> env_oom env" and "sizeof_MessageHeader \<le> n"
  shows "(\<exists>g'. on_message N env c (request_frame now (ReqNew q) @ rest) n g = Inr g' \<and>
             gc_sent g' = gc_sent g @ [(c, ack_frame env (no_order_id q) True '''')] \<and>
             pending (gc_matching_engine g') = pending (gc_matching_engine g) \<and>
             me_order_books (gc_matching_engine g') = me_order_books (gc_matching_engine g)) \<and>
         (\<exists>g'. on_message N env c (request_frame now (ReqCancel k) @ rest') n g = Inr g' \<and>
             gc_sent g' = gc_sent g @
               [(c, ack_frame env (co_order_id k) False ''Cancel request rejected (queue full)'')])"
proof -
  let ?e = "gc_matching_engine g"
  have closed: "\<not> queue_open N g"
    using assms(2) by (simp add: queue_open_def)
  have kept: "pending e = pending ?e \<and> me_order_books e = me_order_books ?e"
    if "engine_step N insertion_sort (\<lambda>_. None) ev ?e = Inr (e, [])" "\<forall>d. ev \<noteq> WorkerTurn d" for ev e
    using request_step [OF assms(1) that(2), of insertion_sort "\<lambda>_. None"] that(1) assms(2) by auto
  obtain e where e: "engine_step N insertion_sort (\<lambda>_. None) (request_event env (ReqNew q)) ?e = Inr (e, [])"
    "perform_request N env c (ReqNew q) g = Inr (g\<lparr>gc_matching_engine := e,
       gc_order_to_client := note_owner (ReqNew q) c (gc_order_to_client g),
       gc_sent := gc_sent g @ [(c, ack_frame env (no_order_id q) True '''')]\<rparr>)"
    using perform_request_spec [OF assms(1) request_wf_terminated [OF assms(3)], of insertion_sort
        "\<lambda>_. None" env c] assms(6) by auto
  obtain g' where g': "perform_request N env c (ReqCancel k) g = Inr g'"
    "gc_sent g' = gc_sent g @
       [(c, ack_frame env (co_order_id k) False ''Cancel request rejected (queue full)'')]"
    using perform_request_spec [OF assms(1), of "ReqCancel k" insertion_sort "\<lambda>_. None" env c]
      assms(6) closed by auto
  show ?thesis
    using kept [OF e(1)] e(2) g' on_message_frame [OF assms(3,4,7), of N env c g]
      on_message_frame [OF _ assms(5,7), of N env c g]
    by auto
qed

theorem dropped_order_acknowledged_witness:
  "\<exists>g. on_message 1 sample_env 7 (request_frame 5 (sample_request 1) @ replicate 4046 0) 50
         (started_core 1 4) = Inr g \<and>
       gc_sent g = [(7, ack_frame sample_env 1 True '''')] \<and> pending (gc_matching_engine g) = []"
proof -
  let ?q = "\<lparr>no_order_id = 1, no_price = 100, no_quantity = 5,
     no_symbol = [66, 84, 67, 0, 0, 0, 0, 0], no_side = 66\<rparr>"
  have inv: "engine_inv 1 (gc_matching_engine (started_core 1 4))"
    using started_engine(1) [of 1 4] by simp
  show ?thesis
    using dropped_order_acknowledged [OF inv, of ?q 5 "replicate 4046 0" "\<lparr>co_order_id = 1\<rparr>"
        "replicate 4067 0" sample_env 50 7]
    by (auto simp: started_engine buffer_size_def length_request_frame sizeof_defs sample_env_def
        sample_request_def)
qed

text \<open>The table of owners names connected clients only, when handlers and worker turns are not
  interleaved: at the end of any run every owner of an order is connected, so a further worker
  turn that nothing interrupts notifies connected clients only, and after a client's disconnect no
  order is its own. What is left of this when the steps of the threads interleave is shown in
  \<open>Gateway_Interleaving\<close>.\<close>

theorem sequential_owners_connected:
  assumes "0 < N" and "\<forall>ev\<in>set evs. event_ok ev"
    and "senders_connected N srt inet evs (started_core N s)"
    and "gateway_run N srt inet evs (started_core N s) = Inr g"
  shows "ran (gc_order_to_client g) \<subseteq> dom (gc_client_sessions g) \<and>
         (\<exists>g' log. gateway_step N srt inet (WorkerRuns envs d) g = Inr g' \<and>
             gc_sent g' = gc_sent g @ log \<and> fst ` set log \<subseteq> dom (gc_client_sessions g)) \<and>
         (\<exists>g'. gateway_step N srt inet (ClientLeaves env c) g = Inr g' \<and>
             c \<notin> dom (gc_client_sessions g') \<and> c \<notin> ran (gc_order_to_client g'))"
proof -
  have g: "core_ok N g" "sessions_inv g"
    using gateway_run_sessions [OF started_core_ok [OF assms(1)] started_core_sessions assms(2-4)] by auto
  obtain e ts where "gateway_worker N srt inet envs d g =
      Inr (g\<lparr>gc_matching_engine := e, gc_sent := gc_sent g @ trade_log envs 0 ts g\<rparr>)"
    using gateway_worker_spec [OF core_okD [OF g(1)], of srt inet d envs] by blast
  moreover have "fst ` set (trade_log envs 0 ts g) \<subseteq> dom (gc_client_sessions g)"
    using trade_log_targets [OF g(2)] by force
  moreover have "ran (gc_order_to_client g) \<subseteq> dom (gc_client_sessions g)"
    using g(2) by (simp add: sessions_inv_def)
  ultimately show ?thesis
    by (auto simp: unregister_client_def ran_def)
qed

theorem sequential_owners_connected_witness:
  "\<exists>g. gateway_run 10000 insertion_sort (\<lambda>_. None)
         [ClientConnects sample_env 7,
          ClientSends sample_env 7 (padded (request_frame 5 (sample_request 1))) 50]
         (started_core 10000 4) = Inr g \<and>
       ran (gc_order_to_client g) \<subseteq> dom (gc_client_sessions g) \<and> gc_order_to_client g 1 = Some 7"
proof -
  let ?evs = "[ClientConnects sample_env 7,
    ClientSends sample_env 7 (padded (request_frame 5 (sample_request 1))) 50]"
  let ?g = "(started_core 10000 4)\<lparr>gc_client_sessions := [7 \<mapsto> generate_session_id sample_env]\<rparr>"
  have ok: "\<forall>ev\<in>set ?evs. event_ok ev"
    using request_frame_in_bounds [of "sample_request 1" 5 "replicate 4046 0"]
    by (simp add: well_framed_def buffer_size_def request_in_frame request_wf_terminated)
  have "engine_inv 10000 (gc_matching_engine ?g)"
    using started_engine(1) [of 10000 4] by simp
  then obtain e where m: "on_message 10000 sample_env 7 (padded (request_frame 5 (sample_request 1))) 50 ?g =
      Inr (?g\<lparr>gc_matching_engine := e, gc_order_to_client := [1 \<mapsto> 7],
             gc_sent := [(7, ack_frame sample_env 1 True [])]\<rparr>)"
    using perform_request_spec [of 10000 ?g "sample_request 1" insertion_sort "\<lambda>_. None" sample_env 7]
      on_message_frame [of "sample_request 1" 5 "replicate 4046 0" 50 10000 sample_env 7 ?g]
    by (auto simp: request_wf_terminated buffer_size_def sizeof_MessageHeader_def)
  then obtain g where r: "gateway_run 10000 insertion_sort (\<lambda>_. None) ?evs (started_core 10000 4) = Inr g"
    "gc_order_to_client g 1 = Some 7"
    by (simp add: register_client_def del: padded_sample)
  have "senders_connected 10000 insertion_sort (\<lambda>_. None) ?evs (started_core 10000 4)"
    by (simp add: register_client_def del: padded_sample split: sum.split)
  then show ?thesis
    using sequential_owners_connected [OF _ ok _ r(1)] r by simp
qed

text \<open>C21: every trade of a worker's turn that nothing interrupts is reported. The callback's trades are those the engine
  reports for the turn, in order, and for each the buyer is notified first, then the seller, of
  those whose order has an owner; a notification is a well-formed frame from which the client
  reads the trade back.\<close>

theorem trades_notified:
  assumes "engine_inv N (gc_matching_engine g)"
    and "\<forall>cmd\<in>set (pending (gc_matching_engine g)). symbol_ok cmd"
  shows "\<exists>e trades. engine_step N srt inet (WorkerTurn d) (gc_matching_engine g) = Inr (e, trades) \<and>
           gateway_worker N srt inet envs d g =
             Inr (g\<lparr>gc_matching_engine := e, gc_sent := gc_sent g @ trade_log envs 0 trades g\<rparr>) \<and>
           (\<forall>t\<in>set trades. \<exists>header. parse_header (trade_frame env t) (length (trade_frame env t)) = Inr header \<and>
              mh_type header = message_type_code TRADE \<and>
              validate_message header (drop sizeof_MessageHeader (trade_frame env t)) = Inr True \<and>
              Trade_of (drop sizeof_MessageHeader (trade_frame env t)) = t)"
proof -
  obtain e ts where w: "engine_step N srt inet (WorkerTurn d) (gc_matching_engine g) = Inr (e, ts)"
    "gateway_worker N srt inet envs d g =
      Inr (g\<lparr>gc_matching_engine := e, gc_sent := gc_sent g @ trade_log envs 0 ts g\<rparr>)"
    "\<forall>t\<in>set ts. length (tr_symbol t) = 8"
    using gateway_worker_spec [OF assms, of srt inet d envs] by blast
  have "parse_header (trade_frame env t) (length (trade_frame env t)) =
      Inr (frame_header (message_type_code TRADE) (env_send_now env) (Trade_bytes t)) \<and>
    validate_message (frame_header (message_type_code TRADE) (env_send_now env) (Trade_bytes t))
      (Trade_bytes t) = Inr True \<and> Trade_of (Trade_bytes t) = t" if "t \<in> set ts" for t
    using w(3) that parse_header_frame [where rest = "[]"] validate_frame [where rest = "[]"]
      Trade_roundtrip [of t "[]"]
    by (simp add: trade_frame_def sizeof_Trade_def del: validate_frame parse_header_frame)
  then show ?thesis
    using w(1,2) by (intro exI [of _ e] exI [of _ ts]) (auto simp: trade_frame_def)
qed

theorem trades_notified_witness:
  "\<exists>e g t. engine_run 3 insertion_sort (\<lambda>_. None)
       [AddRequest False (sample_bid 1 100 5), WorkerTurn 1, AddRequest False (sample_ask 2 100 5)]
       (started_engine 3 4) = Inr (e, []) \<and>
     gateway_worker 3 insertion_sort (\<lambda>_. None) (\<lambda>_. sample_env) 3
       ((started_core 3 4)\<lparr>gc_matching_engine := e, gc_order_to_client := [1 \<mapsto> 7, 2 \<mapsto> 8]\<rparr>) = Inr g \<and>
     gc_sent g = [(7, trade_frame sample_env t), (8, trade_frame sample_env t)]"
proof -
  let ?evs = "[AddRequest False (sample_bid 1 100 5), WorkerTurn 1, AddRequest False (sample_ask 2 100 5)]"
  have ok: "symbol_ok (sample_bid 1 100 5)" "symbol_ok (sample_ask 2 100 5)"
    by (simp_all add: symbol_ok_def sample_bid_def sample_ask_def Order_make_def zero_in_strncpy)
  obtain e ts where r: "engine_run 3 insertion_sort (\<lambda>_. None) ?evs (started_engine 3 4) = Inr (e, ts)"
    and m: "engine_moves 3 insertion_sort (started_engine 3 4) (concat (map request_of ?evs)) e ts"
    using engine_run_moves [OF started_engine(1), of 3 4 ?evs insertion_sort "\<lambda>_. None"] ok
    by (auto simp: started_engine)
  have inv: "engine_inv 3 e" "\<forall>cmd\<in>set (pending e). symbol_ok cmd"
    using m engine_moves_pending [OF m] ok by (auto simp: engine_moves_def started_engine)
  have "case engine_run 3 insertion_sort (\<lambda>_. None) ?evs (started_engine 3 4) of
          Inl _ \<Rightarrow> False
        | Inr (e, ts) \<Rightarrow> ts = [] \<and> (case engine_step 3 insertion_sort (\<lambda>_. None) (WorkerTurn 3) e of
            Inl _ \<Rightarrow> False
          | Inr (e', ts') \<Rightarrow> map (\<lambda>t. (tr_buy_order_id t, tr_sell_order_id t)) ts' = [(1, 2)])"
    by code_simp
  then have z: "ts = []" "case engine_step 3 insertion_sort (\<lambda>_. None) (WorkerTurn 3) e of Inl _ \<Rightarrow> False
      | Inr (e', ts') \<Rightarrow> map (\<lambda>t. (tr_buy_order_id t, tr_sell_order_id t)) ts' = [(1, 2)]"
    unfolding r by (simp_all del: engine_step.simps)
  let ?g = "(started_core 3 4)\<lparr>gc_matching_engine := e, gc_order_to_client := [1 \<mapsto> 7, 2 \<mapsto> 8]\<rparr>"
  obtain e' trades where w: "engine_step 3 insertion_sort (\<lambda>_. None) (WorkerTurn 3) e = Inr (e', trades)"
    "gateway_worker 3 insertion_sort (\<lambda>_. None) (\<lambda>_. sample_env) 3 ?g =
       Inr (?g\<lparr>gc_matching_engine := e', gc_sent := gc_sent ?g @ trade_log (\<lambda>_. sample_env) 0 trades ?g\<rparr>)"
    using trades_notified [of 3 ?g insertion_sort "\<lambda>_. None" 3 "\<lambda>_. sample_env" sample_env] inv
    by (auto simp del: engine_step.simps)
  obtain t where "trades = [t]" "tr_buy_order_id t = 1" "tr_sell_order_id t = 2"
    using z(2) w(1) by (auto simp del: engine_step.simps)
  then have "trade_log (\<lambda>_. sample_env) 0 trades ?g =
      [(7, trade_frame sample_env t), (8, trade_frame sample_env t)]"
    by (simp add: owner_told_def)
  then show ?thesis
    using r z(1) w(2) by (intro exI [of _ e] exI) auto
qed

text \<open>A trade can be reported to a stranger. The callback releases the mutex between looking the
  descriptors up and sending: if in between the owner leaves and another client is given the same
  descriptor, the notification of the first one's trade is sent to the second, who owns no
  order.\<close>

theorem trade_sent_to_stranger:
  assumes "gc_order_to_client g (tr_buy_order_id t) = Some c" and "c \<noteq> -1"
    and "length (tr_symbol t) = 8"
  shows "\<exists>g1 g2 g3 log. unregister_client env c g = Inr g1 \<and> register_client env' c g1 = Inr g2 \<and>
           notify_clients env1 env2 (lookup_clients t g) t g2 = Inr g3 \<and>
           gc_client_sessions g2 c = Some (generate_session_id env') \<and> c \<notin> ran (gc_order_to_client g2) \<and>
           gc_sent g3 = gc_sent g @ (c, trade_frame env1 t) # log"
  using assms
  by (simp add: unregister_client_def register_client_def notify_clients_eq notifications_def
      lookup_clients_def client_of_def ran_def)

theorem trade_sent_to_stranger_witness:
  "\<exists>g1 g2 g3. unregister_client sample_env 7
       ((started_core 10000 4)\<lparr>gc_order_to_client := [1 \<mapsto> 7]\<rparr>) = Inr g1 \<and>
     register_client sample_env 7 g1 = Inr g2 \<and>
     notify_clients sample_env sample_env (7, -1) sample_trade g2 = Inr g3 \<and>
     gc_sent g3 = [(7, trade_frame sample_env sample_trade)]"
proof -
  let ?g = "(started_core 10000 4)\<lparr>gc_order_to_client := [1 \<mapsto> 7]\<rparr>"
  have l: "lookup_clients sample_trade ?g = (7, -1)"
    by (simp add: lookup_clients_def client_of_def sample_trade_def Trade_make_def)
  have t: "tr_buy_order_id sample_trade = 1" "length (tr_symbol sample_trade) = 8"
    by (simp_all add: sample_trade_def Trade_make_def)
  obtain g1 g2 g3 log where r: "unregister_client sample_env 7 ?g = Inr g1"
    "register_client sample_env 7 g1 = Inr g2"
    "notify_clients sample_env sample_env (7, -1) sample_trade g2 = Inr g3"
    "gc_sent g3 = gc_sent ?g @ (7, trade_frame sample_env sample_trade) # log"
    using trade_sent_to_stranger [of ?g sample_trade 7 sample_env sample_env sample_env sample_env] l t
    by auto
  have "gc_sent g2 = []"
    using r(1,2) by (auto simp: unregister_client_def register_client_def)
  then have "gc_sent g3 = [(7, trade_frame sample_env sample_trade)]"
    using r(3) by (auto simp: notify_clients_eq [OF t(2)] notifications_def)
  then show ?thesis
    using r by blast
qed

end
