(* ===== verification/Gateway_Main.thy ===== *)
theory Gateway_Main
  imports Gateway_Server
begin

text \<open>
  The life of the process: \<^verbatim>\<open>order_gateway/main.cpp\<close> and the start, stop and destruction of
  \<^verbatim>\<open>GatewayServer\<close> in \<^verbatim>\<open>order_gateway/gateway_server.cpp\<close>. The argument of \<^verbatim>\<open>main\<close>, the results of the
  socket calls, whether the threads can be created, which threads end and the arrival of a signal are
  inputs; the exit status and the calls made are outputs, or that the process blocks in a join.
\<close>

section \<open>State\<close>

record GatewayServer =
  gs_port :: u16
  gs_running :: bool
  gs_tcp_server :: "(gateway_env, GatewayCore) TCPServer"
  gs_core :: GatewayCore

section \<open>Lifecycle\<close>

definition GatewayServer_new :: "nat \<Rightarrow> u16 \<Rightarrow> fd \<Rightarrow> GatewayServer" where
  "GatewayServer_new N port statsd_socket =
     \<lparr>gs_port = port, gs_running = False,
      gs_tcp_server =
        TCPServer_set_message_handler (on_message N)
          (TCPServer_set_disconnect_handler unregister_client
            (TCPServer_set_connect_handler register_client (TCPServer_new port))),
      gs_core =
        \<lparr>gc_matching_engine =
           MatchingEngine_set_trade_callback True (MatchingEngine_new N statsd_socket),
         gc_client_sessions = Map.empty, gc_order_to_client = Map.empty, gc_sent = []\<rparr>\<rparr>"

text \<open>
  An exception of \<^verbatim>\<open>std::thread\<close> leaves \<^verbatim>\<open>start\<close> at once: when the accept thread cannot be created the engine
  is not stopped here.
\<close>

definition GatewayServer_start ::
    "os_results \<Rightarrow> GatewayServer \<Rightarrow> start_result \<times> os_call list \<times> GatewayServer" where
  "GatewayServer_start r s =
     (case MatchingEngine_start (res_engine_thread r) (gc_matching_engine (gs_core s)) of
        (StartError error, engine) \<Rightarrow> (StartError (''Failed to start matching engine: '' @ error), [], s)
      | (StartThrows, engine) \<Rightarrow>
          (StartThrows, [], s\<lparr>gs_core := (gs_core s)\<lparr>gc_matching_engine := engine\<rparr>\<rparr>)
      | (Started, engine) \<Rightarrow>
          (let s1 = s\<lparr>gs_core := (gs_core s)\<lparr>gc_matching_engine := engine\<rparr>\<rparr> in
           case TCPServer_start r (gs_tcp_server s1) of
             (StartError error, calls, tcp) \<Rightarrow>
               (StartError (''Failed to start TCP server: '' @ error), calls,
                s1\<lparr>gs_tcp_server := tcp,
                   gs_core := (gs_core s1)\<lparr>gc_matching_engine := MatchingEngine_stop engine\<rparr>\<rparr>)
           | (StartThrows, calls, tcp) \<Rightarrow> (StartThrows, calls, s1\<lparr>gs_tcp_server := tcp\<rparr>)
           | (Started, calls, tcp) \<Rightarrow>
               (Started, calls, s1\<lparr>gs_tcp_server := tcp, gs_running := True\<rparr>)))"

text \<open>
  The result is \<open>None\<close> if a thread the TCP server joins never ends. The worker of the engine ends by itself:
  it tests the flag after every turn.
\<close>

definition GatewayServer_stop ::
    "(worker \<Rightarrow> bool) \<Rightarrow> GatewayServer \<Rightarrow> (os_call list \<times> GatewayServer) option" where
  "GatewayServer_stop ended s =
     (if \<not> gs_running s then Some ([], s)
      else case TCPServer_stop ended (gs_tcp_server s) of
        None \<Rightarrow> None
      | Some (calls, tcp) \<Rightarrow>
          Some (calls,
            s\<lparr>gs_running := False, gs_tcp_server := tcp,
              gs_core := (gs_core s)\<lparr>gc_matching_engine := MatchingEngine_stop (gc_matching_engine (gs_core s)),
                                     gc_client_sessions := Map.empty\<rparr>\<rparr>))"

text \<open>
  The destructor stops the server; the members are then destroyed in reverse order of their
  declaration, the engine before the TCP server. The result is the calls and what is left of
  the engine's heap.
\<close>

definition GatewayServer_destroy ::
    "nat \<Rightarrow> (worker \<Rightarrow> bool) \<Rightarrow> GatewayServer \<Rightarrow>
     (os_call list \<times> (heap \<times> fd list) outcome option) option" where
  "GatewayServer_destroy N ended s =
     (case GatewayServer_stop ended s of
        None \<Rightarrow> None
      | Some (calls, s1) \<Rightarrow>
          (let engine = MatchingEngine_destroy N (gc_matching_engine (gs_core s1)) in
           case TCPServer_destroy ended (gs_tcp_server s1) of
             None \<Rightarrow> None
           | Some (calls', tcp) \<Rightarrow> Some (calls @ calls', engine)))"

definition GatewayServer_is_running :: "GatewayServer \<Rightarrow> bool" where
  "GatewayServer_is_running s = gs_running s"

section \<open>main\<close>

text \<open>
  \<^verbatim>\<open>std::atoi\<close>: white space, a sign, then digits up to the first other character. A value that does
  not fit an \<^verbatim>\<open>int\<close> is undefined behaviour.
\<close>

definition is_space :: "char \<Rightarrow> bool" where
  "is_space c \<longleftrightarrow> of_char c \<in> {9, 10, 11, 12, 13, 32 :: nat}"

definition atoi :: "string \<Rightarrow> int outcome" where
  "atoi str =
     (let s = dropWhile is_space str;
          (negative, digits) =
            (case s of [] \<Rightarrow> (False, [])
             | c # cs \<Rightarrow> if c = CHR ''-'' then (True, cs) else if c = CHR ''+'' then (False, cs) else (False, s));
          n = int (decimal_value (takeWhile is_digit digits));
          value = (if negative then - n else n)
      in if - (2 ^ 31) \<le> value \<and> value < 2 ^ 31 then Inr value else Inl SignedOverflow)"

definition main_port :: "string list \<Rightarrow> u16 outcome" where
  "main_port argv =
     (if 1 < length argv then map_sum id word_of_int (atoi (argv ! 1)) else Inr 8080)"

text \<open>
  What \<^verbatim>\<open>main\<close> has come to: it has exited with a status, after some calls, or is blocked for ever in a
  join, or is in its waiting loop. The \<^verbatim>\<open>try\<close> block is left with the destructor of the server, whether
  by a \<^verbatim>\<open>return\<close>, at its end, or by an exception, which \<^verbatim>\<open>main\<close> catches.
\<close>

datatype main_result =
    Exits int "os_call list"
  | Blocks
  | Waits "os_call list" GatewayServer

definition leave_block ::
    "nat \<Rightarrow> (worker \<Rightarrow> bool) \<Rightarrow> int \<Rightarrow> os_call list \<Rightarrow> GatewayServer \<Rightarrow> main_result" where
  "leave_block N ended status calls s =
     (case GatewayServer_destroy N ended s of
        None \<Rightarrow> Blocks
      | Some (calls', engine) \<Rightarrow> Exits status (calls @ calls'))"

definition main_catch ::
    "nat \<Rightarrow> (worker \<Rightarrow> bool) \<Rightarrow> os_call list \<Rightarrow> GatewayServer \<Rightarrow> main_result" where
  "main_catch N ended calls s = leave_block N ended 1 calls s"

definition main_start ::
    "nat \<Rightarrow> string list \<Rightarrow> fd \<Rightarrow> (worker \<Rightarrow> bool) \<Rightarrow> os_results \<Rightarrow> main_result outcome" where
  "main_start N argv statsd_socket ended r =
     (case main_port argv of
        Inl f \<Rightarrow> Inl f
      | Inr port \<Rightarrow>
          (case GatewayServer_start r (GatewayServer_new N port statsd_socket) of
             (StartError error, calls, s) \<Rightarrow> Inr (leave_block N ended 1 calls s)
           | (StartThrows, calls, s) \<Rightarrow> Inr (main_catch N ended calls s)
           | (Started, calls, s) \<Rightarrow> Inr (Waits calls s)))"

definition signal_handler ::
    "(worker \<Rightarrow> bool) \<Rightarrow> GatewayServer option \<Rightarrow> (os_call list \<times> GatewayServer option) option" where
  "signal_handler ended gateway =
     (case gateway of
        None \<Rightarrow> Some ([], None)
      | Some s \<Rightarrow>
          (case GatewayServer_stop ended s of
             None \<Rightarrow> None
           | Some (calls, s') \<Rightarrow> Some (calls, Some s')))"

text \<open>The waiting loop ends when the server is no longer running.\<close>

definition main_finish :: "nat \<Rightarrow> (worker \<Rightarrow> bool) \<Rightarrow> GatewayServer \<Rightarrow> main_result" where
  "main_finish N ended s =
     (if GatewayServer_is_running s then Waits [] s else leave_block N ended 0 [] s)"

section \<open>The port argument\<close>

lemma decimal_not_empty: "decimal n \<noteq> []"
  by (subst decimal.simps) simp

lemma atoi_decimal:
  "atoi (decimal n) = (if n < 2 ^ 31 then Inr (int n) else Inl SignedOverflow)"
proof -
  obtain c cs where d: "decimal n = c # cs"
    using decimal_not_empty [of n] by (cases "decimal n") auto
  have digits: "\<forall>c\<in>set (decimal n). is_digit c"
    by (rule decimal_digits)
  then have "is_digit c"
    using d by simp
  then have c: "\<not> is_space c" "c \<noteq> CHR ''-''" "c \<noteq> CHR ''+''"
    by (auto simp: is_digit_def is_space_def)
  have "takeWhile is_digit (decimal n) = decimal n"
    using digits by (simp add: takeWhile_id_iff)
  then have "int (decimal_value (takeWhile is_digit (c # cs))) = int n"
    using d decimal_value_decimal [of n] by (simp only:)
  then show ?thesis
    unfolding atoi_def d using c by (auto simp: Let_def)
qed

section \<open>Running and stopped\<close>

text \<open>The three flags of the parts agree, and a running server has its socket and accept thread.\<close>

definition all_running :: "GatewayServer \<Rightarrow> bool" where
  "all_running s \<longleftrightarrow> gs_running s \<and> ts_running (gs_tcp_server s) \<and>
     me_running (gc_matching_engine (gs_core s)) \<and> me_worker_thread (gc_matching_engine (gs_core s))"

definition none_running :: "GatewayServer \<Rightarrow> bool" where
  "none_running s \<longleftrightarrow> \<not> gs_running s \<and> \<not> ts_running (gs_tcp_server s) \<and>
     \<not> me_running (gc_matching_engine (gs_core s)) \<and> \<not> me_worker_thread (gc_matching_engine (gs_core s))"

definition calls_ok :: "os_results \<Rightarrow> bool" where
  "calls_ok r \<longleftrightarrow> 0 \<le> res_socket r \<and> 0 \<le> res_setsockopt r \<and> 0 \<le> res_bind r \<and> 0 \<le> res_listen r"

definition threads_created :: "os_results \<Rightarrow> bool" where
  "threads_created r \<longleftrightarrow> res_engine_thread r \<and> res_accept_thread r"

lemmas lifecycle_defs = GatewayServer_start_def GatewayServer_stop_def GatewayServer_new_def
  MatchingEngine_start_def MatchingEngine_stop_def MatchingEngine_new_def
  MatchingEngine_set_trade_callback_def TCPServer_new_def TCPServer_stop_eq TCPServer_destroy_def
  TCPServer_set_message_handler_def TCPServer_set_connect_handler_def
  TCPServer_set_disconnect_handler_def Let_def

lemma none_running_new: "none_running (GatewayServer_new N port sock)"
  by (simp add: none_running_def lifecycle_defs)

lemma start_running:
  assumes "none_running s" and "GatewayServer_start r s = (result, calls, s')"
  shows "if calls_ok r \<and> threads_created r then result = Started \<and> all_running s'
         else \<not> gs_running s' \<and> result \<noteq> Started \<and> ts_worker_threads (gs_tcp_server s') = ts_worker_threads (gs_tcp_server s)"
  using assms
  by (auto simp: none_running_def all_running_def calls_ok_def threads_created_def GatewayServer_start_def
      MatchingEngine_start_def MatchingEngine_stop_def TCPServer_start_def Let_def split: if_splits)

lemma stop_running:
  assumes "all_running s" and "GatewayServer_stop ended s = Some (calls, s')"
  shows "none_running s' \<and> gc_client_sessions (gs_core s') = Map.empty"
  using assms
  by (auto simp: none_running_def all_running_def lifecycle_defs split: if_splits)

lemma stop_again: "none_running s \<Longrightarrow> GatewayServer_stop ended s = Some ([], s)"
  by (simp add: none_running_def GatewayServer_stop_def)

text \<open>The calls of a start on a fresh server.\<close>

lemma start_new:
  assumes "GatewayServer_start r (GatewayServer_new N port sock) = (result, calls, s)"
  shows "(result = Started \<longrightarrow> ts_server_fd (gs_tcp_server s) = res_socket r \<and>
            ts_worker_threads (gs_tcp_server s) = [AcceptThread] \<and> (\<forall>c. SysClose c \<notin> set calls)) \<and>
         (result \<noteq> Started \<longrightarrow> ts_worker_threads (gs_tcp_server s) = [] \<and>
            ts_server_fd (gs_tcp_server s) = (if res_engine_thread r then res_socket r else -1) \<and>
            count (mset calls) (SysClose (res_socket r)) =
              (if res_engine_thread r \<and> 0 \<le> res_socket r \<and> \<not> calls_ok r then 1 else 0))"
  using assms
  by (auto simp: lifecycle_defs TCPServer_start_def calls_ok_def split: if_splits)

lemma leave_not_started:
  assumes "\<not> gs_running s" and "ts_worker_threads (gs_tcp_server s) = []"
  shows "leave_block N ended status calls s =
           Exits status (calls @ (if 0 \<le> ts_server_fd (gs_tcp_server s)
                                  then [SysClose (ts_server_fd (gs_tcp_server s))] else []))"
  using assms
  by (simp add: leave_block_def GatewayServer_destroy_def GatewayServer_stop_def TCPServer_destroy_def
      TCPServer_stop_eq Let_def)

text \<open>A running server that is stopped, then destroyed by \<^verbatim>\<open>main\<close>.\<close>

lemma stop_and_finish:
  assumes "gs_running s" and "0 \<le> ts_server_fd (gs_tcp_server s)"
  shows "if list_all ended (ts_worker_threads (gs_tcp_server s))
         then \<exists>s'. signal_handler ended (Some s) =
                     Some (SysClose (ts_server_fd (gs_tcp_server s)) #
                             map ThreadJoin (ts_worker_threads (gs_tcp_server s)), Some s') \<and>
                none_running s' \<and> gc_client_sessions (gs_core s') = Map.empty \<and>
                gc_matching_engine (gs_core s') = MatchingEngine_stop (gc_matching_engine (gs_core s)) \<and>
                signal_handler ended (Some s') = Some ([], Some s') \<and>
                main_finish N ended s' = Exits 0 []
         else signal_handler ended (Some s) = None"
  using assms
  by (auto simp: none_running_def signal_handler_def main_finish_def leave_block_def
      GatewayServer_is_running_def GatewayServer_destroy_def GatewayServer_stop_def TCPServer_destroy_def
      TCPServer_stop_eq MatchingEngine_stop_def Let_def)

section \<open>Results\<close>

text \<open>C36: how the process ends. It exits with status 1 exactly when a socket call of the start fails or a
  thread cannot be created, which \<^verbatim>\<open>main\<close> sees as an exception. The listening socket is then closed
  twice if it was created and a later socket call failed, and as often as it was created otherwise; the
  exit is never blocked. Otherwise all parts run and \<^verbatim>\<open>main\<close> waits. If the accept thread ends, the signal
  handler stops all parts and forgets the sessions, \<^verbatim>\<open>main\<close> then ends with status 0, the listening
  socket has been closed exactly once, and a second signal changes nothing; if the accept thread does not
  end, the handler never returns.\<close>

theorem main_exit_status:
  assumes "main_start N argv sock ended r = Inr result"
  shows "case result of
           Blocks \<Rightarrow> False
         | Exits status calls \<Rightarrow> status = 1 \<and> \<not> (calls_ok r \<and> threads_created r) \<and>
             count (mset calls) (SysClose (res_socket r)) =
               (if \<not> res_engine_thread r \<or> res_socket r < 0 then 0 else if calls_ok r then 1 else 2)
         | Waits calls s \<Rightarrow> calls_ok r \<and> threads_created r \<and> all_running s \<and> main_finish N ended s = Waits [] s \<and>
             (if ended AcceptThread
              then \<exists>calls' s' calls''. signal_handler ended (Some s) = Some (calls', Some s') \<and> none_running s' \<and>
                     gc_client_sessions (gs_core s') = Map.empty \<and>
                     signal_handler ended (Some s') = Some ([], Some s') \<and>
                     main_finish N ended s' = Exits 0 calls'' \<and>
                     count (mset (calls @ calls' @ calls'')) (SysClose (res_socket r)) = 1
              else signal_handler ended (Some s) = None)"
proof -
  obtain port where port: "main_port argv = Inr port"
    using assms by (auto simp: main_start_def split: sum.splits)
  obtain res calls s where st: "GatewayServer_start r (GatewayServer_new N port sock) = (res, calls, s)"
    by (metis prod_cases3)
  note run = start_running [OF none_running_new st] and new = start_new [OF st]
  show ?thesis
  proof (cases "calls_ok r \<and> threads_created r")
    case False
    then have "result = leave_block N ended 1 calls s"
      using run assms port st by (cases res) (auto simp: main_start_def main_catch_def)
    then show ?thesis
      using False run new leave_not_started [of s N ended 1 calls]
      by (auto simp: calls_ok_def threads_created_def)
  next
    case True
    then have s: "result = Waits calls s" "all_running s" "res = Started"
      using run assms port st by (auto simp: main_start_def split: if_splits)
    have "0 \<le> ts_server_fd (gs_tcp_server s)"
      using new s(3) True by (simp add: calls_ok_def)
    then have fin: "if ended AcceptThread
        then \<exists>s'. signal_handler ended (Some s) =
               Some ([SysClose (res_socket r), ThreadJoin AcceptThread], Some s') \<and>
             none_running s' \<and> gc_client_sessions (gs_core s') = Map.empty \<and>
             signal_handler ended (Some s') = Some ([], Some s') \<and> main_finish N ended s' = Exits 0 []
        else signal_handler ended (Some s) = None"
      using stop_and_finish [of s ended N] s(2) new s(3) by (auto simp: all_running_def split: if_splits)
    have waits: "main_finish N ended s = Waits [] s"
      using s(2) by (simp add: main_finish_def GatewayServer_is_running_def all_running_def)
    have "count (mset calls) (SysClose (res_socket r)) = 0"
      using new s(3) by (simp add: count_eq_zero_iff)
    then show ?thesis
      using fin waits True s(1,2) by (auto split: if_splits)
  qed
qed

definition good_results :: os_results where
  "good_results = \<lparr>res_socket = 3, res_setsockopt = 0, res_bind = 0, res_listen = 0,
                   res_engine_thread = True, res_accept_thread = True\<rparr>"

lemma good_results_ok: "calls_ok good_results \<and> threads_created good_results"
  by (simp add: good_results_def calls_ok_def threads_created_def)

theorem main_exit_status_witness:
  "(\<exists>calls s s' calls' calls''. main_start 10000 [''gateway''] 4 (\<lambda>_. True) good_results = Inr (Waits calls s) \<and>
      signal_handler (\<lambda>_. True) (Some s) = Some (calls', Some s') \<and>
      main_finish 10000 (\<lambda>_. True) s' = Exits 0 calls'') \<and>
   (\<exists>calls. main_start 10000 [''gateway''] 4 (\<lambda>_. True) (good_results\<lparr>res_accept_thread := False\<rparr>) =
      Inr (Exits 1 calls))"
proof -
  have ex: "\<exists>result. main_start 10000 [''gateway''] 4 (\<lambda>_. True) r = Inr result" for r
    by (auto simp: main_start_def main_port_def split: prod.split start_result.split)
  obtain r1 where e1: "main_start 10000 [''gateway''] 4 (\<lambda>_. True) good_results = Inr r1"
    using ex by blast
  obtain r2 where e2: "main_start 10000 [''gateway''] 4 (\<lambda>_. True) (good_results\<lparr>res_accept_thread := False\<rparr>) = Inr r2"
    using ex by blast
  show ?thesis
    using main_exit_status [OF e1] main_exit_status [OF e2] e1 e2 good_results_ok
    by (cases r1; cases r2) (auto simp: threads_created_def)
qed

text \<open>The port given on the command line. A decimal number below \<open>2\<^sup>3\<^sup>1\<close> becomes the port that is its
  value modulo 65536, so a number that is no port is accepted and silently truncated; larger
  ones are undefined behaviour of \<^verbatim>\<open>atoi\<close>; without an argument the port is 8080.\<close>

theorem main_port_truncates:
  "main_port [prog, decimal n] = (if n < 2 ^ 31 then Inr (of_nat n) else Inl SignedOverflow) \<and>
   unat (of_nat n :: u16) = n mod 65536 \<and> main_port [prog] = Inr 8080"
  by (simp add: main_port_def atoi_decimal unat_of_nat)

end
