(* ===== verification/Benchmark.thy ===== *)
theory Benchmark
  imports Gateway_Main Complex_Main
begin

text \<open>
  \<^verbatim>\<open>benchmarks/benchmark.cpp\<close>: the load generator. Its client threads share a block of atomic
  counters, with the minimum and maximum latency updated by compare-and-exchange loops. The
  counters are modelled twice: as one operation per message, and as the interleaving of the
  atomic accesses of any number of threads, where a compare-and-exchange may fail spuriously.
  Random choices, clocks and socket results are inputs; the socket calls a client makes are an
  output. The report and \<^verbatim>\<open>main\<close> are in \<open>Benchmark_Report\<close>.
\<close>

section \<open>The counters\<close>

record BenchmarkStats =
  total_messages :: u64
  total_latency_ns :: u64
  min_latency :: u64
  max_latency :: u64
  bs_errors :: u64

definition BenchmarkStats_new :: BenchmarkStats where
  "BenchmarkStats_new =
     \<lparr>total_messages = 0, total_latency_ns = 0, min_latency = - 1, max_latency = 0, bs_errors = 0\<rparr>"

text \<open>The update for one message sent, when the thread runs alone.\<close>

definition record_latency :: "u64 \<Rightarrow> BenchmarkStats \<Rightarrow> BenchmarkStats" where
  "record_latency latency stats =
     (let s1 = stats\<lparr>total_messages := total_messages stats + 1\<rparr>;
          s2 = s1\<lparr>total_latency_ns := total_latency_ns s1 + latency\<rparr>;
          s3 = (if latency < min_latency s2 then s2\<lparr>min_latency := latency\<rparr> else s2)
      in if max_latency s3 < latency then s3\<lparr>max_latency := latency\<rparr> else s3)"

definition record_errors :: "u64 \<Rightarrow> BenchmarkStats \<Rightarrow> BenchmarkStats" where
  "record_errors n stats = stats\<lparr>bs_errors := bs_errors stats + n\<rparr>"

section \<open>A client\<close>

text \<open>One message: the draws of the generator, what \<^verbatim>\<open>send\<close> returned and the time it took.\<close>

record bench_turn =
  bt_even :: bool
  bt_qty :: nat
  bt_price :: nat
  bt_sent :: int
  bt_latency :: int

definition order_text :: "string \<Rightarrow> bench_turn \<Rightarrow> string" where
  "order_text symbol t =
     ''NEW_ORDER '' @ symbol @ '' '' @ (if bt_even t then ''BUY'' else ''SELL'') @ '' '' @
     decimal (bt_qty t) @ '' '' @ decimal (bt_price t)"

text \<open>The calls a client makes; a connect carries the port in network byte order.\<close>

datatype bench_call =
    CallSocket
  | CallConnect fd string u16
  | CallSend fd string
  | CallClose fd

text \<open>
  The client without its generator, whose draws are inputs, and without the pointer to the
  counters, which are passed along.
\<close>

record BenchmarkClient =
  bcl_socket_fd :: fd
  bcl_symbol :: string

definition BenchmarkClient_new :: "int \<Rightarrow> string \<Rightarrow> string + BenchmarkClient" where
  "BenchmarkClient_new sock symbol =
     (if sock < 0 then Inl ''Failed to create socket''
      else Inr \<lparr>bcl_socket_fd = sock, bcl_symbol = symbol\<rparr>)"

definition BenchmarkClient_destroy :: "BenchmarkClient \<Rightarrow> bench_call list" where
  "BenchmarkClient_destroy client =
     (if 0 \<le> bcl_socket_fd client then [CallClose (bcl_socket_fd client)] else [])"

definition BenchmarkClient_connect ::
    "string \<Rightarrow> u16 \<Rightarrow> int \<Rightarrow> int \<Rightarrow> BenchmarkClient \<Rightarrow> bench_call list \<times> bool" where
  "BenchmarkClient_connect host port pton result client =
     (if pton \<le> 0 then ([], False)
      else if result < 0 then ([CallConnect (bcl_socket_fd client) host (htons port)], False)
      else ([CallConnect (bcl_socket_fd client) host (htons port)], True))"

definition send_order :: "BenchmarkClient \<Rightarrow> bench_turn \<Rightarrow> bench_call \<times> bool" where
  "send_order client t =
     (let order = order_text (bcl_symbol client) t
      in (CallSend (bcl_socket_fd client) order, bt_sent t = int (length order)))"

text \<open>The loop over the messages; a signed duration becomes an unsigned latency.\<close>

fun bench_loop ::
    "BenchmarkClient \<Rightarrow> bench_turn list \<Rightarrow> BenchmarkStats \<Rightarrow> bench_call list \<times> BenchmarkStats" where
  "bench_loop client [] stats = ([], stats)"
| "bench_loop client (t # ts) stats =
     (case send_order client t of (call, sent) \<Rightarrow>
      case bench_loop client ts
             (if sent then record_latency (word_of_int (bt_latency t)) stats
              else record_errors 1 stats) of (calls, stats') \<Rightarrow> (call # calls, stats'))"

definition run_benchmark ::
    "BenchmarkClient \<Rightarrow> u64 \<Rightarrow> (nat \<Rightarrow> bench_turn) \<Rightarrow> BenchmarkStats \<Rightarrow> bench_call list \<times> BenchmarkStats" where
  "run_benchmark client num_messages turns stats =
     bench_loop client (map turns [0..<unat num_messages]) stats"

text \<open>
  The body of a client thread: a socket that cannot be created throws, a failed connect is
  reported; either way all its messages count as errors. The client is destroyed at the end of
  the block that holds it.
\<close>

record bench_client =
  bc_socket :: int
  bc_pton :: int
  bc_connect :: int
  bc_turns :: "nat \<Rightarrow> bench_turn"

definition client_thread ::
    "string \<Rightarrow> u16 \<Rightarrow> u64 \<Rightarrow> nat \<Rightarrow> bench_client \<Rightarrow> BenchmarkStats \<Rightarrow> bench_call list \<times> BenchmarkStats" where
  "client_thread host port messages_per_client i c stats =
     (case BenchmarkClient_new (bc_socket c) (if i mod 2 = 0 then ''AAPL'' else ''GOOGL'') of
        Inl error \<Rightarrow> ([CallSocket], record_errors messages_per_client stats)
      | Inr client \<Rightarrow>
          (case BenchmarkClient_connect host port (bc_pton c) (bc_connect c) client of
             (calls, True) \<Rightarrow>
               (case run_benchmark client messages_per_client (bc_turns c) stats of
                  (sends, stats') \<Rightarrow> (CallSocket # calls @ sends @ BenchmarkClient_destroy client, stats'))
           | (calls, False) \<Rightarrow>
               (CallSocket # calls @ BenchmarkClient_destroy client,
                record_errors messages_per_client stats)))"

text \<open>The threads of all clients, one after the other; their calls are kept apart.\<close>

fun client_threads ::
    "string \<Rightarrow> u16 \<Rightarrow> u64 \<Rightarrow> nat \<Rightarrow> bench_client list \<Rightarrow> BenchmarkStats \<Rightarrow>
     bench_call list list \<times> BenchmarkStats" where
  "client_threads host port messages_per_client i [] stats = ([], stats)"
| "client_threads host port messages_per_client i (c # cs) stats =
     (case client_thread host port messages_per_client i c stats of (calls, stats1) \<Rightarrow>
      case client_threads host port messages_per_client (Suc i) cs stats1 of (callss, stats2) \<Rightarrow>
        (calls # callss, stats2))"

text \<open>The arguments of \<^verbatim>\<open>main\<close>; \<open>None\<close> is the usage message with exit status 1.\<close>

record bench_args =
  ba_host :: string
  ba_port :: u16
  ba_num_clients :: u64
  ba_messages_per_client :: u64

definition bench_main_args :: "string list \<Rightarrow> bench_args option outcome" where
  "bench_main_args argv =
     (if length argv < 4 then Inr None
      else case atoi (argv ! 2) of
        Inl f \<Rightarrow> Inl f
      | Inr port \<Rightarrow> (case atoi (argv ! 3) of
        Inl f \<Rightarrow> Inl f
      | Inr clients \<Rightarrow> (case (if 4 < length argv then atoi (argv ! 4) else Inr 1000) of
        Inl f \<Rightarrow> Inl f
      | Inr messages \<Rightarrow>
          Inr (Some \<lparr>ba_host = argv ! 1, ba_port = word_of_int port,
                     ba_num_clients = word_of_int clients,
                     ba_messages_per_client = word_of_int messages\<rparr>))))"

text \<open>The success rate \<^verbatim>\<open>print_stats\<close> shows; the difference is unsigned.\<close>

definition success_rate :: "BenchmarkStats \<Rightarrow> rat" where
  "success_rate stats =
     (if 0 < total_messages stats
      then 100 * of_nat (unat (total_messages stats - bs_errors stats)) /
           of_nat (unat (total_messages stats))
      else 0)"

section \<open>The atomic steps of an update\<close>

datatype stats_pc =
    AddMessage u64
  | AddLatency u64
  | LoadMin u64
  | TestMin u64 u64
  | ExchangeMin u64 u64
  | LoadMax u64
  | TestMax u64 u64
  | ExchangeMax u64 u64
  | Recorded u64

text \<open>
  A weak compare-and-exchange that fails, because the value differs or spuriously, loads the
  current value into its first argument.
\<close>

fun stats_step :: "bool \<Rightarrow> stats_pc \<times> BenchmarkStats \<Rightarrow> stats_pc \<times> BenchmarkStats" where
  "stats_step spurious (AddMessage l, s) = (AddLatency l, s\<lparr>total_messages := total_messages s + 1\<rparr>)"
| "stats_step spurious (AddLatency l, s) = (LoadMin l, s\<lparr>total_latency_ns := total_latency_ns s + l\<rparr>)"
| "stats_step spurious (LoadMin l, s) = (TestMin l (min_latency s), s)"
| "stats_step spurious (TestMin l current_min, s) =
     (if l < current_min then ExchangeMin l current_min else LoadMax l, s)"
| "stats_step spurious (ExchangeMin l current_min, s) =
     (if min_latency s = current_min \<and> \<not> spurious then (LoadMax l, s\<lparr>min_latency := l\<rparr>)
      else (TestMin l (min_latency s), s))"
| "stats_step spurious (LoadMax l, s) = (TestMax l (max_latency s), s)"
| "stats_step spurious (TestMax l current_max, s) =
     (if current_max < l then ExchangeMax l current_max else Recorded l, s)"
| "stats_step spurious (ExchangeMax l current_max, s) =
     (if max_latency s = current_max \<and> \<not> spurious then (Recorded l, s\<lparr>max_latency := l\<rparr>)
      else (TestMax l (max_latency s), s))"
| "stats_step spurious (Recorded l, s) = (Recorded l, s)"

text \<open>The threads \<open>0\<close> to \<open>n - 1\<close> and the updates that have ended, with the errors counted.\<close>

record stats_system =
  counters :: BenchmarkStats
  thread :: "nat \<Rightarrow> stats_pc option"
  ended :: "u64 list"
  failed :: "u64 list"

definition stats_system_new :: stats_system where
  "stats_system_new =
     \<lparr>counters = BenchmarkStats_new, thread = (\<lambda>_. None), ended = [], failed = []\<rparr>"

inductive stats_system_step :: "nat \<Rightarrow> stats_system \<Rightarrow> stats_system \<Rightarrow> bool" for n :: nat where
  record_begin: "t < n \<Longrightarrow> thread s t = None \<Longrightarrow>
    stats_system_step n s (s\<lparr>thread := (thread s)(t := Some (AddMessage l))\<rparr>)"
| record_access: "t < n \<Longrightarrow> thread s t = Some pc \<Longrightarrow> stats_step spurious (pc, counters s) = (pc', c') \<Longrightarrow>
    stats_system_step n s (s\<lparr>thread := (thread s)(t := Some pc'), counters := c'\<rparr>)"
| record_end: "t < n \<Longrightarrow> thread s t = Some (Recorded l) \<Longrightarrow>
    stats_system_step n s (s\<lparr>thread := (thread s)(t := None), ended := ended s @ [l]\<rparr>)"
| error_added: "t < n \<Longrightarrow> thread s t = None \<Longrightarrow>
    stats_system_step n s (s\<lparr>counters := record_errors k (counters s), failed := failed s @ [k]\<rparr>)"

inductive stats_system_reachable :: "nat \<Rightarrow> stats_system \<Rightarrow> bool" for n :: nat where
  stats_new: "stats_system_reachable n stats_system_new"
| stats_more: "stats_system_reachable n s \<Longrightarrow> stats_system_step n s s' \<Longrightarrow> stats_system_reachable n s'"

section \<open>The invariant of the counters\<close>

text \<open>How far an update is: the number of its four effects that have been made.\<close>

fun effects_made :: "stats_pc \<Rightarrow> nat" where
  "effects_made (AddMessage l) = 0"
| "effects_made (AddLatency l) = 1"
| "effects_made (LoadMin l) = 2"
| "effects_made (TestMin l c) = 2"
| "effects_made (ExchangeMin l c) = 2"
| "effects_made (LoadMax l) = 3"
| "effects_made (TestMax l c) = 3"
| "effects_made (ExchangeMax l c) = 3"
| "effects_made (Recorded l) = 4"

fun latency_of :: "stats_pc \<Rightarrow> u64" where
  "latency_of (AddMessage l) = l"
| "latency_of (AddLatency l) = l"
| "latency_of (LoadMin l) = l"
| "latency_of (TestMin l c) = l"
| "latency_of (ExchangeMin l c) = l"
| "latency_of (LoadMax l) = l"
| "latency_of (TestMax l c) = l"
| "latency_of (ExchangeMax l c) = l"
| "latency_of (Recorded l) = l"

definition past_effect :: "nat \<Rightarrow> stats_pc option \<Rightarrow> u64 multiset" where
  "past_effect k pc =
     (case pc of None \<Rightarrow> {#}
      | Some pc \<Rightarrow> if k \<le> effects_made pc then {#latency_of pc#} else {#})"

text \<open>The latencies whose \<open>k\<close>-th effect is in the counters.\<close>

definition counted :: "nat \<Rightarrow> nat \<Rightarrow> stats_system \<Rightarrow> u64 multiset" where
  "counted n k s = mset (ended s) + (\<Sum>t<n. past_effect k (thread s t))"

fun reads_ok :: "BenchmarkStats \<Rightarrow> stats_pc \<Rightarrow> bool" where
  "reads_ok c (TestMin l cur) \<longleftrightarrow> min_latency c \<le> cur"
| "reads_ok c (ExchangeMin l cur) \<longleftrightarrow> min_latency c \<le> cur \<and> l < cur"
| "reads_ok c (TestMax l cur) \<longleftrightarrow> cur \<le> max_latency c"
| "reads_ok c (ExchangeMax l cur) \<longleftrightarrow> cur \<le> max_latency c \<and> cur < l"
| "reads_ok c _ \<longleftrightarrow> True"

definition counters_inv :: "u64 multiset \<Rightarrow> u64 multiset \<Rightarrow> u64 multiset \<Rightarrow> u64 multiset \<Rightarrow> BenchmarkStats \<Rightarrow> bool" where
  "counters_inv msgs lats mins maxs c \<longleftrightarrow>
     total_messages c = of_nat (size msgs) \<and> total_latency_ns c = sum_mset lats \<and>
     (\<forall>l\<in>#mins. min_latency c \<le> l) \<and> (min_latency c = - 1 \<or> min_latency c \<in># mins) \<and>
     (\<forall>l\<in>#maxs. l \<le> max_latency c) \<and> (max_latency c = 0 \<or> max_latency c \<in># maxs)"

definition stats_inv :: "nat \<Rightarrow> stats_system \<Rightarrow> bool" where
  "stats_inv n s \<longleftrightarrow>
     counters_inv (counted n 1 s) (counted n 2 s) (counted n 3 s) (counted n 4 s) (counters s) \<and>
     bs_errors (counters s) = sum_list (failed s) \<and>
     (\<forall>t<n. \<forall>pc. thread s t = Some pc \<longrightarrow> reads_ok (counters s) pc)"

lemma sum_update:
  fixes f :: "'b \<Rightarrow> 'a multiset" and n :: nat
  assumes "t < n"
  shows "(\<Sum>i<n. f ((p(t := x)) i)) + f (p t) = (\<Sum>i<n. f (p i)) + f x"
proof -
  have "(\<Sum>i<n. g i) = (\<Sum>i\<in>{..<n} - {t}. g i) + g t" for g :: "nat \<Rightarrow> 'a multiset"
    using assms by (subst sum.remove [of _ t]) (auto simp: add.commute)
  moreover have "(\<Sum>i\<in>{..<n} - {t}. f ((p(t := x)) i)) = (\<Sum>i\<in>{..<n} - {t}. f (p i))"
    by (rule sum.cong) auto
  ultimately show ?thesis
    by (simp add: add.commute add.left_commute)
qed

lemma counted_update:
  assumes "t < n"
  shows "counted n k (s\<lparr>thread := (thread s)(t := x), counters := c\<rparr>) + past_effect k (thread s t) =
         counted n k s + past_effect k x"
  using sum_update [OF assms, of "past_effect k" "thread s" x]
  by (simp add: counted_def add.assoc)

definition newly :: "nat \<Rightarrow> stats_pc \<Rightarrow> stats_pc \<Rightarrow> u64 multiset" where
  "newly k pc pc' =
     (if effects_made pc < k \<and> k \<le> effects_made pc' then {#latency_of pc#} else {#})"

lemma stats_step_shape:
  assumes "stats_step spurious (pc, c) = (pc', c')"
  shows "latency_of pc' = latency_of pc" and "effects_made pc \<le> effects_made pc'"
    and "bs_errors c' = bs_errors c"
  using assms by (cases pc; auto split: if_splits)+

lemma counted_access:
  assumes "t < n" and "thread s t = Some pc" and "stats_step spurious (pc, counters s) = (pc', c')"
  shows "counted n k (s\<lparr>thread := (thread s)(t := Some pc'), counters := c'\<rparr>) =
         counted n k s + newly k pc pc'"
proof -
  have "past_effect k (Some pc') = past_effect k (Some pc) + newly k pc pc'"
    using stats_step_shape [OF assms(3)] by (auto simp: past_effect_def newly_def)
  then have "counted n k (s\<lparr>thread := (thread s)(t := Some pc'), counters := c'\<rparr>) + past_effect k (Some pc) =
      counted n k s + newly k pc pc' + past_effect k (Some pc)"
    using counted_update [OF assms(1), where k = k and s = s and x = "Some pc'" and c = c'] assms(2) by (simp add: ac_simps)
  then show ?thesis
    by (rule add_right_imp_eq)
qed

text \<open>One access, as seen by the counters and by a thread that has read them.\<close>

lemma stats_step_counters:
  assumes "reads_ok c pc" and "counters_inv m1 m2 m3 m4 c"
  shows "case stats_step spurious (pc, c) of (pc', c') \<Rightarrow>
           counters_inv (m1 + newly 1 pc pc') (m2 + newly 2 pc pc') (m3 + newly 3 pc pc')
             (m4 + newly 4 pc pc') c' \<and> reads_ok c' pc' \<and>
           min_latency c' \<le> min_latency c \<and> max_latency c \<le> max_latency c'"
proof -
  have lower: "\<forall>l\<in>#m3. min_latency c \<le> l" and upper: "\<forall>l\<in>#m4. l \<le> max_latency c"
    using assms(2) by (simp_all add: counters_inv_def)
  show ?thesis
  proof (cases pc)
    case (TestMin l cur)
    then have "min_latency c \<le> l" if "\<not> l < cur"
      using assms(1) that by simp
    then show ?thesis
      using assms TestMin by (auto simp: counters_inv_def newly_def)
  next
    case (ExchangeMin l cur)
    have "\<forall>x\<in>#m3. l \<le> x" "l \<le> cur" if "min_latency c = cur"
      using lower that assms(1) ExchangeMin by (meson less_imp_le order_trans reads_ok.simps(2))+
    then show ?thesis
      using assms ExchangeMin by (auto simp: counters_inv_def newly_def)
  next
    case (TestMax l cur)
    then have "l \<le> max_latency c" if "\<not> cur < l"
      using assms(1) that by simp
    then show ?thesis
      using assms TestMax by (auto simp: counters_inv_def newly_def)
  next
    case (ExchangeMax l cur)
    have "\<forall>x\<in>#m4. x \<le> l" "cur \<le> l" if "max_latency c = cur"
      using upper that assms(1) ExchangeMax by (meson less_imp_le order_trans reads_ok.simps(4))+
    then show ?thesis
      using assms ExchangeMax by (auto simp: counters_inv_def newly_def)
  qed (use assms in \<open>simp_all add: counters_inv_def newly_def\<close>)
qed

lemma reads_ok_mono:
  "reads_ok c pc \<Longrightarrow> min_latency c' \<le> min_latency c \<Longrightarrow> max_latency c \<le> max_latency c' \<Longrightarrow>
   reads_ok c' pc"
  by (cases pc) auto

lemma counted_same:
  "counted n k (s\<lparr>counters := c, failed := f\<rparr>) = counted n k s"
  by (simp add: counted_def)

lemma stats_inv_new: "stats_inv n stats_system_new"
  by (simp add: stats_inv_def stats_system_new_def counted_def past_effect_def counters_inv_def
      BenchmarkStats_new_def)

lemma stats_inv_step:
  assumes "stats_system_step n s s'" and "stats_inv n s"
  shows "stats_inv n s'"
  using assms(1)
proof cases
  case (record_begin t l)
  have "counted n k s' = counted n k s" if "0 < k" for k
    using counted_update [OF record_begin(2), where k = k and s = s and x = "Some (AddMessage l)" and c = "counters s"] record_begin that
    by (simp add: past_effect_def)
  then show ?thesis
    using assms(2) record_begin by (simp add: stats_inv_def)
next
  case (record_access t pc spurious pc' c')
  have r: "reads_ok (counters s) pc"
    using assms(2) record_access by (simp add: stats_inv_def)
  have st: "counters_inv (counted n 1 s + newly 1 pc pc') (counted n 2 s + newly 2 pc pc')
      (counted n 3 s + newly 3 pc pc') (counted n 4 s + newly 4 pc pc') c'" "reads_ok c' pc'"
    "min_latency c' \<le> min_latency (counters s)" "max_latency (counters s) \<le> max_latency c'"
    using stats_step_counters [OF r, of _ _ _ _ spurious] record_access(4) assms(2)
    by (auto simp: stats_inv_def)
  have "counters_inv (counted n 1 s') (counted n 2 s') (counted n 3 s') (counted n 4 s') c'"
    using st(1) counted_access [OF record_access(2,3,4)] record_access(1) by simp
  moreover have "\<forall>u<n. \<forall>p. thread s' u = Some p \<longrightarrow> reads_ok c' p"
    using assms(2) record_access(1) st(2) reads_ok_mono [OF _ st(3,4)]
    by (auto simp: stats_inv_def)
  ultimately show ?thesis
    using assms(2) record_access(1) stats_step_shape(3) [OF record_access(4)] by (simp add: stats_inv_def)
next
  case (record_end t l)
  have "counted n k s' = counted n k s" if "k \<le> 4" for k
  proof -
    have "counted n k (s\<lparr>thread := (thread s)(t := None), counters := counters s\<rparr>) + {#l#} = counted n k s"
      using counted_update [OF record_end(2), where k = k and s = s and x = None and c = "counters s"] record_end that
      by (simp add: past_effect_def)
    then show ?thesis
      using record_end(1) by (simp add: counted_def)
  qed
  then show ?thesis
    using assms(2) record_end by (simp add: stats_inv_def)
next
  case (error_added t k)
  have "counted n j s' = counted n j s" for j
    using error_added(1) counted_same by simp
  moreover have "reads_ok (record_errors k c) pc \<longleftrightarrow> reads_ok c pc" for c pc
    by (cases pc) (simp_all add: record_errors_def)
  ultimately show ?thesis
    using assms(2) error_added by (simp add: stats_inv_def counters_inv_def) (simp add: record_errors_def)
qed

lemma stats_reachable_inv: "stats_system_reachable n s \<Longrightarrow> stats_inv n s"
  by (induction rule: stats_system_reachable.induct) (auto intro: stats_inv_new stats_inv_step)

text \<open>Eight accesses of one thread alone are the sequential update.\<close>

lemma update_alone:
  "(stats_step False ^^ 8) (AddMessage l, s) = (Recorded l, record_latency l s)"
  by (auto simp: eval_nat_numeral record_latency_def Let_def)

lemma counted_quiescent:
  "\<forall>t<n. thread s t = None \<Longrightarrow> counted n k s = mset (ended s)"
  by (simp add: counted_def past_effect_def)

lemma word_max_le: "(- 1 :: u64) \<le> l \<Longrightarrow> l = - 1"
  using word_order.extremum_unique by (metis word_order.extremum_unique)

section \<open>What the gateway reads of a benchmark message\<close>

lemma bytes_of_append [simp]: "bytes_of (s @ t) = bytes_of s @ bytes_of t"
  by (simp add: bytes_of_def)

lemma length_bytes_of [simp]: "length (bytes_of s) = length s"
  by (simp add: bytes_of_def)

lemma order_text_prefix:
  "\<exists>rest. bytes_of (order_text symbol t) = [78, 69, 87, 95, 79, 82, 68, 69, 82] @ rest"
  by (simp add: order_text_def bytes_of_def)

lemma decimal_length: "1 \<le> length (decimal n)"
  using decimal_not_empty [of n] by (cases "decimal n") auto

lemma order_text_length: "3 \<le> length symbol \<Longrightarrow> 21 \<le> length (order_text symbol t)"
  using decimal_length [of "bt_qty t"] decimal_length [of "bt_price t"] by (simp add: order_text_def)

lemma text_header_length:
  "mh_length (header_in ([78, 69, 87, 95, 79, 82, 68, 69, 82] @ rest)) = 5928219604812781381"
proof -
  have "field_at 1 8 (take 21 ([78, 69, 87, 95, 79, 82, 68, 69, 82] @ rest)) =
      [69, 87, 95, 79, 82, 68, 69, 82]"
    by (simp add: field_at_def)
  moreover have "le_word [69, 87, 95, 79, 82, 68, 69, 82] = (5928219604812781381 :: u64)"
    by code_simp
  ultimately show ?thesis
    by (simp add: header_in_def MessageHeader_of_def sizeof_defs del: take_append drop_append)
qed

definition count_turn :: "BenchmarkClient \<Rightarrow> bench_turn \<Rightarrow> BenchmarkStats \<Rightarrow> BenchmarkStats" where
  "count_turn client t stats =
     (if snd (send_order client t) then record_latency (word_of_int (bt_latency t)) stats
      else record_errors 1 stats)"

lemma bench_loop_fold:
  "bench_loop client ts stats = (map (fst \<circ> send_order client) ts, fold (count_turn client) ts stats)"
  by (induction ts arbitrary: stats) (simp_all add: count_turn_def split_def)

lemma record_counts [simp]:
  "total_messages (record_latency l stats) = total_messages stats + 1"
  "bs_errors (record_latency l stats) = bs_errors stats"
  "total_messages (record_errors k stats) = total_messages stats"
  "bs_errors (record_errors k stats) = bs_errors stats + k"
  by (simp_all add: record_latency_def record_errors_def Let_def)

lemma bench_loop_counts:
  "total_messages (snd (bench_loop client ts stats)) + bs_errors (snd (bench_loop client ts stats)) =
   total_messages stats + bs_errors stats + of_nat (length ts)"
  unfolding bench_loop_fold
  by (induction ts arbitrary: stats) (simp_all add: count_turn_def)

text \<open>A client thread by the outcome of its connection.\<close>

definition connects :: "bench_client \<Rightarrow> bool" where
  "connects c \<longleftrightarrow> 0 \<le> bc_socket c \<and> 0 < bc_pton c \<and> 0 \<le> bc_connect c"

definition client_of_thread :: "nat \<Rightarrow> bench_client \<Rightarrow> BenchmarkClient" where
  "client_of_thread i c =
     \<lparr>bcl_socket_fd = bc_socket c, bcl_symbol = (if i mod 2 = 0 then ''AAPL'' else ''GOOGL'')\<rparr>"

lemma client_thread_connects:
  assumes "connects c"
  shows "client_thread host port messages i c stats =
    (CallSocket # CallConnect (bc_socket c) host (htons port) #
       map (fst \<circ> send_order (client_of_thread i c)) (map (bc_turns c) [0..<unat messages]) @
       [CallClose (bc_socket c)],
     fold (count_turn (client_of_thread i c)) (map (bc_turns c) [0..<unat messages]) stats)"
  using assms
  by (simp add: client_thread_def connects_def client_of_thread_def BenchmarkClient_new_def
      BenchmarkClient_connect_def BenchmarkClient_destroy_def run_benchmark_def bench_loop_fold)

lemma client_thread_fails:
  assumes "\<not> connects c"
  shows "client_thread host port messages i c stats =
    (CallSocket #
       (if bc_socket c < 0 then []
        else (if bc_pton c \<le> 0 then [] else [CallConnect (bc_socket c) host (htons port)]) @
          [CallClose (bc_socket c)]),
     record_errors messages stats)"
  using assms
  by (cases "bc_socket c < 0"; cases "bc_pton c \<le> 0")
     (simp_all add: client_thread_def connects_def BenchmarkClient_new_def BenchmarkClient_connect_def
      BenchmarkClient_destroy_def)

lemma client_thread_counts:
  "total_messages (snd (client_thread host port messages i c stats)) +
   bs_errors (snd (client_thread host port messages i c stats)) =
   total_messages stats + bs_errors stats + messages"
  using bench_loop_counts [of "client_of_thread i c" "map (bc_turns c) [0..<unat messages]" stats]
  by (cases "connects c") (simp_all add: client_thread_connects client_thread_fails bench_loop_fold)

text \<open>An uninterrupted update, for examples.\<close>

lemma accesses_reachable:
  "stats_system_reachable n s \<Longrightarrow> t < n \<Longrightarrow> thread s t = Some pc \<Longrightarrow>
   (stats_step False ^^ k) (pc, counters s) = (pc', c') \<Longrightarrow>
   stats_system_reachable n (s\<lparr>thread := (thread s)(t := Some pc'), counters := c'\<rparr>)"
proof (induction k arbitrary: pc' c')
  case 0
  then have "s\<lparr>thread := (thread s)(t := Some pc'), counters := c'\<rparr> = s"
    by (metis fun_upd_triv funpow_0 prod.inject stats_system.surjective stats_system.update_convs(1,2))
  then show ?case using 0(1) by (simp only:)
next
  case (Suc k)
  obtain pc1 c1 where 1: "(stats_step False ^^ k) (pc, counters s) = (pc1, c1)"
    by (metis surj_pair)
  let ?s1 = "s\<lparr>thread := (thread s)(t := Some pc1), counters := c1\<rparr>"
  have "stats_system_reachable n ?s1"
    using Suc.IH [OF Suc.prems(1-3) 1] .
  moreover have "stats_system_step n ?s1 (?s1\<lparr>thread := (thread ?s1)(t := Some pc'), counters := c'\<rparr>)"
    by (rule record_access [where pc = pc1 and spurious = False]) (use Suc.prems 1 in auto)
  ultimately show ?case
    using stats_more by fastforce
qed

lemma one_update_reachable:
  assumes "t < n"
  shows "\<exists>s. stats_system_reachable n s \<and> (\<forall>u<n. thread s u = None) \<and> ended s = [l] \<and> failed s = []"
proof -
  let ?s0 = "stats_system_new" and ?r = "record_latency l BenchmarkStats_new"
  let ?s1 = "?s0\<lparr>thread := (thread ?s0)(t := Some (AddMessage l))\<rparr>"
  let ?s2 = "?s1\<lparr>thread := (thread ?s1)(t := Some (Recorded l)), counters := ?r\<rparr>"
  have "stats_system_reachable n ?s1"
    by (rule stats_more [OF stats_new record_begin]) (use assms in \<open>simp_all add: stats_system_new_def\<close>)
  moreover have "(stats_step False ^^ 8) (AddMessage l, counters ?s1) = (Recorded l, ?r)"
    using update_alone [of l BenchmarkStats_new] by (simp add: stats_system_new_def)
  ultimately have "stats_system_reachable n ?s2"
    using accesses_reachable [of n ?s1 t "AddMessage l" 8 "Recorded l" ?r] assms by simp
  then have "stats_system_reachable n (?s2\<lparr>thread := (thread ?s2)(t := None), ended := ended ?s2 @ [l]\<rparr>)"
    by (rule stats_more) (rule record_end, use assms in simp_all)
  then show ?thesis
    by (intro exI [of _ "?s2\<lparr>thread := (thread ?s2)(t := None), ended := ended ?s2 @ [l]\<rparr>"])
       (simp add: stats_system_new_def)
qed

section \<open>Results\<close>

text \<open>The counters are exact under concurrency. Let any number of threads update them in any
  interleaving of the atomic accesses, compare-and-exchange failing at will: whenever no update
  is in progress, the message counter is the number of updates made and the latency counter
  their sum, both modulo \<open>2\<^sup>6\<^sup>4\<close>, the error counter is the sum of the errors added, and the
  minimum and maximum are those of the latencies recorded.\<close>

theorem stats_exact:
  assumes "stats_system_reachable n s" and "\<forall>t<n. thread s t = None"
  shows "total_messages (counters s) = of_nat (length (ended s)) \<and>
         total_latency_ns (counters s) = sum_list (ended s) \<and>
         bs_errors (counters s) = sum_list (failed s) \<and>
         (ended s \<noteq> [] \<longrightarrow> min_latency (counters s) = Min (set (ended s)) \<and>
                          max_latency (counters s) = Max (set (ended s)))"
proof -
  let ?c = "counters s" and ?ls = "ended s"
  have inv: "counters_inv (mset ?ls) (mset ?ls) (mset ?ls) (mset ?ls) ?c"
    "bs_errors ?c = sum_list (failed s)"
    using stats_reachable_inv [OF assms(1)] counted_quiescent [OF assms(2)]
    by (simp_all add: stats_inv_def)
  have "min_latency ?c = Min (set ?ls) \<and> max_latency ?c = Max (set ?ls)" if ne: "?ls \<noteq> []"
  proof -
    obtain l where l: "l \<in> set ?ls" using ne by (cases ?ls) auto
    have b: "\<forall>x\<in>set ?ls. min_latency ?c \<le> x" "\<forall>x\<in>set ?ls. x \<le> max_latency ?c"
      using inv(1) by (simp_all add: counters_inv_def)
    have "min_latency ?c \<in> set ?ls"
      using inv(1) b(1) l word_max_le [of l] by (auto simp: counters_inv_def)
    moreover have "max_latency ?c \<in> set ?ls"
      using inv(1) b(2) l by (auto simp: counters_inv_def)
    ultimately show ?thesis
      using b by (auto intro: Min_eqI [symmetric] Max_eqI [symmetric])
  qed
  then show ?thesis
    using inv by (auto simp: counters_inv_def sum_mset_sum_list)
qed

theorem stats_exact_witness:
  "\<exists>s. stats_system_reachable 2 s \<and> ended s = [7] \<and> min_latency (counters s) = 7 \<and>
       total_messages (counters s) = 1"
proof -
  obtain s where s: "stats_system_reachable 2 s" "\<forall>t<2. thread s t = None" "ended s = [7]"
    using one_update_reachable [of 0 2 7] by auto
  then show ?thesis
    using stats_exact [OF s(1,2)] by auto
qed

text \<open>
  A schedule of accesses: which thread makes its next one, and whether it is a compare-and-exchange that fails
  spuriously. A thread whose update is recorded makes none.
\<close>

definition access :: "nat \<times> bool \<Rightarrow> stats_system \<Rightarrow> stats_system option" where
  "access a s =
     (case thread s (fst a) of
        None \<Rightarrow> None
      | Some pc \<Rightarrow>
          (if effects_made pc = 4 then None
           else case stats_step (snd a) (pc, counters s) of (pc', c') \<Rightarrow>
             Some (s\<lparr>thread := (thread s)(fst a := Some pc'), counters := c'\<rparr>)))"

fun accesses :: "(nat \<times> bool) list \<Rightarrow> stats_system \<Rightarrow> stats_system option" where
  "accesses [] s = Some s"
| "accesses (a # as) s = (case access a s of None \<Rightarrow> None | Some s' \<Rightarrow> accesses as s')"

text \<open>
  A bound on the accesses a thread has left if nobody interferes, with a reserve of \<open>w\<close> for each of its two
  successful exchanges. A value it has read that is not the current one costs two more.
\<close>

definition stale :: "u64 \<Rightarrow> u64 \<Rightarrow> nat" where
  "stale value cur = (if value = cur then 0 else 2)"

fun rank :: "nat \<Rightarrow> BenchmarkStats \<Rightarrow> stats_pc \<Rightarrow> nat" where
  "rank w c (AddMessage l) = 2 * w + 8"
| "rank w c (AddLatency l) = 2 * w + 7"
| "rank w c (LoadMin l) = 2 * w + 6"
| "rank w c (TestMin l cur) = 2 * w + 5 + stale (min_latency c) cur"
| "rank w c (ExchangeMin l cur) = 2 * w + 4 + stale (min_latency c) cur"
| "rank w c (LoadMax l) = w + 3"
| "rank w c (TestMax l cur) = w + 2 + stale (max_latency c) cur"
| "rank w c (ExchangeMax l cur) = w + 1 + stale (max_latency c) cur"
| "rank w c (Recorded l) = 0"

definition interferes :: "BenchmarkStats \<Rightarrow> BenchmarkStats \<Rightarrow> nat" where
  "interferes c c' = (if min_latency c' = min_latency c \<and> max_latency c' = max_latency c then 0 else 1)"

lemma rank_bound: "rank w c pc \<le> 2 * w + 8"
  by (cases pc) (simp_all add: stale_def)

lemma rank_interferes: "rank w c' pc \<le> rank w c pc + 2 * interferes c c'"
  by (cases pc) (simp_all add: stale_def interferes_def)

lemma rank_step:
  assumes "stats_step spurious (pc, c) = (pc', c')" and "effects_made pc \<noteq> 4"
  shows "rank w c' pc' + 1 + w * interferes c c' \<le> rank w c pc + (if spurious then 2 else 0)"
  using assms by (cases pc) (auto simp: stale_def interferes_def split: if_splits)

definition total_rank :: "nat \<Rightarrow> stats_system \<Rightarrow> nat" where
  "total_rank n s =
     (\<Sum>t<n. case thread s t of None \<Rightarrow> 0 | Some pc \<Rightarrow> rank (2 * n) (counters s) pc)"

lemma access_rank:
  assumes "access (t, spurious) s = Some s'" and "t < n"
  shows "total_rank n s' + 1 \<le> total_rank n s + (if spurious then 2 else 0)"
proof -
  obtain pc pc' c' where pc: "thread s t = Some pc" "effects_made pc \<noteq> 4"
    "stats_step spurious (pc, counters s) = (pc', c')"
    "s' = s\<lparr>thread := (thread s)(t := Some pc'), counters := c'\<rparr>"
    using assms(1) by (auto simp: access_def split: option.splits if_splits prod.splits)
  let ?r = "\<lambda>c p. case p of None \<Rightarrow> 0 | Some pc \<Rightarrow> rank (2 * n) c pc" and ?i = "interferes (counters s) c'"
  let ?rest = "{..<n} - {t}"
  have "(\<Sum>u\<in>?rest. ?r c' (thread s' u)) \<le> (\<Sum>u\<in>?rest. ?r (counters s) (thread s u) + 2 * ?i)"
    by (rule sum_mono) (auto simp: pc(4) rank_interferes split: option.split)
  also have "\<dots> \<le> (\<Sum>u\<in>?rest. ?r (counters s) (thread s u)) + 2 * n * ?i"
    using assms(2) by (auto simp: sum.distrib interferes_def)
  finally have rest: "(\<Sum>u\<in>?rest. ?r c' (thread s' u)) \<le> (\<Sum>u\<in>?rest. ?r (counters s) (thread s u)) + 2 * n * ?i" .
  have new: "counters s' = c'" "thread s' t = Some pc'"
    by (simp_all add: pc(4))
  have "total_rank n s' = rank (2 * n) c' pc' + (\<Sum>u\<in>?rest. ?r c' (thread s' u))"
    "total_rank n s = rank (2 * n) (counters s) pc + (\<Sum>u\<in>?rest. ?r (counters s) (thread s u))"
    unfolding total_rank_def new(1)
    using assms(2) pc(1) new(2) by (simp_all add: sum.remove [of "{..<n}" t])
  then show ?thesis
    using rest rank_step [OF pc(3,2), of "2 * n"] by linarith
qed

lemma accesses_rank:
  "accesses as s = Some s' \<Longrightarrow> \<forall>(t, spurious)\<in>set as. t < n \<Longrightarrow>
   length as + total_rank n s' \<le> total_rank n s + 2 * length (filter snd as)"
proof (induction as arbitrary: s)
  case Nil
  then show ?case by simp
next
  case (Cons a as)
  obtain t spurious where a: "a = (t, spurious)" by (cases a)
  obtain s1 where s1: "access a s = Some s1" "accesses as s1 = Some s'"
    using Cons.prems(1) by (auto split: option.splits)
  have "t < n"
    using Cons.prems(2) a by simp
  then show ?case
    using access_rank [of t spurious s s1 n] s1(1) Cons.IH [OF s1(2)] Cons.prems(2) a by (auto split: if_splits)
qed

lemma total_rank_bound: "total_rank n s \<le> n * (4 * n + 8)"
proof -
  have "total_rank n s \<le> (\<Sum>t<n. 4 * n + 8)"
    unfolding total_rank_def
    by (rule sum_mono) (use rank_bound [of "2 * n"] in \<open>auto split: option.split\<close>)
  then show ?thesis
    by simp
qed

text \<open>C40: the updates terminate, however the threads interleave. Let \<open>n\<close> threads be in the middle of their
  updates, wherever they are and whatever they have read: any schedule of their accesses has at most
  \<open>n (4n + 8)\<close> of them, plus two for each compare-and-exchange that fails spuriously, so the two retry loops
  cannot keep each other going; and as long as an update is not recorded its thread can go on, so a
  schedule that cannot be continued has recorded all of them.\<close>

theorem updates_terminate:
  assumes "accesses as s = Some s'" and "\<forall>(t, spurious)\<in>set as. t < n"
  shows "length as \<le> n * (4 * n + 8) + 2 * length (filter snd as) \<and>
         ((\<forall>t<n. \<forall>spurious. access (t, spurious) s' = None) \<longrightarrow>
          (\<forall>t<n. \<forall>pc. thread s' t = Some pc \<longrightarrow> (\<exists>l. pc = Recorded l)))"
proof -
  have "length as \<le> n * (4 * n + 8) + 2 * length (filter snd as)"
    using accesses_rank [OF assms] total_rank_bound [of n s] by linarith
  moreover have "\<exists>l. pc = Recorded l" if "thread s' t = Some pc" "access (t, False) s' = None" for t pc
    using that by (cases pc) (auto simp: access_def split: prod.splits if_splits)
  ultimately show ?thesis
    by blast
qed

definition two_updates :: stats_system where
  "two_updates = stats_system_new\<lparr>thread := [0 \<mapsto> AddMessage 7, 1 \<mapsto> AddMessage 5]\<rparr>"

text \<open>The first thread wins the minimum; the second one retries, once because of it and once spuriously.\<close>

definition racing_accesses :: "(nat \<times> bool) list" where
  "racing_accesses =
     [(0, False), (0, False), (0, False), (0, False), (1, False), (1, False), (1, False), (1, False),
      (0, False), (1, False), (1, False), (1, True), (1, False), (1, False),
      (1, False), (1, False), (1, False), (0, False), (0, False), (0, False)]"

theorem updates_terminate_witness:
  "\<exists>s. accesses racing_accesses two_updates = Some s \<and>
       length racing_accesses \<le> 2 * (4 * 2 + 8) + 2 * length (filter snd racing_accesses) \<and>
       (\<forall>t<2. \<forall>pc. thread s t = Some pc \<longrightarrow> (\<exists>l. pc = Recorded l))"
proof -
  obtain s where s: "accesses racing_accesses two_updates = Some s"
      "thread s = [1 \<mapsto> Recorded 5, 0 \<mapsto> Recorded 7]"
    by (simp add: racing_accesses_def two_updates_def stats_system_new_def BenchmarkStats_new_def access_def)
  have "\<forall>(t, spurious)\<in>set racing_accesses. t < 2"
    by (simp add: racing_accesses_def)
  moreover have "\<forall>t<2. \<forall>spurious. access (t, spurious) s = None"
    by (auto simp: access_def s(2))
  ultimately show ?thesis
    using updates_terminate [OF s(1), of 2] s(1) by auto
qed

text \<open>The load generator does not speak the gateway's protocol. It sends text; its first bytes,
  read as a header, state a payload of more than \<open>5 * 10\<^sup>1\<^sup>8\<close> bytes, so every one of its messages makes
  the gateway's message handler read past its receive buffer.\<close>

theorem benchmark_faults_gateway:
  assumes "3 \<le> length symbol" and "length junk = buffer_size"
    and "length (order_text symbol t) \<le> buffer_size"
  shows "on_message N env c (recv_into (bytes_of (order_text symbol t)) junk)
           (length (order_text symbol t)) g = Inl OutOfBoundsRead"
proof -
  let ?data = "recv_into (bytes_of (order_text symbol t)) junk"
  obtain rest where d: "?data = [78, 69, 87, 95, 79, 82, 68, 69, 82] @ rest"
    using order_text_prefix [of symbol t] by (auto simp: recv_into_def)
  have "mh_length (header_in ?data) = 5928219604812781381"
    unfolding d by (rule text_header_length)
  then have "stated_length ?data = 5928219604812781360"
    by (simp add: stated_length_def sizeof_defs)
  moreover have "length ?data = buffer_size"
    using assms(2,3) by simp
  ultimately show ?thesis
    using on_message_perform [of ?data "length (order_text symbol t)" N env c g]
      order_text_length [OF assms(1), of t]
    by (simp add: sizeof_MessageHeader_def payload_in_def buffer_size_def)
qed

theorem benchmark_faults_gateway_witness:
  "on_message 10000 sample_env 7
     (recv_into (bytes_of (order_text ''AAPL''
        \<lparr>bt_even = True, bt_qty = 5, bt_price = 12345, bt_sent = 0, bt_latency = 0\<rparr>)) (replicate 4096 0))
     26 (started_core 10000 4) = Inl OutOfBoundsRead"
proof -
  let ?t = "\<lparr>bt_even = True, bt_qty = 5, bt_price = 12345, bt_sent = 0, bt_latency = 0\<rparr>"
  have "length (order_text ''AAPL'' ?t) = 26"
    by (simp add: order_text_def decimal.simps)
  then show ?thesis
    using benchmark_faults_gateway [of "''AAPL''" "replicate 4096 0" ?t 10000 sample_env 7 "started_core 10000 4"]
    by (simp add: buffer_size_def)
qed

text \<open>The success rate is a percentage only while there are no more errors than messages: with
  more, the unsigned difference wraps around and the rate exceeds one hundred per cent.\<close>

theorem success_rate_bounded_iff:
  assumes "0 < total_messages stats"
  shows "success_rate stats \<le> 100 \<longleftrightarrow> bs_errors stats \<le> total_messages stats"
proof -
  let ?m = "total_messages stats" and ?e = "bs_errors stats"
  have pos: "0 < (of_nat (unat ?m) :: rat)"
    using assms by (simp only: word_less_nat_alt unat_0 of_nat_0_less_iff)
  have "success_rate stats \<le> 100 \<longleftrightarrow> (of_nat (unat (?m - ?e)) :: rat) \<le> of_nat (unat ?m)"
    using assms pos by (simp add: success_rate_def divide_le_eq)
  also have "\<dots> \<longleftrightarrow> unat (?m - ?e) \<le> unat ?m"
    by (rule of_nat_le_iff)
  also have "\<dots> \<longleftrightarrow> ?e \<le> ?m"
  proof -
    have "unat ?e < 2 ^ 64"
      using unsigned_less [of ?e, where 'a = nat] by simp
    then show ?thesis
      by (auto simp: unat_sub_if_size word_le_nat_alt word_size)
  qed
  finally show ?thesis .
qed

theorem success_rate_bounded_iff_witness:
  "\<not> success_rate \<lparr>total_messages = 1, total_latency_ns = 9, min_latency = 9, max_latency = 9,
                   bs_errors = 2\<rparr> \<le> 100"
  using success_rate_bounded_iff [of "\<lparr>total_messages = 1, total_latency_ns = 9, min_latency = 9,
      max_latency = 9, bs_errors = 2\<rparr>"] by (simp add: word_le_nat_alt)

text \<open>Every message is counted once. After all clients have run, the messages and the errors
  counted add up to the number of clients times the messages per client, modulo \<open>2\<^sup>6\<^sup>4\<close>, whether a
  client had no socket, could not connect, or had some of its sends fail.\<close>

theorem benchmark_accounts:
  "total_messages (snd (client_threads host port messages i cs stats)) +
   bs_errors (snd (client_threads host port messages i cs stats)) =
   total_messages stats + bs_errors stats + of_nat (length cs) * messages"
proof (induction cs arbitrary: i stats)
  case Nil
  then show ?case by simp
next
  case (Cons c cs)
  let ?s1 = "snd (client_thread host port messages i c stats)"
  show ?case
    using Cons.IH [of "Suc i" ?s1] client_thread_counts [of host port messages i c stats]
    by (simp add: split_def algebra_simps)
qed

end
