(* ===== verification/Benchmark_Report.thy ===== *)
theory Benchmark_Report
  imports Benchmark
begin

text \<open>
  \<^verbatim>\<open>print_stats\<close> and \<^verbatim>\<open>main\<close> of \<^verbatim>\<open>benchmarks/benchmark.cpp\<close>. The report holds the numbers that are printed,
  as exact rationals where the code rounds to \<^verbatim>\<open>double\<close> and to two digits. The clients of \<^verbatim>\<open>main\<close> run one after the
  other here; that every interleaving of their threads leaves the same counters is proved below. Whether the system can
  start a thread and the measured duration are inputs.
\<close>

section \<open>The report\<close>

text \<open>A throughput over no time at all is not a number: \<open>None\<close>.\<close>

record bench_report =
  rp_duration :: rat
  rp_messages :: u64
  rp_errors :: u64
  rp_throughput :: "rat option"
  rp_average_us :: rat
  rp_min_us :: rat
  rp_max_us :: rat
  rp_success :: rat

abbreviation rat_of :: "u64 \<Rightarrow> rat" where
  "rat_of w \<equiv> of_nat (unat w)"

definition print_stats :: "BenchmarkStats \<Rightarrow> rat \<Rightarrow> bench_report" where
  "print_stats stats duration_seconds =
     (let total_msgs = total_messages stats;
          total_latency = total_latency_ns stats;
          avg_latency = (if 0 < total_msgs then rat_of total_latency / rat_of total_msgs else 0)
      in \<lparr>rp_duration = duration_seconds, rp_messages = total_msgs, rp_errors = bs_errors stats,
          rp_throughput = (if duration_seconds = 0 then None else Some (rat_of total_msgs / duration_seconds)),
          rp_average_us = avg_latency / 1000, rp_min_us = rat_of (min_latency stats) / 1000,
          rp_max_us = rat_of (max_latency stats) / 1000, rp_success = success_rate stats\<rparr>)"

text \<open>
  A thread that cannot be started makes its constructor throw; nothing catches the exception, so
  the process is terminated.
\<close>

datatype bench_exit = Exited int "bench_report option" | Terminated

definition bench_main ::
    "string list \<Rightarrow> (nat \<Rightarrow> bool) \<Rightarrow> (nat \<Rightarrow> bench_client) \<Rightarrow> int \<Rightarrow>
     (bench_call list list \<times> bench_exit) outcome" where
  "bench_main argv starts clients duration =
     (case bench_main_args argv of
        Inl f \<Rightarrow> Inl f
      | Inr None \<Rightarrow> Inr ([], Exited 1 None)
      | Inr (Some args) \<Rightarrow>
          (if list_all starts [0..<unat (ba_num_clients args)] then
             (case client_threads (ba_host args) (ba_port args) (ba_messages_per_client args) 0
                     (map clients [0..<unat (ba_num_clients args)]) BenchmarkStats_new of
                (calls, stats) \<Rightarrow>
                  Inr (calls, Exited 0 (Some (print_stats stats (of_int duration / 1000)))))
           else Inr ([], Terminated)))"

section \<open>What the clients record\<close>

definition recorded_by :: "u64 \<Rightarrow> nat \<Rightarrow> bench_client \<Rightarrow> u64 list" where
  "recorded_by messages i c =
     (if connects c
      then map (\<lambda>t. word_of_int (bt_latency t))
             (filter (\<lambda>t. snd (send_order (client_of_thread i c) t)) (map (bc_turns c) [0..<unat messages]))
      else [])"

fun recorded :: "u64 \<Rightarrow> nat \<Rightarrow> bench_client list \<Rightarrow> u64 list" where
  "recorded messages i [] = []"
| "recorded messages i (c # cs) = recorded_by messages i c @ recorded messages (Suc i) cs"

definition exact_counters :: "u64 list \<Rightarrow> BenchmarkStats \<Rightarrow> bool" where
  "exact_counters ls c \<longleftrightarrow> counters_inv (mset ls) (mset ls) (mset ls) (mset ls) c"

lemma exact_counters_new: "exact_counters [] BenchmarkStats_new"
  by (simp add: exact_counters_def counters_inv_def BenchmarkStats_new_def)

lemma exact_counters_record:
  assumes "exact_counters ls c"
  shows "exact_counters (ls @ [l]) (record_latency l c)"
proof -
  have "\<forall>x\<in>set ls. min_latency c \<le> x" and "\<forall>x\<in>set ls. x \<le> max_latency c"
    using assms by (simp_all add: exact_counters_def counters_inv_def)
  then have "l < min_latency c \<longrightarrow> (\<forall>x\<in>set ls. l \<le> x)" and "max_latency c < l \<longrightarrow> (\<forall>x\<in>set ls. x \<le> l)"
    by force+
  then show ?thesis
    using assms by (auto simp: exact_counters_def counters_inv_def record_latency_def Let_def word_gt_0)
qed

lemma exact_counters_errors [simp]: "exact_counters ls (record_errors k c) \<longleftrightarrow> exact_counters ls c"
  by (simp add: exact_counters_def counters_inv_def record_errors_def)

lemma exact_counters_fold:
  "exact_counters ls c \<Longrightarrow>
   exact_counters (ls @ map (\<lambda>t. word_of_int (bt_latency t)) (filter (\<lambda>t. snd (send_order client t)) ts))
     (fold (count_turn client) ts c)"
proof (induction ts arbitrary: ls c)
  case Nil
  then show ?case by simp
next
  case (Cons t ts)
  show ?case
    using Cons.IH [OF exact_counters_record [OF Cons.prems], of "word_of_int (bt_latency t)"]
      Cons.IH [of ls "record_errors 1 c"] Cons.prems
    by (simp add: count_turn_def)
qed

lemma exact_counters_threads:
  "exact_counters ls c \<Longrightarrow>
   exact_counters (ls @ recorded messages i cs) (snd (client_threads host port messages i cs c))"
proof (induction cs arbitrary: i ls c)
  case Nil
  then show ?case by simp
next
  case (Cons x cs)
  have "exact_counters (ls @ recorded_by messages i x) (snd (client_thread host port messages i x c))"
    using exact_counters_fold [OF Cons.prems] Cons.prems
    by (cases "connects x") (simp_all add: client_thread_connects client_thread_fails recorded_by_def)
  from Cons.IH [OF this] show ?case
    by (simp add: split_def)
qed

text \<open>The recorded latencies determine the counters.\<close>

lemma exact_min_unique:
  assumes "\<forall>x\<in>set ls. m \<le> x" and "m = - 1 \<or> m \<in> set ls" and "\<forall>x\<in>set ls. m' \<le> x" and "m' = - 1 \<or> m' \<in> set ls"
  shows "m = (m' :: u64)"
  using assms word_max_le by (metis order_antisym)

lemma exact_max_unique:
  assumes "\<forall>x\<in>set ls. x \<le> m" and "m = 0 \<or> m \<in> set ls" and "\<forall>x\<in>set ls. x \<le> m'" and "m' = 0 \<or> m' \<in> set ls"
  shows "m = (m' :: u64)"
  using assms by (metis order_antisym word_zero_le)

lemma exact_counters_unique:
  assumes "exact_counters ls c" and "exact_counters ls' c'" and "mset ls = mset ls'"
    and "bs_errors c = bs_errors c'"
  shows "c = c'"
proof -
  have s: "set ls' = set ls"
    using assms(3) by (metis set_mset_mset)
  have "min_latency c = min_latency c'"
    by (rule exact_min_unique [of ls]) (use assms(1,2) s in \<open>simp_all add: exact_counters_def counters_inv_def\<close>)
  moreover have "max_latency c = max_latency c'"
    by (rule exact_max_unique [of ls]) (use assms(1,2) s in \<open>simp_all add: exact_counters_def counters_inv_def\<close>)
  moreover have "total_messages c = total_messages c'" "total_latency_ns c = total_latency_ns c'"
    using assms(1,2,3) by (simp_all add: exact_counters_def counters_inv_def)
  ultimately show ?thesis
    using assms(4) by simp
qed

lemma exact_counters_quiescent:
  "stats_system_reachable n s \<Longrightarrow> \<forall>t<n. thread s t = None \<Longrightarrow>
   exact_counters (ended s) (counters s) \<and> bs_errors (counters s) = sum_list (failed s)"
  using stats_reachable_inv [of n s] counted_quiescent [of n s]
  by (simp add: stats_inv_def exact_counters_def)

lemma unat_sum_list:
  "(\<Sum>l\<leftarrow>ls. unat l) < 2 ^ 64 \<Longrightarrow> unat (sum_list (ls :: u64 list)) = (\<Sum>l\<leftarrow>ls. unat l)"
proof (induction ls)
  case Nil
  then show ?case by simp
next
  case (Cons l ls)
  then show ?case
    by (simp add: unat_word_ariths(1))
qed

lemma list_mean_bounds:
  fixes ls :: "u64 list"
  assumes "ls \<noteq> []" and "\<forall>x\<in>set ls. m \<le> x" and "\<forall>x\<in>set ls. x \<le> M"
  shows "rat_of m \<le> of_nat (\<Sum>l\<leftarrow>ls. unat l) / of_nat (length ls) \<and>
         of_nat (\<Sum>l\<leftarrow>ls. unat l) / of_nat (length ls) \<le> rat_of M"
proof -
  have "length ls * unat m \<le> (\<Sum>l\<leftarrow>ls. unat l)" and "(\<Sum>l\<leftarrow>ls. unat l) \<le> length ls * unat M"
    using assms(2,3) by (induction ls) (auto simp: word_le_nat_alt)
  then have "(of_nat (length ls * unat m) :: rat) \<le> of_nat (\<Sum>l\<leftarrow>ls. unat l)"
    and "(of_nat (\<Sum>l\<leftarrow>ls. unat l) :: rat) \<le> of_nat (length ls * unat M)"
    by (simp_all only: of_nat_le_iff)
  then show ?thesis
    using assms(1) by (simp add: le_divide_eq divide_le_eq mult.commute)
qed

text \<open>The report of counters that are exact, when neither the number of messages nor the sum of
  the latencies overflows.\<close>

lemma print_stats_exact:
  assumes "exact_counters ls c" and "ls \<noteq> []" and "length ls < 2 ^ 64" and "(\<Sum>l\<leftarrow>ls. unat l) < 2 ^ 64"
  shows "rp_messages (print_stats c d) = of_nat (length ls) \<and>
         rp_average_us (print_stats c d) = of_nat (\<Sum>l\<leftarrow>ls. unat l) / of_nat (length ls) / 1000 \<and>
         rp_min_us (print_stats c d) \<le> rp_average_us (print_stats c d) \<and>
         rp_average_us (print_stats c d) \<le> rp_max_us (print_stats c d)"
proof -
  have c: "total_messages c = of_nat (length ls)" "total_latency_ns c = sum_list ls"
    "\<forall>x\<in>set ls. min_latency c \<le> x" "\<forall>x\<in>set ls. x \<le> max_latency c"
    using assms(1) by (simp_all add: exact_counters_def counters_inv_def sum_mset_sum_list)
  have "unat (total_messages c) = length ls"
    using assms(3) c(1) by (simp add: unat_of_nat)
  moreover from this have "0 < total_messages c"
    using assms(2) by (simp add: word_less_nat_alt)
  ultimately show ?thesis
    using list_mean_bounds [OF assms(2) c(3,4)] c(1,2) unat_sum_list [OF assms(4)]
    by (simp add: print_stats_def Let_def divide_right_mono)
qed

section \<open>Arguments\<close>

lemma atoi_negative:
  assumes "n \<le> 2 ^ 31"
  shows "atoi (CHR ''-'' # decimal n) = Inr (- int n)"
proof -
  have "decimal_value (takeWhile is_digit (decimal n)) = n"
    using decimal_digits [of n] by (subst takeWhile_eq_all_conv [THEN iffD2]) (simp_all add: decimal_value_decimal)
  then show ?thesis
    using assms by (simp add: atoi_def is_space_def Let_def)
qed

lemma negative_count_large:
  assumes "0 < n" and "n \<le> 2 ^ 31"
  shows "2 ^ 63 < unat (word_of_int (- int n) :: u64)"
proof -
  have "(- int n) mod 2 ^ 64 = 2 ^ 64 - int n"
    using assms by (simp add: zmod_zminus1_eq_if)
  then have "uint (word_of_int (- int n) :: u64) = 2 ^ 64 - int n"
    by (subst uint_word_of_int) simp
  then show ?thesis
    using assms by (simp add: unat_eq_nat_uint)
qed

lemma client_threads_nth:
  "j < length cs \<Longrightarrow>
   \<exists>stats'. fst (client_threads host port messages i cs stats) ! j =
           fst (client_thread host port messages (i + j) (cs ! j) stats')"
proof (induction cs arbitrary: i j stats)
  case Nil
  then show ?case by simp
next
  case (Cons c cs)
  show ?case
  proof (cases j)
    case 0
    then show ?thesis by (auto simp: split_def)
  next
    case (Suc k)
    then show ?thesis
      using Cons.IH [of k "Suc i" "snd (client_thread host port messages i c stats)"] Cons.prems
      by (auto simp: split_def)
  qed
qed

lemma bench_main_runs:
  assumes "bench_main_args argv = Inr (Some args)" and "\<forall>i < unat (ba_num_clients args). starts i"
  shows "bench_main argv starts clients duration =
    Inr (fst (client_threads (ba_host args) (ba_port args) (ba_messages_per_client args) 0
           (map clients [0..<unat (ba_num_clients args)]) BenchmarkStats_new),
         Exited 0 (Some (print_stats (snd (client_threads (ba_host args) (ba_port args)
           (ba_messages_per_client args) 0 (map clients [0..<unat (ba_num_clients args)]) BenchmarkStats_new))
           (of_int duration / 1000))))"
  using assms by (simp add: bench_main_def list_all_iff split_def)

section \<open>An example\<close>

text \<open>One client whose first message is sent in 5 nanoseconds and whose second send fails.\<close>

definition sample_client :: bench_client where
  "sample_client =
     \<lparr>bc_socket = 3, bc_pton = 1, bc_connect = 0,
      bc_turns = (\<lambda>i. \<lparr>bt_even = True, bt_qty = 5, bt_price = 12345,
                        bt_sent = (if i = 0 then 26 else -1), bt_latency = 5\<rparr>)\<rparr>"

definition sample_argv :: "string list" where
  "sample_argv = [''benchmark'', ''127.0.0.1'', decimal 8080, decimal 1, decimal 2]"

lemma sample_argv_args:
  "bench_main_args sample_argv =
     Inr (Some \<lparr>ba_host = ''127.0.0.1'', ba_port = 8080, ba_num_clients = 1, ba_messages_per_client = 2\<rparr>)"
  by (simp add: bench_main_args_def sample_argv_def atoi_decimal)

lemma sample_recorded: "recorded_by 2 0 sample_client = [5]"
  by (simp add: recorded_by_def sample_client_def connects_def send_order_def Let_def order_text_def
      client_of_thread_def decimal.simps upt_rec)

section \<open>Results\<close>

text \<open>C39: the report is right. If every thread of the load generator can be started, it exits with
  status 0 and a report in which messages and errors add up to the number of clients times the
  messages per client, modulo \<open>2\<^sup>6\<^sup>4\<close>. If at least one message was sent, and neither the number
  of messages nor the sum of the latencies overflows, the report counts exactly the messages whose
  send succeeded, the average is the mean of their latencies, and it lies between the minimum
  and the maximum.\<close>

theorem bench_main_report:
  assumes "bench_main_args argv = Inr (Some args)" and "\<forall>i < unat (ba_num_clients args). starts i"
    and "ls = recorded (ba_messages_per_client args) 0 (map clients [0..<unat (ba_num_clients args)])"
  shows "\<exists>calls r. bench_main argv starts clients duration = Inr (calls, Exited 0 (Some r)) \<and>
           rp_messages r + rp_errors r = ba_num_clients args * ba_messages_per_client args \<and>
           (ls \<noteq> [] \<and> length ls < 2 ^ 64 \<and> (\<Sum>l\<leftarrow>ls. unat l) < 2 ^ 64 \<longrightarrow>
              rp_messages r = of_nat (length ls) \<and>
              rp_average_us r = of_nat (\<Sum>l\<leftarrow>ls. unat l) / of_nat (length ls) / 1000 \<and>
              rp_min_us r \<le> rp_average_us r \<and> rp_average_us r \<le> rp_max_us r)"
proof -
  let ?cs = "map clients [0..<unat (ba_num_clients args)]"
  let ?c = "snd (client_threads (ba_host args) (ba_port args) (ba_messages_per_client args) 0 ?cs BenchmarkStats_new)"
  let ?r = "print_stats ?c (of_int duration / 1000)"
  have "rp_messages ?r + rp_errors ?r = ba_num_clients args * ba_messages_per_client args"
    using benchmark_accounts [of "ba_host args" "ba_port args" "ba_messages_per_client args" 0 ?cs BenchmarkStats_new]
    by (simp add: print_stats_def Let_def BenchmarkStats_new_def)
  moreover have "exact_counters ls ?c"
    using exact_counters_threads [OF exact_counters_new] assms(3) by simp
  ultimately show ?thesis
    using bench_main_runs [OF assms(1,2), of clients duration] print_stats_exact [of ls ?c "of_int duration / 1000"]
    by blast
qed

theorem bench_main_report_witness:
  "\<exists>calls r. bench_main sample_argv (\<lambda>_. True) (\<lambda>_. sample_client) 10 = Inr (calls, Exited 0 (Some r)) \<and>
     rp_messages r = 1 \<and> rp_messages r + rp_errors r = 2 \<and> rp_average_us r = 5 / 1000 \<and>
     rp_min_us r \<le> rp_average_us r"
  using bench_main_report [OF sample_argv_args, of "\<lambda>_. True" "[5]" "\<lambda>_. sample_client" 10]
  by (simp add: sample_recorded) fastforce

text \<open>The report does not depend on the schedule. Whatever the interleaving of the atomic accesses
  of the threads, once no update is in progress and the clients' latencies and errors have been
  recorded, in any order, the counters are those of running the clients one after the other.\<close>

theorem counters_schedule_independent:
  assumes "stats_system_reachable n s" and "\<forall>t<n. thread s t = None"
    and "mset (ended s) = mset (recorded messages 0 cs)"
    and "sum_list (failed s) = of_nat (length cs) * messages - of_nat (length (ended s))"
  shows "counters s = snd (client_threads host port messages 0 cs BenchmarkStats_new)"
proof (rule exact_counters_unique [OF _ _ assms(3)])
  let ?c = "snd (client_threads host port messages 0 cs BenchmarkStats_new)"
  show "exact_counters (ended s) (counters s)"
    using exact_counters_quiescent [OF assms(1,2)] by simp
  show c: "exact_counters (recorded messages 0 cs) ?c"
    using exact_counters_threads [OF exact_counters_new, of messages 0 cs host port] by simp
  have "total_messages ?c = of_nat (length (ended s))"
    using c assms(3) by (simp add: exact_counters_def counters_inv_def flip: size_mset)
  then have "bs_errors ?c = of_nat (length cs) * messages - of_nat (length (ended s))"
    using benchmark_accounts [of host port messages 0 cs BenchmarkStats_new]
    by (simp add: BenchmarkStats_new_def eq_diff_eq add.commute)
  then show "bs_errors (counters s) = bs_errors ?c"
    using exact_counters_quiescent [OF assms(1,2)] assms(4) by simp
qed

theorem counters_schedule_independent_witness:
  "\<exists>s. stats_system_reachable 2 s \<and> ended s = [5] \<and>
       counters s = snd (client_threads ''127.0.0.1'' 8080 1 0 [sample_client] BenchmarkStats_new)"
proof -
  obtain s where s: "stats_system_reachable 2 s" "\<forall>t<2. thread s t = None" "ended s = [5]" "failed s = []"
    using one_update_reachable [of 0 2 5] by auto
  have "recorded 1 0 [sample_client] = [5]"
    by (simp add: recorded_by_def sample_client_def connects_def send_order_def Let_def order_text_def
        client_of_thread_def decimal.simps)
  then show ?thesis
    using counters_schedule_independent [OF s(1,2), of 1 "[sample_client]" "''127.0.0.1''" 8080] s by auto
qed

text \<open>No client leaks its socket. A client that got one makes no call on any other descriptor,
  and its last call, the only one of its kind, closes it; a client that got none makes no
  further call.\<close>

theorem bench_sockets_closed:
  assumes "j < length cs"
  shows "(bc_socket (cs ! j) < 0 \<longrightarrow>
            fst (client_threads host port messages i cs stats) ! j = [CallSocket]) \<and>
         (0 \<le> bc_socket (cs ! j) \<longrightarrow>
            (\<exists>mid. fst (client_threads host port messages i cs stats) ! j =
                     CallSocket # mid @ [CallClose (bc_socket (cs ! j))] \<and>
                   (\<forall>call\<in>set mid. call = CallConnect (bc_socket (cs ! j)) host (htons port) \<or>
                      (\<exists>message. call = CallSend (bc_socket (cs ! j)) message))))"
proof -
  obtain stats' where e: "fst (client_threads host port messages i cs stats) ! j =
      fst (client_thread host port messages (i + j) (cs ! j) stats')"
    using client_threads_nth [OF assms] by blast
  show ?thesis
    unfolding e
    by (cases "connects (cs ! j)")
       (auto simp: client_thread_connects client_thread_fails client_of_thread_def send_order_def
          Let_def connects_def)
qed

theorem bench_sockets_closed_witness:
  "\<exists>mid. fst (client_threads ''127.0.0.1'' 8080 2 0 [sample_client] BenchmarkStats_new) ! 0 =
           CallSocket # mid @ [CallClose 3]"
  using bench_sockets_closed [of 0 "[sample_client]" "''127.0.0.1''" 8080 2 0 BenchmarkStats_new]
  by (simp add: sample_client_def) blast

text \<open>A negative number of clients is taken modulo \<open>2\<^sup>6\<^sup>4\<close>. The load generator then starts more than
  \<open>2\<^sup>6\<^sup>3\<close> threads, and is terminated on every system that cannot run as many.\<close>

theorem negative_clients_terminate:
  assumes "length argv = 4" and "argv ! 2 = decimal port" and "port < 2 ^ 31"
    and "argv ! 3 = CHR ''-'' # decimal n" and "0 < n" and "n \<le> 2 ^ 31"
    and "\<forall>i \<ge> limit. \<not> starts i" and "limit \<le> 2 ^ 63"
  shows "bench_main argv starts clients duration = Inr ([], Terminated)"
proof -
  have "bench_main_args argv = Inr (Some \<lparr>ba_host = argv ! 1, ba_port = word_of_int (int port),
      ba_num_clients = word_of_int (- int n), ba_messages_per_client = 1000\<rparr>)"
    using assms(1-6) by (simp add: bench_main_args_def atoi_decimal atoi_negative)
  moreover have "\<not> list_all starts [0..<unat (word_of_int (- int n) :: u64)]"
    using negative_count_large [OF assms(5,6)] assms(7,8) by (auto simp: list_all_iff)
  ultimately show ?thesis
    by (simp add: bench_main_def)
qed

theorem negative_clients_terminate_witness:
  "bench_main [''benchmark'', ''127.0.0.1'', decimal 8080, CHR ''-'' # decimal 1] (\<lambda>i. i < 32768) (\<lambda>_. sample_client) 10 =
     Inr ([], Terminated)"
  using negative_clients_terminate [of "[''benchmark'', ''127.0.0.1'', decimal 8080, CHR ''-'' # decimal 1]" 8080 1 32768
      "\<lambda>i. i < 32768" "\<lambda>_. sample_client" 10]
  by simp

end
