(* ===== verification/Process_Signals.thy ===== *)
theory Process_Signals
  imports Gateway_Main
begin

text \<open>
  The process of \<^verbatim>\<open>order_gateway/main.cpp\<close> with signals that arrive at any time and on any thread. The
  handler runs on the thread the system chooses, which is suspended meanwhile, and another signal
  may interrupt it: every thread has a stack of calls of \<^verbatim>\<open>GatewayServer::stop\<close>, of which the last
  one moves. \<^verbatim>\<open>main\<close> constructs, starts and waits for the server, and destroys it at the end of the
  block; the global pointer \<^verbatim>\<open>gateway\<close> is never reset. The accept thread tests its flag, blocks in
  \<^verbatim>\<open>accept\<close> and ends only at a test that finds the flag reset, so a join waits for \<^verbatim>\<open>accept\<close> to return. A
  connection that is accepted after the flag has been reset is the subject of \<open>Tcp_Shutdown\<close> and is left
  out here, as is the exception of a thread that cannot be created, which \<open>Gateway_Main\<close> has.
\<close>

section \<open>State\<close>

text \<open>\<open>Worker 0\<close> is the accept thread, the other workers are the client threads.\<close>

datatype thread_id = MainThread | Worker nat | EngineThread

datatype crash = UseAfterDestruction | SelfJoin

text \<open>Where a call of the handler, or of \<^verbatim>\<open>stop\<close>, has got to.\<close>

datatype frame_pc =
    AtTest
  | AtLoad
  | AtStore
  | AtTcpFlag
  | AtTcpJoin nat
  | AtEngineFlag
  | AtEngineJoin
  | AtSessions

text \<open>
  \<^verbatim>\<open>main\<close>; from \<open>MainLeaving\<close> on it destroys the server: the destructor's own call of \<^verbatim>\<open>stop\<close>, then the
  engine, then the TCP server. The number is the exit status.
\<close>

datatype main_pc =
    MainBegin
  | MainConstructed
  | MainPublished
  | MainEngineStarted
  | MainUndoJoin
  | MainTcpStarted
  | MainWaiting
  | MainLeaving int
  | MainEngineFlag int
  | MainEngineJoin int
  | MainTcpFlag int
  | MainTcpJoin int nat
  | MainReturned int

text \<open>
  \<open>ps_workers\<close> is the vector of threads: for each whether it has been joined. \<open>ps_started\<close> counts the
  workers ever started. \<open>ps_accept_blocked\<close> says that the accept thread is inside \<^verbatim>\<open>accept\<close>.
\<close>

record process_state =
  ps_main :: main_pc
  ps_gateway :: bool
  ps_alive :: bool
  ps_running :: bool
  ps_tcp_running :: bool
  ps_engine_running :: bool
  ps_engine_joinable :: bool
  ps_workers :: "bool list"
  ps_accept_blocked :: bool
  ps_started :: nat
  ps_ended :: "thread_id set"
  ps_frames :: "thread_id \<Rightarrow> frame_pc list"
  ps_crash :: "crash option"

definition process_new :: process_state where
  "process_new =
     \<lparr>ps_main = MainBegin, ps_gateway = False, ps_alive = False, ps_running = False, ps_tcp_running = False,
      ps_engine_running = False, ps_engine_joinable = False, ps_workers = [], ps_accept_blocked = False,
      ps_started = 0, ps_ended = {}, ps_frames = (\<lambda>_. []), ps_crash = None\<rparr>"

section \<open>Steps\<close>

text \<open>A step of \<^verbatim>\<open>main\<close>; the argument says whether the TCP server could be started.\<close>

definition main_step :: "bool \<Rightarrow> process_state \<Rightarrow> process_state option" where
  "main_step ok s =
     (case ps_main s of
        MainBegin \<Rightarrow> Some (s\<lparr>ps_alive := True, ps_main := MainConstructed\<rparr>)
      | MainConstructed \<Rightarrow> Some (s\<lparr>ps_gateway := True, ps_main := MainPublished\<rparr>)
      | MainPublished \<Rightarrow>
          Some (s\<lparr>ps_engine_running := True, ps_engine_joinable := True, ps_main := MainEngineStarted\<rparr>)
      | MainEngineStarted \<Rightarrow>
          Some (if ok then s\<lparr>ps_tcp_running := True, ps_workers := [False], ps_started := 1,
                             ps_main := MainTcpStarted\<rparr>
                else s\<lparr>ps_engine_running := False, ps_main := MainUndoJoin\<rparr>)
      | MainUndoJoin \<Rightarrow>
          (if EngineThread \<in> ps_ended s then Some (s\<lparr>ps_engine_joinable := False, ps_main := MainLeaving 1\<rparr>)
           else None)
      | MainTcpStarted \<Rightarrow> Some (s\<lparr>ps_running := True, ps_main := MainWaiting\<rparr>)
      | MainWaiting \<Rightarrow> Some (if ps_running s then s else s\<lparr>ps_main := MainLeaving 0\<rparr>)
      | MainLeaving status \<Rightarrow>
          Some (s\<lparr>ps_frames := (ps_frames s)(MainThread := [AtLoad]), ps_main := MainEngineFlag status\<rparr>)
      | MainEngineFlag status \<Rightarrow> Some (s\<lparr>ps_engine_running := False, ps_main := MainEngineJoin status\<rparr>)
      | MainEngineJoin status \<Rightarrow>
          (if \<not> ps_engine_joinable s then Some (s\<lparr>ps_main := MainTcpFlag status\<rparr>)
           else if EngineThread \<in> ps_ended s
             then Some (s\<lparr>ps_engine_joinable := False, ps_main := MainTcpFlag status\<rparr>)
           else None)
      | MainTcpFlag status \<Rightarrow> Some (s\<lparr>ps_tcp_running := False, ps_main := MainTcpJoin status 0\<rparr>)
      | MainTcpJoin status k \<Rightarrow>
          (if length (ps_workers s) \<le> k
             then Some (s\<lparr>ps_workers := [], ps_alive := False, ps_main := MainReturned status\<rparr>)
           else if ps_workers s ! k \<or> Worker k \<in> ps_ended s
             then Some (s\<lparr>ps_workers := (ps_workers s)[k := True], ps_main := MainTcpJoin status (Suc k)\<rparr>)
           else None)
      | MainReturned status \<Rightarrow> None)"

text \<open>
  A step of the last call on the stack of thread \<open>t\<close>. A thread that joins itself makes \<^verbatim>\<open>join\<close>
  throw out of the handler, which terminates the process.
\<close>

fun stop_call :: "thread_id \<Rightarrow> frame_pc \<Rightarrow> process_state \<Rightarrow> (frame_pc option \<times> process_state) option" where
  "stop_call t AtTest s = Some (if ps_gateway s then Some AtLoad else None, s)"
| "stop_call t AtLoad s = Some (if ps_running s then Some AtStore else None, s)"
| "stop_call t AtStore s = Some (Some AtTcpFlag, s\<lparr>ps_running := False\<rparr>)"
| "stop_call t AtTcpFlag s = Some (Some (AtTcpJoin 0), s\<lparr>ps_tcp_running := False\<rparr>)"
| "stop_call t (AtTcpJoin k) s =
     (if length (ps_workers s) \<le> k then Some (Some AtEngineFlag, s\<lparr>ps_workers := []\<rparr>)
      else if ps_workers s ! k then Some (Some (AtTcpJoin (Suc k)), s)
      else if t = Worker k then Some (None, s\<lparr>ps_crash := Some SelfJoin\<rparr>)
      else if Worker k \<in> ps_ended s
        then Some (Some (AtTcpJoin (Suc k)), s\<lparr>ps_workers := (ps_workers s)[k := True]\<rparr>)
      else None)"
| "stop_call t AtEngineFlag s = Some (Some AtEngineJoin, s\<lparr>ps_engine_running := False\<rparr>)"
| "stop_call t AtEngineJoin s =
     (if \<not> ps_engine_joinable s then Some (Some AtSessions, s)
      else if t = EngineThread then Some (None, s\<lparr>ps_crash := Some SelfJoin\<rparr>)
      else if EngineThread \<in> ps_ended s then Some (Some AtSessions, s\<lparr>ps_engine_joinable := False\<rparr>)
      else None)"
| "stop_call t AtSessions s = Some (None, s)"

definition frame_step :: "thread_id \<Rightarrow> process_state \<Rightarrow> process_state option" where
  "frame_step t s =
     (case ps_frames s t of
        [] \<Rightarrow> None
      | pc # pcs \<Rightarrow>
          (if pc \<noteq> AtTest \<and> \<not> ps_alive s then Some (s\<lparr>ps_crash := Some UseAfterDestruction\<rparr>)
           else map_option (\<lambda>(next_pc, s').
                  s'\<lparr>ps_frames := (ps_frames s')(t := (case next_pc of None \<Rightarrow> pcs | Some q \<Rightarrow> q # pcs))\<rparr>)
                (stop_call t pc s)))"

definition exists_thread :: "thread_id \<Rightarrow> process_state \<Rightarrow> bool" where
  "exists_thread t s =
     (case t of
        MainThread \<Rightarrow> True
      | Worker i \<Rightarrow> i < ps_started s \<and> t \<notin> ps_ended s
      | EngineThread \<Rightarrow> ps_main s \<notin> {MainBegin, MainConstructed, MainPublished} \<and> t \<notin> ps_ended s)"

text \<open>
  A step of the accept loop: the test of the flag, which leads into \<^verbatim>\<open>accept\<close> or to the end of the thread,
  and the return of \<^verbatim>\<open>accept\<close> with an error or with a client, whose thread is appended to the vector. A
  thread with a handler on its stack does not move.
\<close>

datatype accept_event = FlagTest | AcceptError | AcceptClient

definition accept_loop_step :: "accept_event \<Rightarrow> process_state \<Rightarrow> process_state option" where
  "accept_loop_step ev s =
     (if \<not> exists_thread (Worker 0) s \<or> ps_frames s (Worker 0) \<noteq> [] then None
      else case ev of
        FlagTest \<Rightarrow>
          (if ps_accept_blocked s then None
           else if ps_tcp_running s then Some (s\<lparr>ps_accept_blocked := True\<rparr>)
           else Some (s\<lparr>ps_ended := insert (Worker 0) (ps_ended s)\<rparr>))
      | AcceptError \<Rightarrow> (if ps_accept_blocked s then Some (s\<lparr>ps_accept_blocked := False\<rparr>) else None)
      | AcceptClient \<Rightarrow>
          (if ps_accept_blocked s \<and> ps_tcp_running s
           then Some (s\<lparr>ps_accept_blocked := False, ps_workers := ps_workers s @ [False],
                        ps_started := Suc (ps_started s)\<rparr>)
           else None))"

text \<open>
  The engine's worker ends only after its flag has been reset; a client's thread ends when the client
  leaves.
\<close>

definition may_end :: "thread_id \<Rightarrow> process_state \<Rightarrow> bool" where
  "may_end t s \<longleftrightarrow> exists_thread t s \<and> ps_frames s t = [] \<and>
     (case t of MainThread \<Rightarrow> False | Worker i \<Rightarrow> 0 < i | EngineThread \<Rightarrow> \<not> ps_engine_running s)"

datatype process_move =
    MainMoves bool
  | FrameMoves thread_id
  | SignalTo thread_id
  | LoopMoves accept_event
  | ThreadEnds thread_id

fun process_step :: "process_move \<Rightarrow> process_state \<Rightarrow> process_state option" where
  "process_step (MainMoves ok) s =
     (if ps_crash s = None \<and> ps_frames s MainThread = [] then main_step ok s else None)"
| "process_step (FrameMoves t) s = (if ps_crash s = None then frame_step t s else None)"
| "process_step (SignalTo t) s =
     (if ps_crash s = None \<and> exists_thread t s
      then Some (s\<lparr>ps_frames := (ps_frames s)(t := AtTest # ps_frames s t)\<rparr>) else None)"
| "process_step (LoopMoves ev) s = (if ps_crash s = None then accept_loop_step ev s else None)"
| "process_step (ThreadEnds t) s =
     (if ps_crash s = None \<and> may_end t s then Some (s\<lparr>ps_ended := insert t (ps_ended s)\<rparr>) else None)"

fun process_run :: "process_move list \<Rightarrow> process_state \<Rightarrow> process_state option" where
  "process_run [] s = Some s"
| "process_run (m # ms) s =
     (case process_step m s of None \<Rightarrow> None | Some s' \<Rightarrow> process_run ms s')"

text \<open>Signals that only the main thread handles, and none after the server has been destroyed.\<close>

fun is_returned :: "main_pc \<Rightarrow> bool" where
  "is_returned (MainReturned status) = True"
| "is_returned pc = False"

definition disciplined :: "process_move \<Rightarrow> process_state \<Rightarrow> bool" where
  "disciplined m s \<longleftrightarrow> (\<forall>t. m = SignalTo t \<longrightarrow> t = MainThread \<and> \<not> is_returned (ps_main s))"

text \<open>The states of a process whose signals come at any time and on any thread, and of a disciplined one.\<close>

inductive process_possible :: "process_state \<Rightarrow> bool" where
  possible_begins: "process_possible process_new"
| possible_moves: "process_possible s \<Longrightarrow> process_step m s = Some s' \<Longrightarrow> process_possible s'"

inductive process_reachable :: "process_state \<Rightarrow> bool" where
  process_begins: "process_reachable process_new"
| process_moves: "process_reachable s \<Longrightarrow> disciplined m s \<Longrightarrow> process_step m s = Some s' \<Longrightarrow>
    process_reachable s'"

section \<open>The invariant\<close>

text \<open>
  A call past its test of the flag runs in a process that has been started, and has joined the threads it
  has passed; after the joins all workers have ended.
\<close>

fun is_late :: "main_pc \<Rightarrow> bool" where
  "is_late MainBegin = False"
| "is_late MainConstructed = False"
| "is_late MainPublished = False"
| "is_late MainEngineStarted = False"
| "is_late MainUndoJoin = False"
| "is_late MainTcpStarted = False"
| "is_late pc = True"

definition joined_below :: "nat \<Rightarrow> process_state \<Rightarrow> bool" where
  "joined_below k s \<longleftrightarrow> (\<forall>i<k. i < length (ps_workers s) \<longrightarrow> ps_workers s ! i)"

definition workers_ended :: "process_state \<Rightarrow> bool" where
  "workers_ended s \<longleftrightarrow> \<not> ps_tcp_running s \<and> (\<forall>i<ps_started s. Worker i \<in> ps_ended s)"

fun frame_ok :: "process_state \<Rightarrow> frame_pc \<Rightarrow> bool" where
  "frame_ok s AtTest \<longleftrightarrow> True"
| "frame_ok s AtLoad \<longleftrightarrow> ps_gateway s"
| "frame_ok s (AtTcpJoin k) \<longleftrightarrow> ps_gateway s \<and> is_late (ps_main s) \<and> \<not> ps_tcp_running s \<and> joined_below k s"
| "frame_ok s AtEngineFlag \<longleftrightarrow> ps_gateway s \<and> is_late (ps_main s) \<and> workers_ended s"
| "frame_ok s AtEngineJoin \<longleftrightarrow> ps_gateway s \<and> is_late (ps_main s) \<and> workers_ended s \<and> \<not> ps_engine_running s"
| "frame_ok s AtSessions \<longleftrightarrow> ps_gateway s \<and> is_late (ps_main s) \<and> workers_ended s \<and> \<not> ps_engine_joinable s"
| "frame_ok s pc \<longleftrightarrow> ps_gateway s \<and> is_late (ps_main s)"

definition status_ok :: "int \<Rightarrow> process_state \<Rightarrow> bool" where
  "status_ok status s \<longleftrightarrow> status = (if 0 < ps_started s then 0 else 1)"

fun main_ok :: "main_pc \<Rightarrow> process_state \<Rightarrow> bool" where
  "main_ok MainBegin s \<longleftrightarrow> \<not> ps_alive s \<and> \<not> ps_gateway s \<and> ps_started s = 0 \<and> \<not> ps_tcp_running s"
| "main_ok MainConstructed s \<longleftrightarrow> ps_alive s \<and> \<not> ps_gateway s \<and> ps_started s = 0 \<and> \<not> ps_tcp_running s"
| "main_ok MainPublished s \<longleftrightarrow> ps_alive s \<and> ps_gateway s \<and> ps_started s = 0 \<and> \<not> ps_tcp_running s"
| "main_ok MainEngineStarted s \<longleftrightarrow> ps_alive s \<and> ps_gateway s \<and> ps_started s = 0 \<and> \<not> ps_tcp_running s"
| "main_ok MainUndoJoin s \<longleftrightarrow> ps_alive s \<and> ps_gateway s \<and> ps_started s = 0 \<and> \<not> ps_engine_running s"
| "main_ok MainTcpStarted s \<longleftrightarrow> ps_alive s \<and> ps_gateway s \<and> 0 < ps_started s"
| "main_ok MainWaiting s \<longleftrightarrow> ps_alive s \<and> ps_gateway s \<and> 0 < ps_started s"
| "main_ok (MainLeaving status) s \<longleftrightarrow> ps_alive s \<and> ps_gateway s \<and> status_ok status s"
| "main_ok (MainEngineFlag status) s \<longleftrightarrow> ps_alive s \<and> ps_gateway s \<and> status_ok status s"
| "main_ok (MainEngineJoin status) s \<longleftrightarrow>
     ps_alive s \<and> ps_gateway s \<and> status_ok status s \<and> \<not> ps_engine_running s"
| "main_ok (MainTcpFlag status) s \<longleftrightarrow>
     ps_alive s \<and> ps_gateway s \<and> status_ok status s \<and> \<not> ps_engine_joinable s"
| "main_ok (MainTcpJoin status k) s \<longleftrightarrow>
     ps_alive s \<and> ps_gateway s \<and> status_ok status s \<and> \<not> ps_engine_joinable s \<and> \<not> ps_tcp_running s \<and>
     joined_below k s"
| "main_ok (MainReturned status) s \<longleftrightarrow>
     \<not> ps_alive s \<and> ps_gateway s \<and> status_ok status s \<and> \<not> ps_engine_joinable s \<and> ps_workers s = [] \<and>
     \<not> ps_tcp_running s"

text \<open>A joined thread has ended; the vector holds all threads ever started, or is cleared after they have ended.\<close>

definition threads_ok :: "process_state \<Rightarrow> bool" where
  "threads_ok s \<longleftrightarrow>
     (\<forall>i<length (ps_workers s). ps_workers s ! i \<longrightarrow> Worker i \<in> ps_ended s) \<and>
     (length (ps_workers s) = ps_started s \<or> ps_workers s = [] \<and> workers_ended s) \<and>
     (ps_main s \<notin> {MainBegin, MainConstructed, MainPublished} \<and> \<not> ps_engine_joinable s \<longrightarrow>
        EngineThread \<in> ps_ended s)"

text \<open>What holds of every process that has not crashed, wherever its signals are handled.\<close>

definition live_inv :: "process_state \<Rightarrow> bool" where
  "live_inv s \<longleftrightarrow>
     (\<forall>t. \<forall>pc\<in>set (ps_frames s t). frame_ok s pc) \<and>
     (\<forall>t. t \<noteq> MainThread \<longrightarrow> ps_frames s t \<noteq> [] \<longrightarrow> exists_thread t s) \<and>
     (ps_running s \<longrightarrow> is_late (ps_main s)) \<and> main_ok (ps_main s) s \<and> threads_ok s"

lemma live_invI:
  assumes "\<And>t pc. pc \<in> set (ps_frames s t) \<Longrightarrow> frame_ok s pc"
    and "\<And>t. t \<noteq> MainThread \<Longrightarrow> ps_frames s t \<noteq> [] \<Longrightarrow> exists_thread t s"
    and "ps_running s \<Longrightarrow> is_late (ps_main s)" and "main_ok (ps_main s) s" and "threads_ok s"
  shows "live_inv s"
  using assms by (simp add: live_inv_def)

lemma live_invD:
  assumes "live_inv s"
  shows "pc \<in> set (ps_frames s t) \<Longrightarrow> frame_ok s pc"
    and "t \<noteq> MainThread \<Longrightarrow> ps_frames s t \<noteq> [] \<Longrightarrow> exists_thread t s"
    and "ps_running s \<Longrightarrow> is_late (ps_main s)" and "main_ok (ps_main s) s" and "threads_ok s"
  using assms unfolding live_inv_def by blast+

text \<open>With the discipline, moreover, only the main thread runs handlers, and none after the end.\<close>

definition process_inv :: "process_state \<Rightarrow> bool" where
  "process_inv s \<longleftrightarrow>
     ps_crash s = None \<and> live_inv s \<and> (\<forall>t. t \<noteq> MainThread \<longrightarrow> ps_frames s t = []) \<and>
     (is_returned (ps_main s) \<longrightarrow> ps_frames s MainThread = [])"

lemma process_invD:
  assumes "process_inv s"
  shows "ps_crash s = None" and "t \<noteq> MainThread \<Longrightarrow> ps_frames s t = []"
    and "pc \<in> set (ps_frames s MainThread) \<Longrightarrow> frame_ok s pc"
    and "is_returned (ps_main s) \<Longrightarrow> ps_frames s MainThread = []"
    and "main_ok (ps_main s) s" and "threads_ok s" and "live_inv s"
    and "ps_running s \<Longrightarrow> is_late (ps_main s)"
  using assms live_invD [of s] unfolding process_inv_def by auto

lemma live_inv_new: "live_inv process_new"
  by (simp add: live_inv_def process_new_def threads_ok_def)

lemma joined_below_all:
  "joined_below k s \<Longrightarrow> length (ps_workers s) \<le> k \<Longrightarrow> threads_ok s \<Longrightarrow> \<not> ps_tcp_running s \<Longrightarrow> workers_ended s"
  unfolding joined_below_def threads_ok_def workers_ended_def by (metis less_le_trans)

lemma joined_below_join:
  "joined_below k s \<Longrightarrow> joined_below k (s\<lparr>ps_workers := (ps_workers s)[j := True]\<rparr>)"
  by (cases "j < length (ps_workers s)") (auto simp: joined_below_def nth_list_update)

lemma joined_below_Suc:
  "joined_below k s \<Longrightarrow> joined_below (Suc k) (s\<lparr>ps_workers := (ps_workers s)[k := True]\<rparr>)"
  by (cases "k < length (ps_workers s)") (auto simp: joined_below_def nth_list_update less_Suc_eq)

lemma joined_below_upd [simp]:
  "joined_below k (s\<lparr>ps_frames := f\<rparr>) = joined_below k s"
  "joined_below k (s\<lparr>ps_main := pc\<rparr>) = joined_below k s"
  "joined_below k (s\<lparr>ps_ended := e\<rparr>) = joined_below k s"
  "joined_below k (s\<lparr>ps_running := b\<rparr>) = joined_below k s"
  "joined_below k (s\<lparr>ps_tcp_running := b\<rparr>) = joined_below k s"
  "joined_below k (s\<lparr>ps_engine_running := b\<rparr>) = joined_below k s"
  "joined_below k (s\<lparr>ps_engine_joinable := b\<rparr>) = joined_below k s"
  "joined_below k (s\<lparr>ps_accept_blocked := b\<rparr>) = joined_below k s"
  "joined_below k (s\<lparr>ps_crash := c\<rparr>) = joined_below k s"
  "joined_below k (s\<lparr>ps_alive := b\<rparr>) = joined_below k s"
  "joined_below 0 s" "joined_below k (s\<lparr>ps_workers := []\<rparr>)"
  by (simp_all add: joined_below_def)

lemma frame_ok_upd [simp]:
  "frame_ok (s\<lparr>ps_frames := f\<rparr>) pc = frame_ok s pc"
  "frame_ok (s\<lparr>ps_accept_blocked := b\<rparr>) pc = frame_ok s pc"
  by (cases pc; simp add: workers_ended_def)+

lemma main_ok_upd [simp]:
  "main_ok pc (s\<lparr>ps_frames := f\<rparr>) = main_ok pc s"
  "main_ok pc (s\<lparr>ps_ended := e\<rparr>) = main_ok pc s"
  "main_ok pc (s\<lparr>ps_accept_blocked := b\<rparr>) = main_ok pc s"
  by (cases pc; simp add: status_ok_def)+

lemma threads_ok_upd [simp]:
  "threads_ok (s\<lparr>ps_frames := f\<rparr>) = threads_ok s"
  "threads_ok (s\<lparr>ps_accept_blocked := b\<rparr>) = threads_ok s"
  by (simp_all add: threads_ok_def workers_ended_def)

lemma exists_thread_upd [simp]:
  "exists_thread t (s\<lparr>ps_frames := f\<rparr>) = exists_thread t s"
  "exists_thread t (s\<lparr>ps_accept_blocked := b\<rparr>) = exists_thread t s"
  by (cases t; simp add: exists_thread_def)+

text \<open>What \<^verbatim>\<open>main\<close> does while no handler runs on it.\<close>

lemma main_step_ok:
  assumes "main_ok (ps_main s) s" and "threads_ok s" and "main_step ok s = Some s'"
  shows "main_ok (ps_main s') s'" and "threads_ok s'"
proof -
  show "main_ok (ps_main s') s'"
    using assms joined_below_Suc
    by (auto simp: main_step_def status_ok_def split: main_pc.splits if_splits)
  show "threads_ok s'"
  proof (cases "ps_main s")
    case (MainTcpJoin status k)
    then show ?thesis
      using assms joined_below_all [of k s]
      by (auto simp: main_step_def threads_ok_def workers_ended_def nth_list_update split: if_splits)
  qed (use assms in \<open>auto simp: main_step_def threads_ok_def workers_ended_def split: if_splits\<close>)
qed

lemma main_step_same:
  assumes "main_step ok s = Some s'"
  shows "ps_crash s' = ps_crash s" and "t \<noteq> MainThread \<Longrightarrow> ps_frames s' t = ps_frames s t"
    and "main_ok (ps_main s) s \<Longrightarrow> exists_thread t s \<Longrightarrow> exists_thread t s'" and "is_late (ps_main s) \<Longrightarrow> is_late (ps_main s')"
    and "ps_ended s' = ps_ended s" and "is_late (ps_main s) \<Longrightarrow> ps_started s' = ps_started s"
    and "ps_gateway s \<Longrightarrow> ps_gateway s'" and "ps_running s' \<Longrightarrow> ps_running s \<or> is_late (ps_main s')"
    and "is_late (ps_main s) \<Longrightarrow> ps_tcp_running s' \<Longrightarrow> ps_tcp_running s"
    and "is_late (ps_main s) \<Longrightarrow> ps_engine_running s' \<Longrightarrow> ps_engine_running s"
    and "is_late (ps_main s) \<Longrightarrow> ps_engine_joinable s' \<Longrightarrow> ps_engine_joinable s"
    and "is_late (ps_main s) \<Longrightarrow> joined_below k s \<Longrightarrow> joined_below k s'"
proof -
  show "main_ok (ps_main s) s \<Longrightarrow> exists_thread t s \<Longrightarrow> exists_thread t s'"
    using assms by (cases t) (auto simp: main_step_def exists_thread_def split: main_pc.splits if_splits)
qed (use assms in \<open>auto simp: main_step_def split: main_pc.splits if_splits intro: joined_below_join\<close>)

lemma main_step_live:
  assumes "live_inv s" and "ps_frames s MainThread = []" and "main_step ok s = Some s'"
  shows "live_inv s'"
proof (rule live_invI)
  note d = live_invD [OF assms(1)] and same = main_step_same [OF assms(3)]
  show "frame_ok s' pc" if pc: "pc \<in> set (ps_frames s' t)" for t pc
  proof (cases "t = MainThread")
    case True
    then show ?thesis
      using pc assms(2,3) d(4) by (auto simp: main_step_def split: main_pc.splits if_splits)
  next
    case False
    then have "frame_ok s pc"
      using pc same(2) d(1) by simp
    then show ?thesis
      using same(4-12) by (cases pc) (auto simp: workers_ended_def)
  qed
  show "exists_thread t s'" if "t \<noteq> MainThread" "ps_frames s' t \<noteq> []" for t
    using that same(2,3) d(2,4) by simp
  show "is_late (ps_main s')" if "ps_running s'"
    using that same(4,8) d(3) by blast
qed (use main_step_ok [OF _ _ assms(3)] live_invD(4,5) [OF assms(1)] in blast)+

text \<open>What a call of \<^verbatim>\<open>stop\<close> does, on whatever thread.\<close>

lemma stop_call_same:
  assumes "stop_call t pc s = Some (r, s')"
  shows "ps_main s' = ps_main s" and "ps_frames s' = ps_frames s"
    and "ps_gateway s' = ps_gateway s" and "ps_alive s' = ps_alive s" and "ps_started s' = ps_started s"
    and "ps_ended s' = ps_ended s" and "ps_accept_blocked s' = ps_accept_blocked s"
    and "t = MainThread \<Longrightarrow> ps_crash s' = ps_crash s"
    and "ps_tcp_running s' \<Longrightarrow> ps_tcp_running s" and "ps_engine_running s' \<Longrightarrow> ps_engine_running s"
    and "ps_engine_joinable s' \<Longrightarrow> ps_engine_joinable s" and "ps_running s' \<Longrightarrow> ps_running s"
    and "ps_workers s = [] \<Longrightarrow> ps_workers s' = []"
    and "joined_below k s \<Longrightarrow> joined_below k s'"
  using assms by (cases pc; auto split: if_splits intro: joined_below_join)+

lemma stop_call_threads_ok:
  assumes "stop_call t pc s = Some (r, s')" and "threads_ok s" and "frame_ok s pc"
  shows "threads_ok s'"
proof (cases pc)
  case (AtTcpJoin k)
  then show ?thesis
    using assms joined_below_all [of k s]
    by (auto simp: threads_ok_def workers_ended_def nth_list_update split: if_splits)
qed (use assms in \<open>auto simp: threads_ok_def workers_ended_def split: if_splits\<close>)

lemma stop_call_next_ok:
  assumes "stop_call t pc s = Some (Some q, s')" and "frame_ok s pc" and "threads_ok s"
    and "ps_running s \<Longrightarrow> is_late (ps_main s)"
  shows "frame_ok s' q"
proof (cases pc)
  case (AtTcpJoin k)
  then show ?thesis
    using assms joined_below_Suc [of k s] joined_below_all [of k s]
    by (auto simp: joined_below_def less_Suc_eq workers_ended_def split: if_splits)
qed (use assms in \<open>auto simp: workers_ended_def split: if_splits\<close>)

lemma frame_ok_mono:
  assumes "frame_ok s q" and "stop_call t pc s = Some (r, s')"
  shows "frame_ok s' q"
  using assms(1) stop_call_same [OF assms(2)] by (cases q) (auto simp: workers_ended_def)

lemma main_ok_mono:
  assumes "main_ok pc s" and "stop_call t q s = Some (r, s')"
  shows "main_ok pc s'"
  using assms(1) stop_call_same [OF assms(2)] by (cases pc) (auto simp: status_ok_def)

text \<open>A step of a handler, unless it is the end of the process.\<close>

lemma frame_step_cases:
  assumes "frame_step t s = Some s'" and "ps_crash s = None" and "ps_crash s' = None"
  obtains pc pcs r s1 where "ps_frames s t = pc # pcs" and "stop_call t pc s = Some (r, s1)"
    and "s' = s1\<lparr>ps_frames := (ps_frames s)(t := (case r of None \<Rightarrow> pcs | Some q \<Rightarrow> q # pcs))\<rparr>"
proof -
  obtain pc pcs where f: "ps_frames s t = pc # pcs"
    using assms(1) by (auto simp: frame_step_def split: list.splits)
  have "\<not> (pc \<noteq> AtTest \<and> \<not> ps_alive s)"
    using assms(1,3) f by (auto simp: frame_step_def split: if_splits)
  then obtain r s1 where c: "stop_call t pc s = Some (r, s1)"
    "s' = s1\<lparr>ps_frames := (ps_frames s1)(t := (case r of None \<Rightarrow> pcs | Some q \<Rightarrow> q # pcs))\<rparr>"
    using assms(1) f by (auto simp: frame_step_def split: if_splits)
  show thesis
    using that [OF f c(1)] c(2) stop_call_same(2) [OF c(1)] by simp
qed

lemma frame_step_live:
  assumes "live_inv s" and "frame_step t s = Some s'" and "ps_crash s = None" and "ps_crash s' = None"
  shows "live_inv s'"
  using assms(2-4)
proof (rule frame_step_cases)
  fix pc pcs r s1
  assume f: "ps_frames s t = pc # pcs" and c: "stop_call t pc s = Some (r, s1)"
    and s': "s' = s1\<lparr>ps_frames := (ps_frames s)(t := (case r of None \<Rightarrow> pcs | Some q \<Rightarrow> q # pcs))\<rparr>"
  note d = live_invD [OF assms(1)] and same = stop_call_same [OF c]
  have pc: "frame_ok s pc"
    using d(1) [of pc t] f by simp
  have old: "frame_ok s1 q" if "q \<in> set (ps_frames s u)" for q u
    using frame_ok_mono [OF d(1) [OF that] c] .
  have new: "frame_ok s1 q" if "r = Some q" for q
    using stop_call_next_ok [OF _ pc d(5,3)] c that by blast
  show "live_inv s'"
  proof (rule live_invI)
    show "frame_ok s' q" if "q \<in> set (ps_frames s' u)" for u q
      using that old [of q u] old [of q t] new f by (auto simp: s' split: if_splits option.splits)
    show "exists_thread u s'" if "u \<noteq> MainThread" "ps_frames s' u \<noteq> []" for u
    proof -
      have "ps_frames s u \<noteq> []"
        using that f by (auto simp: s' split: if_splits)
      then show ?thesis
        using d(2) [OF that(1)] same(1,5,6) by (cases u) (simp_all add: s' exists_thread_def)
    qed
    show "is_late (ps_main s')" if "ps_running s'"
      using that d(3) same by (simp add: s')
    show "main_ok (ps_main s') s'" and "threads_ok s'"
      using main_ok_mono [OF d(4) c] stop_call_threads_ok [OF c d(5) pc] same(1) by (simp_all add: s')
  qed
qed

lemma frame_ok_ended: "frame_ok s pc \<Longrightarrow> frame_ok (s\<lparr>ps_ended := insert t (ps_ended s)\<rparr>) pc"
  by (cases pc) (auto simp: workers_ended_def)

lemma ended_live:
  assumes "live_inv s" and "ps_frames s t = []"
  shows "live_inv (s\<lparr>ps_ended := insert t (ps_ended s)\<rparr>)"
proof (rule live_invI)
  note d = live_invD [OF assms(1)]
  show "exists_thread u (s\<lparr>ps_ended := insert t (ps_ended s)\<rparr>)"
    if "u \<noteq> MainThread" "ps_frames (s\<lparr>ps_ended := insert t (ps_ended s)\<rparr>) u \<noteq> []" for u
    using d(2) [OF that(1)] that(2) assms(2) by (cases u) (auto simp: exists_thread_def)
  show "threads_ok (s\<lparr>ps_ended := insert t (ps_ended s)\<rparr>)"
    using d(5) by (auto simp: threads_ok_def workers_ended_def)
qed (use live_invD [OF assms(1)] frame_ok_ended in auto)

lemma accepted_live:
  assumes "live_inv s" and "ps_tcp_running s" and "0 < ps_started s"
  shows "live_inv (s\<lparr>ps_accept_blocked := False, ps_workers := ps_workers s @ [False],
                     ps_started := Suc (ps_started s)\<rparr>)" (is "live_inv ?s")
proof (rule live_invI)
  note d = live_invD [OF assms(1)]
  show "frame_ok ?s pc" if "pc \<in> set (ps_frames ?s t)" for t pc
    using d(1) [of pc t] that assms(2) by (cases pc) (simp_all add: workers_ended_def)
  show "exists_thread t ?s" if "t \<noteq> MainThread" "ps_frames ?s t \<noteq> []" for t
    using d(2) [OF that(1)] that(2) by (cases t) (simp_all add: exists_thread_def)
  show "main_ok (ps_main ?s) ?s"
    using d(4) assms(2,3) by (cases "ps_main s") (simp_all add: status_ok_def)
  show "threads_ok ?s"
    using d(5) assms(2) by (auto simp: threads_ok_def workers_ended_def nth_append less_Suc_eq)
qed (use live_invD(3) [OF assms(1)] in simp)

lemma blocked_live: "live_inv s \<Longrightarrow> live_inv (s\<lparr>ps_accept_blocked := b\<rparr>)"
  by (simp add: live_inv_def)

lemma accept_loop_step_live:
  assumes "live_inv s" and "accept_loop_step ev s = Some s'"
  shows "live_inv s'"
proof (cases ev)
  case AcceptClient
  then show ?thesis
    using assms(2) accepted_live [OF assms(1)] by (auto simp: accept_loop_step_def exists_thread_def split: if_splits)
qed (use assms(2) blocked_live [OF assms(1)] ended_live [OF assms(1)] in
     \<open>auto simp: accept_loop_step_def split: if_splits\<close>)

lemma process_step_live:
  assumes "live_inv s" and "process_step m s = Some s'" and "ps_crash s' = None"
  shows "live_inv s'"
proof (cases m)
  case (SignalTo t)
  then have "exists_thread t s" "s' = s\<lparr>ps_frames := (ps_frames s)(t := AtTest # ps_frames s t)\<rparr>"
    using assms(2) by (auto split: if_splits)
  then show ?thesis
    using live_invD [OF assms(1)] by (auto intro!: live_invI split: if_splits)
next
  case (ThreadEnds t)
  then show ?thesis
    using assms(2) ended_live [OF assms(1), of t] by (auto simp: may_end_def split: if_splits)
next
  case (MainMoves ok)
  then show ?thesis
    using assms(2) main_step_live [OF assms(1)] by (simp split: if_splits)
next
  case (FrameMoves t)
  then show ?thesis
    using assms(2) frame_step_live [OF assms(1) _ _ assms(3)] by (simp split: if_splits)
next
  case (LoopMoves ev)
  then show ?thesis
    using assms(2) accept_loop_step_live [OF assms(1)] by (simp split: if_splits)
qed

text \<open>The steps keep the discipline's part of the invariant.\<close>

lemma process_step_no_crash: "process_step m s = Some s' \<Longrightarrow> ps_crash s = None"
  by (cases m) (auto split: if_splits)

lemma process_step_frames:
  assumes "process_step m s = Some s'" and "ps_frames s t = []" and "m \<noteq> SignalTo t"
    and "t = MainThread \<Longrightarrow> \<forall>ok. m \<noteq> MainMoves ok"
  shows "ps_frames s' t = []"
proof (cases m)
  case (FrameMoves u)
  then have "ps_frames s u \<noteq> []"
    using assms(1) by (auto simp: frame_step_def split: if_splits)
  then have "t \<noteq> u"
    using assms(2) by auto
  then show ?thesis
    using assms(1,2) FrameMoves stop_call_same(2) by (auto simp: frame_step_def split: if_splits list.splits)
next
  case (MainMoves ok)
  then have "t \<noteq> MainThread" "main_step ok s = Some s'"
    using assms(1,4) by (blast, simp split: if_splits)
  then show ?thesis
    using assms(2) main_step_same(2) by simp
qed (use assms in \<open>auto simp: accept_loop_step_def split: if_splits accept_event.splits\<close>)

text \<open>While a call runs on the main thread the server is alive, or the pointer is not set yet.\<close>

lemma gateway_alive: "main_ok pc s \<Longrightarrow> \<not> is_returned pc \<Longrightarrow> ps_gateway s \<Longrightarrow> ps_alive s"
  by (cases pc) auto

lemma frames_alive:
  assumes "process_inv s" and "ps_frames s MainThread = pc # pcs"
  shows "pc \<noteq> AtTest \<Longrightarrow> ps_alive s"
proof -
  note d = process_invD [OF assms(1)]
  assume "pc \<noteq> AtTest"
  then have "ps_gateway s"
    using d(3) [of pc] assms(2) by (cases pc) auto
  then show ?thesis
    using gateway_alive [OF d(5)] d(4) assms(2) by auto
qed

lemma process_step_inv:
  assumes "process_inv s" and "disciplined m s" and "process_step m s = Some s'"
  shows "process_inv s'"
proof -
  note d = process_invD [OF assms(1)]
  have frames: "ps_frames s' t = []" if "t \<noteq> MainThread" for t
    using process_step_frames [OF assms(3) d(2) [OF that]] assms(2) that by (auto simp: disciplined_def)
  have crash: "ps_crash s' = None"
  proof (cases m)
    case (FrameMoves t)
    then have "t = MainThread"
      using assms(3) d(2) [of t] by (cases "t = MainThread") (auto simp: frame_step_def split: if_splits)
    then show ?thesis
      using assms(3) FrameMoves d(1) frames_alive [OF assms(1)] stop_call_same(8)
      by (fastforce simp: frame_step_def split: list.splits if_splits)
  qed (use assms(3) d(1) main_step_same(1) in
       \<open>auto simp: accept_loop_step_def split: if_splits accept_event.splits\<close>)
  have main: "is_returned (ps_main s') \<Longrightarrow> ps_frames s' MainThread = []"
  proof (cases m)
    case (FrameMoves t)
    then have "ps_main s' = ps_main s"
      using assms(3) stop_call_same(1) by (auto simp: frame_step_def split: list.splits if_splits)
    moreover have "ps_frames s t \<noteq> []"
      using assms(3) FrameMoves by (auto simp: frame_step_def split: if_splits)
    ultimately show "is_returned (ps_main s') \<Longrightarrow> ps_frames s' MainThread = []"
      using d(2,4) process_step_frames [OF assms(3)] FrameMoves by metis
  next
    case (MainMoves ok)
    then show "is_returned (ps_main s') \<Longrightarrow> ps_frames s' MainThread = []"
      using assms(3) by (auto simp: main_step_def split: if_splits main_pc.splits)
  qed (use assms(2,3) d(4) in
       \<open>auto simp: accept_loop_step_def disciplined_def split: if_splits accept_event.splits\<close>)
  show ?thesis
    unfolding process_inv_def
    using crash frames main process_step_live [OF d(7) assms(3) crash] by blast
qed

lemma process_inv_new: "process_inv process_new"
  using live_inv_new by (simp add: process_inv_def) (simp add: process_new_def)

lemma process_reachable_inv: "process_reachable s \<Longrightarrow> process_inv s"
  by (induction rule: process_reachable.induct) (auto intro: process_inv_new process_step_inv)

lemma process_run_append:
  "process_run (ms @ ns) s = (case process_run ms s of None \<Rightarrow> None | Some s' \<Rightarrow> process_run ns s')"
  by (induction ms arbitrary: s) (auto split: option.split)

section \<open>Progress\<close>

text \<open>
  From the moment a signal has arrived, the steps left: of \<^verbatim>\<open>main\<close>, of the calls on its stack, and
  the ends of the accept thread and of the engine's worker. While its flag is set the accept loop may
  take any number of turns, which are not counted.
\<close>

fun frame_rank :: "nat \<Rightarrow> frame_pc \<Rightarrow> nat" where
  "frame_rank n AtTest = n + 10"
| "frame_rank n AtLoad = n + 9"
| "frame_rank n AtStore = n + 8"
| "frame_rank n AtTcpFlag = n + 7"
| "frame_rank n (AtTcpJoin k) = Suc n - k + 5"
| "frame_rank n AtEngineFlag = 4"
| "frame_rank n AtEngineJoin = 3"
| "frame_rank n AtSessions = 2"

fun main_rank :: "nat \<Rightarrow> main_pc \<Rightarrow> nat" where
  "main_rank n (MainLeaving status) = 2 * n + 30"
| "main_rank n (MainEngineFlag status) = n + 8"
| "main_rank n (MainEngineJoin status) = n + 7"
| "main_rank n (MainTcpFlag status) = n + 6"
| "main_rank n (MainTcpJoin status k) = Suc n - k + 3"
| "main_rank n (MainReturned status) = 0"
| "main_rank n pc = 2 * n + 31"

definition accept_rank :: "process_state \<Rightarrow> nat" where
  "accept_rank s =
     (if Worker 0 \<in> ps_ended s then 0 else if ps_tcp_running s \<or> ps_accept_blocked s then 2 else 1)"

definition remaining :: "process_state \<Rightarrow> nat" where
  "remaining s =
     main_rank (ps_started s) (ps_main s) +
     (\<Sum>pc\<leftarrow>ps_frames s MainThread. frame_rank (ps_started s) pc) +
     accept_rank s + (if EngineThread \<in> ps_ended s then 0 else 1)"

text \<open>A signal has arrived: the flag is reset, or a call on the main thread is going to reset it.\<close>

definition stopping :: "process_state \<Rightarrow> bool" where
  "stopping s \<longleftrightarrow> process_inv s \<and> is_late (ps_main s) \<and> 0 < ps_started s \<and>
     (ps_running s \<longrightarrow> (\<exists>pc\<in>set (ps_frames s MainThread). pc \<in> {AtTest, AtLoad, AtStore})) \<and>
     (\<forall>i<ps_started s. 0 < i \<longrightarrow> Worker i \<in> ps_ended s)"

definition own_moves :: "process_move set" where
  "own_moves = {MainMoves True, MainMoves False, FrameMoves MainThread, LoopMoves FlagTest, LoopMoves AcceptError,
                ThreadEnds EngineThread}"

fun is_accept :: "process_move \<Rightarrow> bool" where
  "is_accept (LoopMoves ev) = True"
| "is_accept m = False"

lemma own_moves_disciplined: "m \<in> own_moves \<Longrightarrow> disciplined m s"
  by (auto simp: own_moves_def disciplined_def)

lemma stoppingD:
  assumes "stopping s"
  shows "process_inv s" and "is_late (ps_main s)" and "0 < ps_started s"
    and "ps_running s \<Longrightarrow> \<exists>pc\<in>set (ps_frames s MainThread). pc \<in> {AtTest, AtLoad, AtStore}"
    and "i < ps_started s \<Longrightarrow> 0 < i \<Longrightarrow> Worker i \<in> ps_ended s"
  using assms unfolding stopping_def by blast+

lemma stoppingI:
  assumes "stopping s" and "m \<in> own_moves" and "process_step m s = Some s'"
    and "is_late (ps_main s')" and "ps_started s' = ps_started s" and "ps_ended s \<subseteq> ps_ended s'"
    and "ps_running s' \<Longrightarrow> \<exists>pc\<in>set (ps_frames s' MainThread). pc \<in> {AtTest, AtLoad, AtStore}"
  shows "stopping s'"
  using process_step_inv [OF stoppingD(1) [OF assms(1)] own_moves_disciplined [OF assms(2)] assms(3)] assms(4-7)
    stoppingD(3,5) [OF assms(1)] by (auto simp: stopping_def)

lemma workers_length: "threads_ok s \<Longrightarrow> length (ps_workers s) \<le> ps_started s"
  by (auto simp: threads_ok_def)

lemma stop_call_rank:
  assumes "stop_call MainThread pc s = Some (r, s')" and "length (ps_workers s) \<le> n"
  shows "(case r of None \<Rightarrow> 0 | Some q \<Rightarrow> frame_rank n q) < frame_rank n pc"
  using assms by (cases pc) (auto split: if_splits)

lemma accept_rank_mono:
  "ps_ended s' = ps_ended s \<Longrightarrow> ps_accept_blocked s' = ps_accept_blocked s \<Longrightarrow>
   (ps_tcp_running s' \<Longrightarrow> ps_tcp_running s) \<Longrightarrow> accept_rank s' \<le> accept_rank s"
  by (auto simp: accept_rank_def)

text \<open>Each own move brings the end closer, except for turns of the accept loop whose flag is set.\<close>

lemma frame_decreases:
  assumes "stopping s" and "process_step (FrameMoves MainThread) s = Some s'"
  shows "stopping s'" and "remaining s' < remaining s" and "ps_tcp_running s' \<Longrightarrow> ps_tcp_running s"
proof -
  note inv = stoppingD(1) [OF assms(1)]
  note d = process_invD [OF inv]
  have own: "FrameMoves MainThread \<in> own_moves"
    by (simp add: own_moves_def)
  have "process_inv s'"
    using process_step_inv [OF inv own_moves_disciplined [OF own] assms(2)] .
  then have "frame_step MainThread s = Some s'" "ps_crash s' = None"
    using assms(2) process_invD(1) by (auto split: if_splits)
  then obtain pc pcs r s1 where f: "ps_frames s MainThread = pc # pcs" and c: "stop_call MainThread pc s = Some (r, s1)"
    and s': "s' = s1\<lparr>ps_frames := (ps_frames s)(MainThread := (case r of None \<Rightarrow> pcs | Some q \<Rightarrow> q # pcs))\<rparr>"
    using frame_step_cases [of MainThread s s'] d(1) by metis
  note same = stop_call_same [OF c]
  have rank: "(case r of None \<Rightarrow> 0 | Some q \<Rightarrow> frame_rank (ps_started s) q) < frame_rank (ps_started s) pc"
    by (rule stop_call_rank [OF c workers_length [OF d(6)]])
  have "accept_rank s1 \<le> accept_rank s"
    using same by (intro accept_rank_mono) auto
  moreover have "accept_rank s' = accept_rank s1"
    by (simp add: s' accept_rank_def)
  ultimately show "remaining s' < remaining s"
    using rank f same(1,5,6) by (auto simp: remaining_def s' split: option.splits)
  show "ps_tcp_running s' \<Longrightarrow> ps_tcp_running s"
    using same(9) by (simp add: s')
  have gw: "ps_gateway s"
    using d(5) stoppingD(2) [OF assms(1)] by (cases "ps_main s") auto
  have "\<exists>q\<in>set (ps_frames s' MainThread). q \<in> {AtTest, AtLoad, AtStore}" if run: "ps_running s'"
  proof -
    have "ps_running s"
      using run same(12) by (simp add: s')
    then show ?thesis
      using stoppingD(4) [OF assms(1)] f c gw run by (cases pc) (auto simp: s' split: if_splits option.splits)
  qed
  then show "stopping s'"
    by (intro stoppingI [OF assms(1) own assms(2)])
       (use same(1,5,6) stoppingD(2) [OF assms(1)] in \<open>simp_all add: s'\<close>)
qed

lemma main_decreases:
  assumes "stopping s" and "process_step (MainMoves ok) s = Some s'"
  shows "stopping s'" and "remaining s' < remaining s" and "ps_tcp_running s' \<Longrightarrow> ps_tcp_running s"
proof -
  note inv = stoppingD(1) [OF assms(1)] and late = stoppingD(2) [OF assms(1)]
  have f: "ps_frames s MainThread = []" and step: "main_step ok s = Some s'"
    using assms(2) by (auto split: if_splits)
  have run: "\<not> ps_running s"
    using stoppingD(4) [OF assms(1)] f by auto
  note same = main_step_same [OF step]
  have tcp: "ps_tcp_running s' \<Longrightarrow> ps_tcp_running s"
    using same(9) late by blast
  then show "ps_tcp_running s' \<Longrightarrow> ps_tcp_running s" .
  have run': "\<not> ps_running s'"
    using step run late by (auto simp: main_step_def split: main_pc.splits if_splits)
  have "ps_accept_blocked s' = ps_accept_blocked s"
    using step by (auto simp: main_step_def split: main_pc.splits if_splits)
  then have acc: "accept_rank s' \<le> accept_rank s"
    using same(5) tcp by (intro accept_rank_mono)
  have "main_rank (ps_started s') (ps_main s') +
      (\<Sum>pc\<leftarrow>ps_frames s' MainThread. frame_rank (ps_started s') pc) < main_rank (ps_started s) (ps_main s)"
    using step late f run workers_length [OF process_invD(6) [OF inv]]
    by (auto simp: main_step_def split: main_pc.splits if_splits)
  then show "remaining s' < remaining s"
    using acc same(5) f by (simp add: remaining_def)
  have "MainMoves ok \<in> own_moves"
    by (cases ok) (simp_all add: own_moves_def)
  then show "stopping s'"
    using stoppingI [OF assms(1) _ assms(2)] same(4-6) late run' by simp
qed

lemma engine_end_decreases:
  assumes "stopping s" and "process_step (ThreadEnds EngineThread) s = Some s'"
  shows "stopping s'" and "remaining s' < remaining s" and "ps_tcp_running s' \<Longrightarrow> ps_tcp_running s"
proof -
  have s': "EngineThread \<notin> ps_ended s" "s' = s\<lparr>ps_ended := insert EngineThread (ps_ended s)\<rparr>"
    using assms(2) by (auto simp: may_end_def exists_thread_def split: if_splits)
  then show "remaining s' < remaining s" and "ps_tcp_running s' \<Longrightarrow> ps_tcp_running s"
    by (simp_all add: remaining_def accept_rank_def)
  show "stopping s'"
    by (rule stoppingI [OF assms(1) _ assms(2)])
       (use s' stoppingD(2,4) [OF assms(1)] in \<open>auto simp: own_moves_def\<close>)
qed

lemma accept_decreases:
  assumes "stopping s" and "ev \<in> {FlagTest, AcceptError}" and "process_step (LoopMoves ev) s = Some s'"
  shows "stopping s'" and "remaining s' \<le> remaining s" and "\<not> ps_tcp_running s \<Longrightarrow> remaining s' < remaining s"
    and "ps_tcp_running s' \<Longrightarrow> ps_tcp_running s"
proof -
  have step: "accept_loop_step ev s = Some s'"
    using assms(3) by (auto split: if_splits)
  have same: "ps_main s' = ps_main s" "ps_frames s' = ps_frames s" "ps_started s' = ps_started s"
    "ps_running s' = ps_running s" "ps_tcp_running s' = ps_tcp_running s" "ps_ended s \<subseteq> ps_ended s'"
    "EngineThread \<in> ps_ended s' \<longleftrightarrow> EngineThread \<in> ps_ended s"
    using step assms(2) by (auto simp: accept_loop_step_def split: if_splits)
  have acc: "accept_rank s' \<le> accept_rank s" "\<not> ps_tcp_running s \<Longrightarrow> accept_rank s' < accept_rank s"
    using step assms(2) by (auto simp: accept_loop_step_def accept_rank_def exists_thread_def split: if_splits)
  show "remaining s' \<le> remaining s" and "\<not> ps_tcp_running s \<Longrightarrow> remaining s' < remaining s"
    and "ps_tcp_running s' \<Longrightarrow> ps_tcp_running s"
    using acc same by (auto simp: remaining_def)
  show "stopping s'"
    by (rule stoppingI [OF assms(1) _ assms(3)])
       (use assms(2) same stoppingD(2,4) [OF assms(1)] in \<open>auto simp: own_moves_def\<close>)
qed

lemma own_move_decreases:
  assumes "stopping s" and "m \<in> own_moves" and "process_step m s = Some s'"
  shows "stopping s'" and "remaining s' \<le> remaining s"
    and "\<not> is_accept m \<or> \<not> ps_tcp_running s \<Longrightarrow> remaining s' < remaining s"
    and "ps_tcp_running s' \<Longrightarrow> ps_tcp_running s"
proof -
  consider ok where "m = MainMoves ok" | "m = FrameMoves MainThread" | "m = ThreadEnds EngineThread"
    | ev where "m = LoopMoves ev" "ev \<in> {FlagTest, AcceptError}"
    using assms(2) by (auto simp: own_moves_def)
  then have "stopping s' \<and> remaining s' \<le> remaining s \<and>
      (\<not> is_accept m \<or> \<not> ps_tcp_running s \<longrightarrow> remaining s' < remaining s) \<and> (ps_tcp_running s' \<longrightarrow> ps_tcp_running s)"
  proof cases
    case 1
    then show ?thesis
      using main_decreases [OF assms(1), of ok s'] assms(3) by auto
  next
    case 2
    then show ?thesis
      using frame_decreases [OF assms(1), of s'] assms(3) by auto
  next
    case 3
    then show ?thesis
      using engine_end_decreases [OF assms(1), of s'] assms(3) by auto
  next
    case 4
    then show ?thesis
      using accept_decreases [OF assms(1) 4(2), of s'] assms(3) by auto
  qed
  then show "stopping s'" and "remaining s' \<le> remaining s"
    and "\<not> is_accept m \<or> \<not> ps_tcp_running s \<Longrightarrow> remaining s' < remaining s"
    and "ps_tcp_running s' \<Longrightarrow> ps_tcp_running s"
    by blast+
qed

lemma own_run:
  assumes "stopping s" and "set ms \<subseteq> own_moves" and "process_run ms s = Some s'"
  shows "stopping s' \<and> length (filter (\<lambda>m. \<not> is_accept m) ms) + remaining s' \<le> remaining s \<and>
         (\<not> ps_tcp_running s \<longrightarrow> length ms + remaining s' \<le> remaining s)"
  using assms
proof (induction ms arbitrary: s)
  case Nil
  then show ?case by simp
next
  case (Cons m ms)
  obtain s1 where s1: "process_step m s = Some s1" "process_run ms s1 = Some s'"
    using Cons.prems(3) by (auto simp del: process_step.simps split: option.splits)
  have m: "m \<in> own_moves" "set ms \<subseteq> own_moves"
    using Cons.prems(2) by auto
  note dec = own_move_decreases [OF Cons.prems(1) m(1) s1(1)]
  show ?case
    using Cons.IH [OF dec(1) m(2) s1(2)] dec(2-4) by auto
qed

text \<open>A join that is blocked waits for a thread that can go on.\<close>

definition engine_can_end :: "process_state \<Rightarrow> bool" where
  "engine_can_end s \<longleftrightarrow> (\<exists>s'. process_step (ThreadEnds EngineThread) s = Some s')"

definition accept_can_move :: "process_state \<Rightarrow> bool" where
  "accept_can_move s \<longleftrightarrow> \<not> ps_tcp_running s \<and>
     (\<exists>ev\<in>{FlagTest, AcceptError}. \<exists>s'. process_step (LoopMoves ev) s = Some s')"

lemma engine_waited_for:
  assumes "stopping s" and "\<not> ps_engine_running s" and "EngineThread \<notin> ps_ended s"
  shows "engine_can_end s"
  using assms stoppingD(2) [OF assms(1)] process_invD(1) [OF stoppingD(1) [OF assms(1)]]
    process_invD(2) [OF stoppingD(1) [OF assms(1)], of EngineThread]
  by (cases "ps_main s") (auto simp: engine_can_end_def may_end_def exists_thread_def)

lemma accept_waited_for:
  assumes "stopping s" and "\<not> ps_tcp_running s" and "k < length (ps_workers s)" and "Worker k \<notin> ps_ended s"
  shows "accept_can_move s"
proof -
  note d = process_invD [OF stoppingD(1) [OF assms(1)]]
  have "k < ps_started s"
    using workers_length [OF d(6)] assms(3) by simp
  then have "k = 0"
    using stoppingD(5) [OF assms(1), of k] assms(4) by auto
  then have "exists_thread (Worker 0) s \<and> ps_frames s (Worker 0) = []"
    using d(2) [of "Worker 0"] assms(4) \<open>k < ps_started s\<close> by (simp add: exists_thread_def)
  then show ?thesis
    using d(1) assms(2) by (cases "ps_accept_blocked s") (auto simp: accept_can_move_def accept_loop_step_def)
qed

lemma blocked_call:
  assumes "stopping s" and "frame_ok s pc" and "stop_call MainThread pc s = None"
  shows "engine_can_end s \<or> accept_can_move s"
proof (cases pc)
  case (AtTcpJoin k)
  then show ?thesis
    using assms(2,3) accept_waited_for [OF assms(1), of k] by (auto split: if_splits)
next
  case AtEngineJoin
  then show ?thesis
    using assms(2,3) engine_waited_for [OF assms(1)] by (auto split: if_splits)
qed (use assms(3) in auto)

lemma blocked_main:
  assumes "stopping s" and "\<not> is_returned (ps_main s)" and "main_step True s = None"
  shows "engine_can_end s \<or> accept_can_move s"
proof -
  have ok: "main_ok (ps_main s) s" and late: "is_late (ps_main s)"
    using stoppingD(1,2) [OF assms(1)] process_invD(5) by blast+
  show ?thesis
  proof (cases "ps_main s")
    case (MainTcpJoin status k)
    then show ?thesis
      using ok assms(3) accept_waited_for [OF assms(1), of k] by (auto simp: main_step_def split: if_splits)
  qed (use ok late assms(2,3) engine_waited_for [OF assms(1)] in \<open>auto simp: main_step_def split: if_splits\<close>)
qed

lemma stopping_progress:
  assumes "stopping s" and "\<not> is_returned (ps_main s)"
  shows "\<exists>m\<in>own_moves. \<exists>s'. process_step m s = Some s' \<and> remaining s' < remaining s"
proof (cases "engine_can_end s \<or> accept_can_move s")
  case True
  then have "\<exists>m s'. m \<in> own_moves \<and> process_step m s = Some s' \<and> (\<not> is_accept m \<or> \<not> ps_tcp_running s)"
  proof
    assume "engine_can_end s"
    then show ?thesis
      unfolding engine_can_end_def by (intro exI [of _ "ThreadEnds EngineThread"]) (simp add: own_moves_def)
  next
    assume "accept_can_move s"
    then obtain ev s' where "\<not> ps_tcp_running s" "ev \<in> {FlagTest, AcceptError}"
        "process_step (LoopMoves ev) s = Some s'"
      unfolding accept_can_move_def by blast
    then show ?thesis
      by (intro exI [of _ "LoopMoves ev"]) (auto simp: own_moves_def)
  qed
  then show ?thesis
    using own_move_decreases(3) [OF assms(1)] by blast
next
  case False
  note inv = stoppingD(1) [OF assms(1)]
  have "\<exists>m s'. m \<in> own_moves \<and> process_step m s = Some s' \<and> \<not> is_accept m"
  proof (cases "ps_frames s MainThread")
    case Nil
    then have "process_step (MainMoves True) s \<noteq> None"
      using False blocked_main [OF assms] process_invD(1) [OF inv] by auto
    then show ?thesis
      by (intro exI [of _ "MainMoves True"]) (auto simp: own_moves_def simp del: process_step.simps)
  next
    case (Cons pc pcs)
    then have "frame_ok s pc"
      using process_invD(3) [OF inv, of pc] by simp
    then have "process_step (FrameMoves MainThread) s \<noteq> None"
      using False blocked_call [OF assms(1)] Cons process_invD(1) [OF inv]
      by (cases "stop_call MainThread pc s") (auto simp: frame_step_def)
    then show ?thesis
      by (intro exI [of _ "FrameMoves MainThread"]) (auto simp: own_moves_def simp del: process_step.simps)
  qed
  then show ?thesis
    using own_move_decreases(3) [OF assms(1)] by blast
qed

lemma stopping_status:
  assumes "stopping s" and "is_returned (ps_main s)"
  shows "ps_main s = MainReturned 0"
  using assms(2) process_invD(5) [OF stoppingD(1) [OF assms(1)]] stoppingD(3) [OF assms(1)]
  by (cases "ps_main s") (auto simp: status_ok_def)

section \<open>A handler on another thread\<close>

text \<open>A call of \<^verbatim>\<open>stop\<close> that has found the flag set.\<close>

definition committed :: "frame_pc \<Rightarrow> bool" where
  "committed pc \<longleftrightarrow> pc \<noteq> AtTest \<and> pc \<noteq> AtLoad"

definition caught :: "thread_id \<Rightarrow> process_state \<Rightarrow> bool" where
  "caught t s \<longleftrightarrow> (\<exists>pc\<in>set (ps_frames s t). committed pc)"

text \<open>
  The thread cannot end while the call is on its stack, so nobody has joined it: \<^verbatim>\<open>main\<close> has not returned, and
  the call itself has not got past its own join.
\<close>

lemma caught_not_joined:
  assumes "live_inv s" and "t \<noteq> MainThread" and "caught t s"
  shows "\<not> is_returned (ps_main s)" and "exists_thread t s"
    and "t = Worker k \<Longrightarrow> k < length (ps_workers s) \<and> \<not> ps_workers s ! k"
    and "t = EngineThread \<Longrightarrow> ps_engine_joinable s"
proof -
  note d = live_invD [OF assms(1)]
  show ex: "exists_thread t s"
    using d(2) [OF assms(2)] assms(3) by (cases "ps_frames s t") (auto simp: caught_def)
  show w: "k < length (ps_workers s) \<and> \<not> ps_workers s ! k" if "t = Worker k" for k
    using ex d(5) that by (auto simp: exists_thread_def threads_ok_def workers_ended_def)
  show e: "ps_engine_joinable s" if "t = EngineThread"
    using ex d(5) that by (auto simp: exists_thread_def threads_ok_def)
  show "\<not> is_returned (ps_main s)"
    using w e d(4) assms(2) by (cases t; cases "ps_main s") auto
qed

lemma caught_call:
  assumes "live_inv s" and "t \<noteq> MainThread" and "ps_frames s t = pc # pcs" and "committed pc"
    and "stop_call t pc s = Some (r, s1)" and "ps_crash s1 = None"
  shows "\<exists>q. r = Some q \<and> committed q"
proof -
  have c: "caught t s"
    using assms(3,4) by (simp add: caught_def)
  note j = caught_not_joined [OF assms(1,2) c] and ok = live_invD(1) [OF assms(1), of pc t]
  show ?thesis
  proof (cases t)
    case (Worker k)
    then show ?thesis
      using assms(3-6) j(3) [of k] ok j(2)
      by (cases pc) (auto simp: committed_def workers_ended_def exists_thread_def joined_below_def split: if_splits)
  next
    case EngineThread
    then show ?thesis
      using assms(3-6) j(4) ok by (cases pc) (auto simp: committed_def split: if_splits)
  qed (use assms(2) in simp)
qed

lemma caught_step:
  assumes "live_inv s" and "t \<noteq> MainThread" and "caught t s" and "process_step m s = Some s'"
    and "ps_crash s' = None"
  shows "caught t s'"
proof (cases "m = FrameMoves t")
  case True
  then have "frame_step t s = Some s'" "ps_crash s = None"
    using assms(4) by (auto split: if_splits)
  then obtain pc pcs r s1 where f: "ps_frames s t = pc # pcs" and c: "stop_call t pc s = Some (r, s1)"
    and s': "s' = s1\<lparr>ps_frames := (ps_frames s)(t := (case r of None \<Rightarrow> pcs | Some q \<Rightarrow> q # pcs))\<rparr>"
    using frame_step_cases [of t s s'] assms(5) by metis
  show ?thesis
  proof (cases "committed pc")
    case True
    then obtain q where "r = Some q" "committed q"
      using caught_call [OF assms(1,2) f _ c] assms(5) by (auto simp: s')
    then show ?thesis
      by (simp add: caught_def s')
  next
    case False
    then show ?thesis
      using assms(3) f by (auto simp: caught_def s' split: option.splits)
  qed
next
  case False
  have "set (ps_frames s t) \<subseteq> set (ps_frames s' t)"
  proof (cases m)
    case (FrameMoves u)
    then show ?thesis
      using False assms(4) stop_call_same(2) by (auto simp: frame_step_def split: if_splits list.splits)
  next
    case (MainMoves ok)
    then have "main_step ok s = Some s'"
      using assms(4) by (simp split: if_splits)
    then show ?thesis
      using main_step_same(2) assms(2) by simp
  qed (use assms(4) in \<open>auto simp: accept_loop_step_def split: if_splits accept_event.splits\<close>)
  then show ?thesis
    using assms(3) by (auto simp: caught_def)
qed

lemma crash_keeps_main: "process_step m s = Some s' \<Longrightarrow> ps_crash s' \<noteq> None \<Longrightarrow> ps_main s' = ps_main s"
proof -
  assume step: "process_step m s = Some s'" and crash: "ps_crash s' \<noteq> None"
  have none: "ps_crash s = None"
    using process_step_no_crash [OF step] .
  show ?thesis
  proof (cases m)
    case (MainMoves ok)
    then have "main_step ok s = Some s'"
      using step by (simp split: if_splits)
    then show ?thesis
      using main_step_same(1) none crash by simp
  next
    case (FrameMoves t)
    then show ?thesis
      using step stop_call_same(1) by (auto simp: frame_step_def split: if_splits list.splits)
  qed (use step none crash in \<open>auto simp: accept_loop_step_def split: if_splits accept_event.splits\<close>)
qed

lemma crashed_stays: "ps_crash s \<noteq> None \<Longrightarrow> process_run ms s = Some s' \<Longrightarrow> s' = s"
  using process_step_no_crash by (cases ms) (auto simp del: process_step.simps split: option.splits)

lemma caught_run:
  assumes "live_inv s" and "t \<noteq> MainThread" and "caught t s" and "process_run ms s = Some s'"
  shows "\<not> is_returned (ps_main s') \<and> (ps_crash s' = None \<longrightarrow> caught t s')"
  using assms
proof (induction ms arbitrary: s)
  case Nil
  then show ?case
    using caught_not_joined(1) by simp
next
  case (Cons m ms)
  obtain s1 where s1: "process_step m s = Some s1" "process_run ms s1 = Some s'"
    using Cons.prems(4) by (auto simp del: process_step.simps split: option.splits)
  show ?case
  proof (cases "ps_crash s1 = None")
    case True
    then show ?thesis
      using Cons.IH [OF process_step_live [OF Cons.prems(1) s1(1)] Cons.prems(2) caught_step [OF Cons.prems(1-3) s1(1)] s1(2)]
      by blast
  next
    case False
    then have "s' = s1" "ps_main s1 = ps_main s"
      using crashed_stays [OF _ s1(2)] crash_keeps_main [OF s1(1)] by blast+
    then show ?thesis
      using False caught_not_joined(1) [OF Cons.prems(1-3)] by auto
  qed
qed

lemma process_possible_live: "process_possible s \<Longrightarrow> ps_crash s = None \<Longrightarrow> live_inv s"
proof (induction rule: process_possible.induct)
  case possible_begins
  show ?case by (rule live_inv_new)
next
  case (possible_moves s m s')
  then show ?case
    using process_step_live [OF _ possible_moves.hyps(2)] process_step_no_crash [OF possible_moves.hyps(2)]
    by (simp del: process_step.simps)
qed

section \<open>An uninterrupted handler\<close>

text \<open>The parts of the state that \<open>Gateway_Main\<close> has too.\<close>

definition agrees :: "process_state \<Rightarrow> GatewayServer \<Rightarrow> bool" where
  "agrees p s \<longleftrightarrow>
     ps_running p = gs_running s \<and> ps_tcp_running p = ts_running (gs_tcp_server s) \<and>
     ps_engine_running p = me_running (gc_matching_engine (gs_core s)) \<and>
     ps_engine_joinable p = me_worker_thread (gc_matching_engine (gs_core s)) \<and>
     length (ps_workers p) = length (ts_worker_threads (gs_tcp_server s))"

definition in_call :: "process_state \<Rightarrow> frame_pc list \<Rightarrow> process_state" where
  "in_call p pcs = p\<lparr>ps_frames := (ps_frames p)(MainThread := pcs)\<rparr>"

lemma frame_run:
  assumes "ps_crash p = None" and "ps_alive p" and "stop_call MainThread pc p = Some (r, p')"
    and "ps_frames p' = ps_frames p"
  shows "process_step (FrameMoves MainThread) (in_call p [pc]) =
     Some (in_call p' (case r of None \<Rightarrow> [] | Some q \<Rightarrow> [q]))"
proof -
  have "stop_call MainThread pc (in_call p [pc]) = Some (r, in_call p' [pc])"
    using assms(3) by (cases pc) (auto simp: in_call_def split: if_splits)
  then show ?thesis
    using assms(1,2,4) by (simp add: frame_step_def in_call_def split: option.split)
qed

lemma join_run:
  assumes "ps_crash p = None" and "ps_alive p" and "\<forall>i<length (ps_workers p). Worker i \<in> ps_ended p"
  shows "k \<le> length (ps_workers p) \<Longrightarrow>
    process_run (replicate (Suc (length (ps_workers p) - k)) (FrameMoves MainThread)) (in_call p [AtTcpJoin k]) =
    Some (in_call (p\<lparr>ps_workers := []\<rparr>) [AtEngineFlag])"
  using assms
proof (induction "length (ps_workers p) - k" arbitrary: p k)
  case 0
  then show ?case
    using frame_run [of p "AtTcpJoin k" "Some AtEngineFlag" "p\<lparr>ps_workers := []\<rparr>"]
    by (simp del: process_step.simps)
next
  case (Suc n)
  have k: "k < length (ps_workers p)"
    using Suc.hyps(2) by simp
  define p1 where "p1 = (if ps_workers p ! k then p else p\<lparr>ps_workers := (ps_workers p)[k := True]\<rparr>)"
  have p1: "length (ps_workers p1) = length (ps_workers p)" "ps_crash p1 = None" "ps_alive p1"
    "ps_ended p1 = ps_ended p" "ps_frames p1 = ps_frames p" "p1\<lparr>ps_workers := []\<rparr> = p\<lparr>ps_workers := []\<rparr>"
    using Suc.prems by (simp_all add: p1_def)
  have "stop_call MainThread (AtTcpJoin k) p = Some (Some (AtTcpJoin (Suc k)), p1)"
    using Suc.prems k by (simp add: p1_def)
  then have "process_step (FrameMoves MainThread) (in_call p [AtTcpJoin k]) = Some (in_call p1 [AtTcpJoin (Suc k)])"
    using frame_run [of p "AtTcpJoin k" "Some (AtTcpJoin (Suc k))" p1] Suc.prems p1 by simp
  moreover have "process_run (replicate (Suc n) (FrameMoves MainThread)) (in_call p1 [AtTcpJoin (Suc k)]) =
      Some (in_call (p\<lparr>ps_workers := []\<rparr>) [AtEngineFlag])"
  proof -
    have n: "n = length (ps_workers p1) - Suc k" and "Suc k \<le> length (ps_workers p1)"
      and "\<forall>i<length (ps_workers p1). Worker i \<in> ps_ended p1"
      using Suc.hyps(2) Suc.prems k p1 by simp_all
    from Suc.hyps(1) [OF n this(2) p1(2,3) this(3)] show ?thesis
      using n p1(6) by simp
  qed
  ultimately show ?case
    using Suc.hyps(2) [symmetric] by (simp del: process_step.simps)
qed

lemma handler_run:
  assumes "ps_crash p = None" and "ps_alive p" and "ps_gateway p" and "ps_running p"
    and "\<forall>i<length (ps_workers p). Worker i \<in> ps_ended p" and "EngineThread \<in> ps_ended p"
  shows "process_run (replicate (length (ps_workers p) + 8) (FrameMoves MainThread)) (in_call p [AtTest]) =
    Some (in_call (p\<lparr>ps_running := False, ps_tcp_running := False, ps_workers := [],
                     ps_engine_running := False, ps_engine_joinable := False\<rparr>) [])"
proof -
  let ?m = "FrameMoves MainThread" and ?n = "length (ps_workers p)"
  let ?p1 = "p\<lparr>ps_running := False, ps_tcp_running := False\<rparr>"
  let ?p2 = "?p1\<lparr>ps_workers := []\<rparr>"
  let ?p3 = "?p2\<lparr>ps_engine_running := False\<rparr>"
  let ?p4 = "?p3\<lparr>ps_engine_joinable := False\<rparr>"
  have "process_run (replicate 4 ?m) (in_call p [AtTest]) = Some (in_call ?p1 [AtTcpJoin 0])"
    using frame_run [of p AtTest "Some AtLoad" p] frame_run [of p AtLoad "Some AtStore" p]
      frame_run [of p AtStore "Some AtTcpFlag" "p\<lparr>ps_running := False\<rparr>"]
      frame_run [of "p\<lparr>ps_running := False\<rparr>" AtTcpFlag "Some (AtTcpJoin 0)" ?p1] assms(1-4)
    by (simp add: eval_nat_numeral del: process_step.simps)
  moreover have "process_run (replicate (Suc ?n) ?m) (in_call ?p1 [AtTcpJoin 0]) = Some (in_call ?p2 [AtEngineFlag])"
    using join_run [of ?p1 0] assms(1,2,5) by simp
  moreover have "process_step ?m (in_call ?p3 [AtEngineJoin]) = Some (in_call ?p4 [AtSessions])"
    using frame_run [of ?p3 AtEngineJoin "Some AtSessions" ?p4] assms(1,2,6)
    by (cases "ps_engine_joinable p") (simp_all del: process_step.simps)
  then have "process_run (replicate 3 ?m) (in_call ?p2 [AtEngineFlag]) = Some (in_call ?p4 [])"
    using frame_run [of ?p2 AtEngineFlag "Some AtEngineJoin" ?p3] frame_run [of ?p4 AtSessions None ?p4] assms(1,2)
    by (simp add: eval_nat_numeral del: process_step.simps)
  moreover have "replicate (?n + 8) ?m = replicate 4 ?m @ replicate (Suc ?n) ?m @ replicate 3 ?m"
    by (simp only: replicate_add [symmetric]) (rule arg_cong2 [where f = replicate], simp_all)
  ultimately show ?thesis
    by (simp add: process_run_append del: replicate_Suc process_step.simps)
qed


section \<open>Results\<close>

text \<open>C18: shutdown is safe if the main thread alone handles the signals and none comes too late. Let
  any number of signals interrupt \<^verbatim>\<open>main\<close>, and the handler itself, at any time up to the destruction of the
  server, in any interleaving with the other threads: no call touches a server that does not exist
  and no thread joins itself. When \<^verbatim>\<open>main\<close> has returned, every thread ever started has ended, and the status
  is 0 exactly if the server had been started.\<close>

theorem signals_on_main_safe:
  assumes "process_reachable s"
  shows "ps_crash s = None \<and>
         (\<forall>status. ps_main s = MainReturned status \<longrightarrow>
            status = (if 0 < ps_started s then 0 else 1) \<and> \<not> ps_alive s \<and>
            EngineThread \<in> ps_ended s \<and> (\<forall>i<ps_started s. Worker i \<in> ps_ended s))"
  using process_invD(1,5,6) [OF process_reachable_inv [OF assms]]
  by (auto simp: status_ok_def threads_ok_def workers_ended_def)

lemma process_run_reachable:
  "process_reachable s \<Longrightarrow> \<forall>t. SignalTo t \<notin> set ms \<Longrightarrow> process_run ms s = Some s' \<Longrightarrow> process_reachable s'"
proof (induction ms arbitrary: s)
  case Nil
  then show ?case by simp
next
  case (Cons m ms)
  then obtain s1 where s1: "process_step m s = Some s1" "process_run ms s1 = Some s'"
    by (auto split: option.splits)
  have "disciplined m s"
    using Cons.prems(2) by (auto simp: disciplined_def)
  then have "process_reachable s1"
    by (rule process_moves [OF Cons.prems(1) _ s1(1)])
  then show ?case
    using Cons.IH s1(2) Cons.prems(2) by simp
qed

text \<open>The calls that bring the process to its waiting loop, with the accept thread in \<^verbatim>\<open>accept\<close>, and the
  handling of a signal up to the wait for that thread.\<close>

definition startup :: "process_move list" where
  "startup = replicate 5 (MainMoves True) @ [LoopMoves FlagTest]"

lemma startup_run:
  "\<exists>s. process_run startup process_new = Some s \<and> process_reachable s \<and> ps_main s = MainWaiting \<and>
       ps_running s \<and> ps_frames s = (\<lambda>_. []) \<and> ps_started s = 1 \<and> ps_crash s = None \<and>
       ps_accept_blocked s \<and> Worker 0 \<notin> ps_ended s"
proof -
  obtain s where s: "process_run startup process_new = Some s" "ps_main s = MainWaiting \<and>
       ps_running s \<and> ps_frames s = (\<lambda>_. []) \<and> ps_started s = 1 \<and> ps_crash s = None \<and> ps_accept_blocked s \<and>
       Worker 0 \<notin> ps_ended s"
    by (simp add: startup_def process_new_def main_step_def accept_loop_step_def exists_thread_def eval_nat_numeral)
  moreover have "process_reachable s"
    by (rule process_run_reachable [OF process_begins _ s(1)]) (simp add: startup_def)
  ultimately show ?thesis by blast
qed

text \<open>A process that a signal has stopped, up to the return of \<^verbatim>\<open>main\<close>.\<close>

definition shutdown :: "process_move list" where
  "shutdown = replicate 4 (FrameMoves MainThread) @
     LoopMoves AcceptError # LoopMoves FlagTest # replicate 3 (FrameMoves MainThread) @
     ThreadEnds EngineThread # replicate 2 (FrameMoves MainThread) @ replicate 2 (MainMoves True) @
     FrameMoves MainThread # replicate 4 (MainMoves True)"

lemma signal_reachable:
  assumes "process_reachable s" and "ps_main s = MainWaiting" and "process_step (SignalTo MainThread) s = Some s1"
  shows "process_reachable s1"
  by (rule process_moves [OF assms(1) _ assms(3)]) (simp add: assms(2) disciplined_def)

lemma shutdown_run:
  "\<exists>s s'. process_run startup process_new = Some s \<and> process_reachable s \<and> ps_main s = MainWaiting \<and>
     process_run (SignalTo MainThread # shutdown) s = Some s' \<and> process_reachable s' \<and>
     ps_main s' = MainReturned 0"
proof -
  obtain s s1 s' where s: "process_run startup process_new = Some s" "ps_main s = MainWaiting"
      "process_step (SignalTo MainThread) s = Some s1" "process_run shutdown s1 = Some s'" "ps_main s' = MainReturned 0"
    by (simp add: startup_def shutdown_def process_new_def main_step_def frame_step_def accept_loop_step_def exists_thread_def
        may_end_def eval_nat_numeral)
  have "process_reachable s"
    by (rule process_run_reachable [OF process_begins _ s(1)]) (simp add: startup_def)
  moreover from this have "process_reachable s'"
    using process_run_reachable [OF signal_reachable [OF _ s(2,3)] _ s(4)] by (simp add: shutdown_def)
  ultimately show ?thesis
    using s by (intro exI [of _ s] exI [of _ s']) (simp del: process_step.simps)
qed

theorem signals_on_main_safe_witness:
  "\<exists>s s'. process_run startup process_new = Some s \<and>
     process_run (SignalTo MainThread # shutdown) s = Some s' \<and>
     ps_main s' = MainReturned 0 \<and> ps_crash s' = None \<and> \<not> ps_alive s' \<and> EngineThread \<in> ps_ended s'"
proof -
  obtain s s' where s: "process_run startup process_new = Some s" "process_reachable s'" "ps_main s' = MainReturned 0"
      "process_run (SignalTo MainThread # shutdown) s = Some s'"
    using shutdown_run by blast
  then show ?thesis
    using signals_on_main_safe [OF s(2)] by blast
qed

lemma signal_stopping:
  assumes "process_reachable s" and "ps_main s = MainWaiting"
    and "\<forall>i<ps_started s. 0 < i \<longrightarrow> Worker i \<in> ps_ended s"
    and "process_step (SignalTo MainThread) s = Some s1"
  shows "stopping s1"
proof -
  have "process_inv s1" "process_inv s"
    using process_reachable_inv signal_reachable [OF assms(1,2,4)] assms(1) by blast+
  moreover have "s1 = s\<lparr>ps_frames := (ps_frames s)(MainThread := AtTest # ps_frames s MainThread)\<rparr>"
    using assms(4) by (auto split: if_splits)
  ultimately show ?thesis
    using assms(2,3) process_invD(5) [of s] by (simp add: stopping_def)
qed

text \<open>C19: a signal ends the process, once the clients have left and if \<^verbatim>\<open>accept\<close> returns. Let a signal
  interrupt the waiting main thread, which may be handling others, and consider any run of the steps of
  \<^verbatim>\<open>main\<close>, of the handlers on it, of the accept loop, whose \<^verbatim>\<open>accept\<close> fails, and of the end of the
  engine's worker. It crashes nowhere; not counting turns of the accept loop it has at most
  \<open>remaining\<close> steps, from the reset of the loop's flag on at most that many with them; and it either has come to the return of
  \<^verbatim>\<open>main\<close> with status 0 or can go on with a step that brings this closer. So no schedule that
  does not starve a thread avoids the return.\<close>

theorem signal_ends_process:
  assumes "process_reachable s" and "ps_main s = MainWaiting"
    and "\<forall>i<ps_started s. 0 < i \<longrightarrow> Worker i \<in> ps_ended s"
    and "process_step (SignalTo MainThread) s = Some s1"
    and "set ms \<subseteq> own_moves" and "process_run ms s1 = Some s2"
  shows "ps_crash s2 = None \<and>
         length (filter (\<lambda>m. \<not> is_accept m) ms) \<le> remaining s1 \<and>
         (\<forall>ns s3. \<not> ps_tcp_running s2 \<and> set ns \<subseteq> own_moves \<and> process_run ns s2 = Some s3 \<longrightarrow>
            length ns \<le> remaining s2) \<and>
         (ps_main s2 = MainReturned 0 \<or>
          (\<exists>m\<in>own_moves. \<exists>s3. process_step m s2 = Some s3 \<and> remaining s3 < remaining s2))"
proof -
  have s2: "stopping s2" "length (filter (\<lambda>m. \<not> is_accept m) ms) + remaining s2 \<le> remaining s1"
    using own_run [OF signal_stopping [OF assms(1-4)] assms(5,6)] by blast+
  have "length ns \<le> remaining s2" if "\<not> ps_tcp_running s2" "set ns \<subseteq> own_moves" "process_run ns s2 = Some s3" for ns s3
    using own_run [OF s2(1) that(2,3)] that(1) by linarith
  moreover have "ps_crash s2 = None"
    using process_invD(1) [OF stoppingD(1) [OF s2(1)]] .
  ultimately show ?thesis
    using s2 stopping_progress [OF s2(1)] stopping_status [OF s2(1)] by auto
qed

theorem signal_ends_process_witness:
  "\<exists>s s1 s2. process_run startup process_new = Some s \<and> process_step (SignalTo MainThread) s = Some s1 \<and>
     process_run shutdown s1 = Some s2 \<and> length (filter (\<lambda>m. \<not> is_accept m) shutdown) \<le> remaining s1 \<and>
     ps_main s2 = MainReturned 0"
proof -
  obtain s s1 s2 where s: "process_run startup process_new = Some s" "process_reachable s" "ps_main s = MainWaiting"
      "process_step (SignalTo MainThread) s = Some s1" "process_run shutdown s1 = Some s2" "ps_main s2 = MainReturned 0"
    using shutdown_run by (auto simp del: process_step.simps split: option.splits)
  have "ps_started s = 1"
    using startup_run s(1) by auto
  moreover have "set shutdown \<subseteq> own_moves"
    by (auto simp: shutdown_def own_moves_def)
  ultimately show ?thesis
    using signal_ends_process [OF s(2,3) _ s(4) _ s(5)] s by auto
qed

definition in_accept :: "process_state \<Rightarrow> bool" where
  "in_accept s \<longleftrightarrow> ps_accept_blocked s \<and> exists_thread (Worker 0) s"

definition accept_silent :: "process_move \<Rightarrow> bool" where
  "accept_silent m \<longleftrightarrow> m \<noteq> LoopMoves AcceptError \<and> m \<noteq> LoopMoves AcceptClient"

lemma in_accept_step:
  assumes "live_inv s" and "in_accept s" and "accept_silent m" and "process_step m s = Some s'"
  shows "in_accept s'"
proof (cases m)
  case (MainMoves ok)
  then have step: "main_step ok s = Some s'"
    using assms(4) by (simp split: if_splits)
  moreover have "ps_accept_blocked s' = ps_accept_blocked s"
    using step by (auto simp: main_step_def split: main_pc.splits if_splits)
  ultimately show ?thesis
    using main_step_same(3) [OF step live_invD(4) [OF assms(1)]] assms(2) by (simp add: in_accept_def)
next
  case (FrameMoves t)
  then have "ps_accept_blocked s' = ps_accept_blocked s \<and> ps_started s' = ps_started s \<and> ps_ended s' = ps_ended s"
    using assms(4) stop_call_same(5,6,7) by (auto simp: frame_step_def split: if_splits list.splits)
  then show ?thesis
    using assms(2) by (simp add: in_accept_def exists_thread_def)
next
  case (LoopMoves ev)
  then show ?thesis
    using assms(2-4) by (cases ev) (auto simp: in_accept_def accept_silent_def accept_loop_step_def split: if_splits)
qed (use assms(2,4) in \<open>auto simp: in_accept_def exists_thread_def may_end_def split: if_splits\<close>)

lemma in_accept_not_returned:
  assumes "live_inv s" and "in_accept s"
  shows "\<not> is_returned (ps_main s)"
  using live_invD(4,5) [OF assms(1)] assms(2)
  by (cases "ps_main s") (auto simp: in_accept_def exists_thread_def threads_ok_def workers_ended_def)

lemma in_accept_run:
  assumes "live_inv s" and "in_accept s" and "\<forall>m\<in>set ms. accept_silent m" and "process_run ms s = Some s'"
  shows "\<not> is_returned (ps_main s')"
  using assms
proof (induction ms arbitrary: s)
  case Nil
  then show ?case
    using in_accept_not_returned by simp
next
  case (Cons m ms)
  obtain s1 where s1: "process_step m s = Some s1" "process_run ms s1 = Some s'"
    using Cons.prems(4) by (auto simp del: process_step.simps split: option.splits)
  have m: "accept_silent m" "\<forall>m\<in>set ms. accept_silent m"
    using Cons.prems(3) by auto
  show ?case
  proof (cases "ps_crash s1 = None")
    case True
    then show ?thesis
      using Cons.IH [OF process_step_live [OF Cons.prems(1) s1(1)] in_accept_step [OF Cons.prems(1,2) m(1) s1(1)] m(2) s1(2)]
      by blast
  next
    case False
    then have "s' = s1" "ps_main s1 = ps_main s"
      using crashed_stays [OF _ s1(2)] crash_keeps_main [OF s1(1)] by blast+
    then show ?thesis
      using in_accept_not_returned [OF Cons.prems(1,2)] by simp
  qed
qed

text \<open>C37: stopping waits for \<^verbatim>\<open>accept\<close>. As long as \<^verbatim>\<open>accept\<close> does not return in the accept thread, \<^verbatim>\<open>main\<close> does not
  return either, whatever signals come to whatever threads and whatever these do: \<^verbatim>\<open>stop\<close> closes the
  listening socket, and if that does not make a pending \<^verbatim>\<open>accept\<close> return, the process does not end.\<close>

theorem accept_blocks_stop:
  assumes "process_possible s" and "ps_crash s = None" and "in_accept s"
    and "\<forall>m\<in>set ms. accept_silent m" and "process_run ms s = Some s'"
  shows "\<not> is_returned (ps_main s')"
  by (rule in_accept_run [OF process_possible_live [OF assms(1,2)] assms(3-5)])

lemma possible_run: "process_possible s \<Longrightarrow> process_run ms s = Some s' \<Longrightarrow> process_possible s'"
  by (induction ms arbitrary: s) (auto simp del: process_step.simps split: option.splits intro: possible_moves)

theorem accept_blocks_stop_witness:
  "\<exists>s s'. process_run startup process_new = Some s \<and>
     process_run (SignalTo MainThread # replicate 4 (FrameMoves MainThread)) s = Some s' \<and>
     process_step (FrameMoves MainThread) s' = None \<and> \<not> is_returned (ps_main s')"
proof -
  let ?ms = "SignalTo MainThread # replicate 4 (FrameMoves MainThread)"
  obtain s s' where s: "process_run startup process_new = Some s" "process_run ?ms s = Some s'"
      "process_step (FrameMoves MainThread) s' = None" "ps_crash s = None" "in_accept s"
    by (simp add: startup_def process_new_def main_step_def frame_step_def accept_loop_step_def exists_thread_def
        in_accept_def eval_nat_numeral)
  have "process_possible s"
    by (rule possible_run [OF possible_begins s(1)])
  then have "\<not> is_returned (ps_main s')"
    by (rule accept_blocks_stop [OF _ s(4,5) _ s(2)]) (simp add: accept_silent_def)
  then show ?thesis
    using s(1-3) by blast
qed

text \<open>C34: a stop on the wrong thread is fatal. In a process whose signals may come at any time and on any thread,
  let a handler that runs on the accept thread, on a client's thread or on the engine's worker have
  found the server running and begun to stop it. Then, whatever happens, \<^verbatim>\<open>main\<close> never returns, and the call
  never does: it blocks, or ends in the crash of the thread's join on itself.\<close>

theorem stop_on_worker_fatal:
  assumes "process_possible s" and "ps_crash s = None" and "t \<noteq> MainThread" and "caught t s"
    and "process_run ms s = Some s'"
  shows "\<not> is_returned (ps_main s') \<and> (ps_crash s' = None \<longrightarrow> caught t s')"
  by (rule caught_run [OF process_possible_live [OF assms(1,2)] assms(3-5)])

theorem stop_on_worker_fatal_witness:
  "\<exists>s s'. process_run (startup @ [LoopMoves AcceptClient, SignalTo (Worker 1)] @ replicate 4 (FrameMoves (Worker 1)))
            process_new = Some s \<and>
     process_run [LoopMoves FlagTest, FrameMoves (Worker 1), FrameMoves (Worker 1)] s = Some s' \<and>
     \<not> is_returned (ps_main s') \<and> ps_crash s' = Some SelfJoin"
proof -
  obtain s s' where s:
    "process_run (startup @ [LoopMoves AcceptClient, SignalTo (Worker 1)] @ replicate 4 (FrameMoves (Worker 1)))
       process_new = Some s"
    "process_run [LoopMoves FlagTest, FrameMoves (Worker 1), FrameMoves (Worker 1)] s = Some s'"
    "ps_crash s = None" "caught (Worker 1) s" "ps_crash s' = Some SelfJoin"
    by (simp add: startup_def process_new_def main_step_def frame_step_def accept_loop_step_def exists_thread_def
        caught_def committed_def eval_nat_numeral)
  have "process_possible s"
    by (rule possible_run [OF possible_begins s(1)])
  then show ?thesis
    using stop_on_worker_fatal [OF _ s(3) _ s(4,2)] s(1,2,5) by blast
qed

text \<open>C38: signals before the server runs and after its end, on the main thread. One that arrives after the
  pointer has been set and before the server's flag has no effect at all: its handler leaves the process as
  it was, and the start goes on. One that arrives after \<^verbatim>\<open>main\<close> has left the block follows the stale
  pointer: the second step of its handler uses the destroyed server.\<close>

theorem early_and_late_signals:
  assumes "process_reachable s"
  shows "(ps_main s \<in> {MainPublished, MainEngineStarted, MainUndoJoin, MainTcpStarted} \<longrightarrow>
            process_run [SignalTo MainThread, FrameMoves MainThread, FrameMoves MainThread] s = Some s) \<and>
         (is_returned (ps_main s) \<longrightarrow>
            (\<exists>s'. process_run [SignalTo MainThread, FrameMoves MainThread, FrameMoves MainThread] s = Some s' \<and>
                  ps_crash s' = Some UseAfterDestruction))"
proof -
  note d = process_invD [OF process_reachable_inv [OF assms]]
  have "process_run [SignalTo MainThread, FrameMoves MainThread, FrameMoves MainThread] s = Some s"
    if main: "ps_main s \<in> {MainPublished, MainEngineStarted, MainUndoJoin, MainTcpStarted}"
  proof -
    have "ps_alive s" "ps_gateway s" "\<not> ps_running s"
      using main d(5,8) by auto
    then show ?thesis
      using d(1) by (simp add: frame_step_def exists_thread_def fun_upd_idem)
  qed
  moreover have "\<exists>s'. process_run [SignalTo MainThread, FrameMoves MainThread, FrameMoves MainThread] s = Some s' \<and>
      ps_crash s' = Some UseAfterDestruction" if ret: "is_returned (ps_main s)"
  proof -
    have "\<not> ps_alive s" "ps_gateway s"
      using ret d(5) by (cases "ps_main s"; simp)+
    then show ?thesis
      using d(1) by (simp add: frame_step_def exists_thread_def)
  qed
  ultimately show ?thesis
    by blast
qed

theorem early_and_late_signals_witness:
  "\<exists>s s' s''. process_run [MainMoves True, MainMoves True] process_new = Some s \<and>
     process_run [SignalTo MainThread, FrameMoves MainThread, FrameMoves MainThread] s = Some s \<and>
     process_run (startup @ SignalTo MainThread # shutdown) process_new = Some s' \<and>
     process_run [SignalTo MainThread, FrameMoves MainThread, FrameMoves MainThread] s' = Some s'' \<and>
     ps_crash s'' = Some UseAfterDestruction"
proof -
  obtain s where s: "process_run [MainMoves True, MainMoves True] process_new = Some s" "ps_main s = MainPublished"
    by (simp add: process_new_def main_step_def)
  have r: "process_reachable s"
    by (rule process_run_reachable [OF process_begins _ s(1)]) simp
  obtain s0 s' where s': "process_run startup process_new = Some s0" "process_run (SignalTo MainThread # shutdown) s0 = Some s'"
      "process_reachable s'" "ps_main s' = MainReturned 0"
    using shutdown_run by blast
  then have "process_run (startup @ SignalTo MainThread # shutdown) process_new = Some s'"
    by (simp add: process_run_append del: process_run.simps)
  then show ?thesis
    using early_and_late_signals [OF r] early_and_late_signals [OF s'(3)] s s'(4)
    by (auto simp del: process_run.simps)
qed

text \<open>An uninterrupted handler is the handler of \<open>Gateway_Main\<close>. When the threads have ended, the steps of a
  handler on the main thread one after the other leave the flags, the threads and the vector as
  \<open>signal_handler\<close> does, whether or not the server is running.\<close>

theorem handler_uninterrupted:
  assumes "ps_crash p = None" and "ps_alive p" and "ps_gateway p" and "ps_frames p MainThread = []"
    and "\<forall>i<length (ps_workers p). Worker i \<in> ps_ended p" and "EngineThread \<in> ps_ended p"
    and "agrees p s" and "signal_handler (\<lambda>_. True) (Some s) = Some (calls, Some s')"
  shows "\<exists>k p'. process_run (SignalTo MainThread # replicate k (FrameMoves MainThread)) p = Some p' \<and>
           ps_frames p' MainThread = [] \<and> agrees p' s'"
proof -
  have sig: "process_step (SignalTo MainThread) p = Some (in_call p [AtTest])"
    using assms(1,4) by (simp add: exists_thread_def in_call_def)
  show ?thesis
  proof (cases "ps_running p")
    case True
    let ?p = "p\<lparr>ps_running := False, ps_tcp_running := False, ps_workers := [],
                 ps_engine_running := False, ps_engine_joinable := False\<rparr>"
    have "agrees (in_call ?p []) s'"
      using True assms(7,8)
      by (auto simp: agrees_def in_call_def signal_handler_def GatewayServer_stop_def TCPServer_stop_eq
          MatchingEngine_stop_def Let_def split: prod.splits if_splits)
    then show ?thesis
      using handler_run [OF assms(1-3) True assms(5,6)] sig
      by (intro exI [of _ "length (ps_workers p) + 8"] exI [of _ "in_call ?p []"])
         (simp add: in_call_def del: process_step.simps)
  next
    case False
    have "process_run (replicate 2 (FrameMoves MainThread)) (in_call p [AtTest]) = Some (in_call p [])"
      using frame_run [of p AtTest "Some AtLoad" p] frame_run [of p AtLoad None p] assms(1-3) False
      by (simp add: eval_nat_numeral del: process_step.simps)
    moreover have "s' = s"
      using False assms(7,8) by (simp add: agrees_def signal_handler_def GatewayServer_stop_def)
    moreover have "in_call p [] = p"
      using assms(4) by (simp add: in_call_def fun_upd_idem)
    ultimately show ?thesis
      using sig assms(4,7) by (intro exI [of _ 2] exI [of _ p]) (simp del: process_step.simps)
  qed
qed

definition sample_process :: process_state where
  "sample_process = process_new\<lparr>ps_main := MainWaiting, ps_gateway := True, ps_alive := True, ps_running := True,
     ps_tcp_running := True, ps_engine_running := True, ps_engine_joinable := True, ps_workers := [False],
     ps_ended := {Worker 0, EngineThread}\<rparr>"

definition sample_server :: GatewayServer where
  "sample_server = snd (snd (GatewayServer_start
     good_results (GatewayServer_new 3 8080 4)))"

theorem handler_uninterrupted_witness:
  "\<exists>k p' calls s'. process_run (SignalTo MainThread # replicate k (FrameMoves MainThread)) sample_process = Some p' \<and>
     signal_handler (\<lambda>_. True) (Some sample_server) = Some (calls, Some s') \<and> agrees p' s' \<and> gs_running sample_server"
proof -
  have a: "agrees sample_process sample_server" and r: "gs_running sample_server"
    by (simp_all add: agrees_def sample_process_def sample_server_def process_new_def lifecycle_defs TCPServer_start_def
        good_results_def)
  obtain calls s' where h: "signal_handler (\<lambda>_. True) (Some sample_server) = Some (calls, Some s')"
    using r by (simp add: signal_handler_def GatewayServer_stop_def TCPServer_stop_eq list_all_iff)
  have f: "ps_crash sample_process = None" "ps_alive sample_process" "ps_gateway sample_process"
    "ps_frames sample_process MainThread = []"
    "\<forall>i<length (ps_workers sample_process). Worker i \<in> ps_ended sample_process"
    "EngineThread \<in> ps_ended sample_process"
    by (simp_all add: sample_process_def process_new_def)
  show ?thesis
    using handler_uninterrupted [OF f a h] h r by blast
qed

end
