(* ===== verification/Gateway_Types.thy ===== *)
theory Gateway_Types
  imports Gateway_Server
begin

text \<open>
  Type soundness of the gateway. The fixed arrays of the C++ structs (\<^verbatim>\<open>char symbol[8]\<close> of \<^verbatim>\<open>Order\<close>
  and \<^verbatim>\<open>Trade\<close>, \<^verbatim>\<open>char reason[64]\<close> of \<^verbatim>\<open>OrderAck\<close>) are lists here, so their length is an invariant to
  prove: of the queued commands, of the orders in the books, and of the messages sent, which
  are whole packed structs behind a header that the program's own parser accepts.
\<close>

section \<open>Well-typed values\<close>

definition order_typed :: "Order \<Rightarrow> bool" where
  "order_typed order \<longleftrightarrow> length (ord_symbol order) = 8"

definition books_all :: "(Order \<Rightarrow> bool) \<Rightarrow> books \<Rightarrow> bool" where
  "books_all P books \<longleftrightarrow>
     (\<forall>symbol book. books symbol = Some book \<longrightarrow> (\<forall>order\<in>#resting book. P order))"

text \<open>A message of the server: a header the parser accepts, then exactly one \<^verbatim>\<open>OrderAck\<close> or \<^verbatim>\<open>Trade\<close>.\<close>

definition message_typed :: "bytes \<Rightarrow> bool" where
  "message_typed data \<longleftrightarrow>
     (case parse_header data (length data) of
        Inl f \<Rightarrow> False
      | Inr header \<Rightarrow>
          validate_message header (drop sizeof_MessageHeader data) = Inr True \<and>
          unat (mh_length header) = length data \<and>
          (mh_type header = message_type_code ORDER_ACK \<and>
             length data = sizeof_MessageHeader + sizeof_OrderAck \<or>
           mh_type header = message_type_code TRADE \<and>
             length data = sizeof_MessageHeader + sizeof_Trade))"

fun event_typed :: "gateway_event \<Rightarrow> bool" where
  "event_typed (ClientSends env c data n) \<longleftrightarrow> order_typed (env_junk env)"
| "event_typed _ \<longleftrightarrow> True"

section \<open>The books\<close>

text \<open>
  What a property of an order's identity, side and symbol needs to hold of all orders in the
  books: that it holds of the orders added. The trades are then between such orders.
\<close>

definition listing_property :: "(Order \<Rightarrow> bool) \<Rightarrow> bool" where
  "listing_property P \<longleftrightarrow> (\<forall>x y. same_listing x y \<longrightarrow> P x = P y)"

lemma listing_order_typed: "listing_property order_typed"
  and listing_ids: "listing_property (\<lambda>x. ord_id x \<in> A)"
  by (simp_all add: listing_property_def same_listing_def order_typed_def)

lemma books_all_upd:
  "books_all P books \<Longrightarrow> \<forall>order\<in>#resting book. P order \<Longrightarrow> books_all P (books(symbol \<mapsto> book))"
  by (simp add: books_all_def)

lemma books_all_empty [simp]: "books_all P Map.empty"
  by (simp add: books_all_def)

lemma match_trade_orders:
  assumes "OrderBook_match book = (ts, book')" and "t \<in> set ts"
  shows "\<exists>b\<in>#resting book. \<exists>a\<in>#resting book. tr_buy_order_id t = ord_id b \<and> tr_sell_order_id t = ord_id a"
  using match_loop_trades [OF conjunct1 [OF OrderBook_match_eq [OF assms(1)]]] assms(2)
  by (fastforce simp: resting_def)

context order_sorting
begin

lemma apply_add_all:
  assumes "listing_property P" and "books_all P books" and "P cmd"
    and "apply_add srt cmd books ids = Inr (books', ids', ts)"
  shows "books_all P books'"
    and "t \<in> set ts \<Longrightarrow> \<exists>b a. P b \<and> P a \<and> tr_buy_order_id t = ord_id b \<and> tr_sell_order_id t = ord_id a"
proof -
  obtain symbol where s: "cstr (ord_symbol cmd) = Inr symbol"
    using assms(4) by (auto simp: apply_add_def split: sum.splits)
  define b where "b = (case books symbol of Some book \<Rightarrow> book | None \<Rightarrow> OrderBook_new symbol)"
  have "\<forall>x\<in>#resting b. P x"
    using assms(2) by (auto simp: b_def books_all_def OrderBook_new_def resting_def split: option.split)
  then have added: "\<forall>x\<in>#resting (OrderBook_add_order srt cmd b). P x"
    using assms(3) by (simp add: book.add_resting)
  then have "\<forall>x\<in>#resting (snd (OrderBook_match (OrderBook_add_order srt cmd b))). P x"
    using book.match_resting assms(1) unfolding listing_property_def by metis
  moreover have r: "books' = books(symbol \<mapsto> snd (OrderBook_match (OrderBook_add_order srt cmd b)))"
      "ts = fst (OrderBook_match (OrderBook_add_order srt cmd b))"
    using assms(4) s by (auto simp: apply_add_def b_def Let_def split: prod.splits)
  ultimately show "books_all P books'"
    using books_all_upd [OF assms(2)] by simp
  show "\<exists>b a. P b \<and> P a \<and> tr_buy_order_id t = ord_id b \<and> tr_sell_order_id t = ord_id a" if "t \<in> set ts"
    using match_trade_orders [OF prod.collapse [symmetric]] that added unfolding r(2) by metis
qed

lemma apply_cancel_all:
  assumes "books_all P books" and "apply_cancel cmd books ids = (books', ids')"
  shows "books_all P books'"
  using assms mset_subset_eqD [OF book.cancel_resting]
  by (auto simp: apply_cancel_def books_all_def split: option.splits if_splits)

lemma apply_modify_all:
  assumes "listing_property P" and "books_all P books" and "apply_modify srt cmd books ids = (books', ids')"
  shows "books_all P books'"
proof (cases "ids (ord_id cmd) = None \<or> books (the (ids (ord_id cmd))) = None")
  case True
  then show ?thesis
    using assms(2,3) by (auto simp: apply_modify_def split: option.splits)
next
  case False
  then obtain symbol b where b: "ids (ord_id cmd) = Some symbol" "books symbol = Some b"
    by auto
  let ?b = "snd (OrderBook_modify_order srt (ord_id cmd) (ucast (ord_quantity cmd)) (ord_price cmd) b)"
  have "\<forall>x\<in>#resting ?b. P x"
    using assms(1,2) b(2) book.modify_resting unfolding books_all_def listing_property_def by metis
  then show ?thesis
    using books_all_upd [OF assms(2)] assms(3) b by (auto simp: apply_modify_def)
qed

lemma apply_command_all:
  assumes "listing_property P" and "books_all P books" and "ord_command cmd = ADD \<Longrightarrow> P cmd"
    and "apply_command srt cmd books ids = Inr (books', ids', ts)"
  shows "books_all P books' \<and>
         (\<forall>t\<in>set ts. \<exists>b a. P b \<and> P a \<and> tr_buy_order_id t = ord_id b \<and> tr_sell_order_id t = ord_id a)"
proof (cases "ord_command cmd")
  case ADD
  then show ?thesis
    using apply_add_all [OF assms(1,2)] assms(3,4) by (simp add: apply_command_def)
next
  case CANCEL
  then show ?thesis
    using apply_cancel_all [OF assms(2), of cmd ids books' ids'] assms(4)
    by (simp add: apply_command_def split: prod.splits)
next
  case MODIFY
  then show ?thesis
    using apply_modify_all [OF assms(1,2), of cmd ids books' ids'] assms(4)
    by (simp add: apply_command_def split: prod.splits)
qed

lemma apply_commands_all:
  assumes "listing_property P"
  shows "books_all P books \<Longrightarrow> \<forall>cmd\<in>set cmds. ord_command cmd = ADD \<longrightarrow> P cmd \<Longrightarrow>
    apply_commands srt cmds books ids = Inr (books', ids', ts) \<Longrightarrow>
    books_all P books' \<and>
    (\<forall>t\<in>set ts. \<exists>b a. P b \<and> P a \<and> tr_buy_order_id t = ord_id b \<and> tr_sell_order_id t = ord_id a)"
proof (induction cmds arbitrary: books ids ts)
  case Nil
  then show ?case by simp
next
  case (Cons c cmds)
  then obtain b i t1 t2 where c: "apply_command srt c books ids = Inr (b, i, t1)"
    "apply_commands srt cmds b i = Inr (books', ids', t2)" "ts = t1 @ t2"
    unfolding apply_commands_Cons_Inr by blast
  have "books_all P b \<and>
      (\<forall>t\<in>set t1. \<exists>b a. P b \<and> P a \<and> tr_buy_order_id t = ord_id b \<and> tr_sell_order_id t = ord_id a)"
    using apply_command_all [OF assms Cons.prems(1) _ c(1)] Cons.prems(2) by simp
  then show ?case
    using Cons.IH [OF _ _ c(2)] Cons.prems(2) unfolding c(3) by auto
qed

end

section \<open>The requests\<close>

lemma engine_events_typed:
  assumes "event_typed ev" and "cmd \<in> set (concat (map request_of (engine_events ev)))"
  shows "order_typed cmd"
proof (cases ev)
  case (ClientSends env c data n)
  then obtain r where "cmd \<in> set (request_of (request_event env r))"
    using assms(2) by (auto split: if_splits option.splits)
  then show ?thesis
    using assms(1) ClientSends
    by (cases r) (auto simp: order_typed_def Order_make_def split: if_splits)
qed (use assms(2) in simp_all)

section \<open>The messages\<close>

lemma message_typed_frame:
  assumes "length payload = sizeof_OrderAck \<and> code = message_type_code ORDER_ACK \<or>
           length payload = sizeof_Trade \<and> code = message_type_code TRADE"
  shows "message_typed (frame code now payload)"
proof -
  have "parse_header (frame code now payload) (length (frame code now payload)) =
      Inr (frame_header code now payload)"
    using parse_header_frame [of "length (frame code now payload)" code now payload "[]"] by simp
  moreover have "validate_message (frame_header code now payload) payload = Inr True"
    using validate_frame [of payload code now "[]"] assms by (auto simp: sizeof_defs)
  moreover have "drop sizeof_MessageHeader (frame code now payload) = payload"
    by simp
  ultimately show ?thesis
    using assms by (auto simp: message_typed_def sizeof_defs)
qed

lemma ack_frame_typed: "message_typed (ack_frame env i ok reason)"
  unfolding ack_frame_def by (rule message_typed_frame) simp

lemma trade_frame_typed: "length (tr_symbol t) = 8 \<Longrightarrow> message_typed (trade_frame env t)"
  unfolding trade_frame_def by (rule message_typed_frame) simp

lemma trade_log_typed:
  "\<forall>t\<in>set ts. length (tr_symbol t) = 8 \<Longrightarrow> (c, m) \<in> set (trade_log envs k ts g) \<Longrightarrow> message_typed m"
  by (induction ts arbitrary: k) (auto simp: owner_told_def trade_frame_typed split: if_splits option.splits)

lemma gateway_step_sends:
  assumes "core_ok N g" and "event_ok ev" and "gateway_step N srt inet ev g = Inr g'"
  shows "\<exists>new. gc_sent g' = gc_sent g @ new \<and> (\<forall>(c, m)\<in>set new. message_typed m)"
proof (cases ev)
  case (ClientSends env c data n)
  show ?thesis
  proof (cases "n < sizeof_MessageHeader \<or> request_in data = None")
    case True
    then show ?thesis
      using assms(2,3) ClientSends on_message_perform [of data n N env c g]
      by (cases "n < sizeof_MessageHeader") (auto simp: on_message_def well_framed_def)
  next
    case False
    then obtain r where r: "request_in data = Some r" by auto
    then have "request_terminated r" "\<not> length (payload_in data) < stated_length data"
      using assms(2) ClientSends False by (auto simp: well_framed_def)
    then show ?thesis
      using perform_request_spec [OF core_okD(1) [OF assms(1)], of r srt inet env c] False r assms(2,3)
        ClientSends on_message_perform [of data n N env c g]
      by (auto simp: ack_frame_typed)
  qed
next
  case (WorkerRuns envs d)
  then show ?thesis
    using gateway_worker_spec [OF core_okD [OF assms(1)], of srt inet d envs] assms(3) trade_log_typed
    by (auto simp del: engine_step.simps)
qed (use assms(3) in \<open>auto simp: register_client_def unregister_client_def\<close>)

lemma gateway_run_sends:
  assumes "core_ok N g" and "\<forall>ev\<in>set evs. event_ok ev" and "gateway_run N srt inet evs g = Inr g'"
    and "\<forall>(c, m)\<in>set (gc_sent g). message_typed m"
  shows "\<forall>(c, m)\<in>set (gc_sent g'). message_typed m"
  using assms
proof (induction evs arbitrary: g)
  case Nil
  then show ?case by simp
next
  case (Cons ev evs)
  obtain g1 where g1: "gateway_step N srt inet ev g = Inr g1" "core_ok N g1"
    using gateway_step_ok [OF Cons.prems(1), of ev srt inet] Cons.prems(2) by auto
  obtain new where "gc_sent g1 = gc_sent g @ new" "\<forall>(c, m)\<in>set new. message_typed m"
    using gateway_step_sends [OF Cons.prems(1) _ g1(1)] Cons.prems(2) by auto
  then have "\<forall>(c, m)\<in>set (gc_sent g1). message_typed m"
    using Cons.prems(4) by auto
  then show ?case
    using Cons.IH [OF g1(2)] Cons.prems(2,3) g1(1) by simp
qed

end
