(* ===== verification/Gateway_Interleaving.thy ===== *)
theory Gateway_Interleaving
  imports Gateway_Types
begin

text \<open>
  The threads of the gateway (\<^verbatim>\<open>order_gateway/gateway_server.cpp\<close>) step by step. A handler is not one
  step: it notes the owner of a new order under the mutex, then hands the request to the engine,
  then sends the answer; the worker takes a command and matches it, and for each trade looks up the
  two clients under the mutex and then sends to the one and to the other. Here each of these is a
  step, and the threads of all connections and the worker take steps in any order. The queue's
  operations are single steps here; their own interleaving is in \<open>Queue_Concurrency\<close> and
  \<open>Queue_Release_Acquire\<close>.
\<close>

section \<open>The handlers in steps\<close>

text \<open>What a handler does alone: parse, validate and dispatch.\<close>

definition decode_message :: "bytes \<Rightarrow> nat \<Rightarrow> request option outcome" where
  "decode_message data n =
     (if n < sizeof_MessageHeader then Inr None
      else case parse_header data n of
        Inl f \<Rightarrow> Inl f
      | Inr header \<Rightarrow>
          (case validate_message header (drop sizeof_MessageHeader data) of
             Inl f \<Rightarrow> Inl f
           | Inr valid \<Rightarrow>
               (if \<not> valid then Inr None
                else if mh_type header = message_type_code NEW_ORDER then
                  map_sum id (\<lambda>order. Some (ReqNew order)) (parse_new_order (drop sizeof_MessageHeader data))
                else if mh_type header = message_type_code CANCEL_ORDER then
                  map_sum id (\<lambda>order. Some (ReqCancel order)) (parse_cancel_order (drop sizeof_MessageHeader data))
                else if mh_type header = message_type_code MODIFY_ORDER then
                  map_sum id (\<lambda>order. Some (ReqModify order)) (parse_modify_order (drop sizeof_MessageHeader data))
                else Inr None)))"

text \<open>The critical section at the start of \<^verbatim>\<open>handle_new_order\<close>; the other handlers have none.\<close>

fun begin_request :: "fd \<Rightarrow> request \<Rightarrow> GatewayCore \<Rightarrow> GatewayCore outcome" where
  "begin_request client_fd (ReqNew order) g =
     (case cstr (no_symbol order) of
        Inl f \<Rightarrow> Inl f
      | Inr symbol \<Rightarrow>
          Inr (g\<lparr>gc_order_to_client := (gc_order_to_client g)(no_order_id order \<mapsto> client_fd)\<rparr>))"
| "begin_request client_fd (ReqCancel order) g = Inr g"
| "begin_request client_fd (ReqModify order) g = Inr g"

text \<open>The call of the engine: what the answer will say, and the new state.\<close>

fun submit_request :: "nat \<Rightarrow> gateway_env \<Rightarrow> request \<Rightarrow> GatewayCore \<Rightarrow> (bool \<times> string \<times> GatewayCore) outcome" where
  "submit_request N env (ReqNew order) g =
     (case cstr (no_symbol order) of
        Inl f \<Rightarrow> Inl f
      | Inr symbol \<Rightarrow>
          map_sum id (\<lambda>r. case r of Inl e \<Rightarrow> (False, exn_what e, g)
                             | Inr engine \<Rightarrow> (True, '''', g\<lparr>gc_matching_engine := engine\<rparr>))
            (MatchingEngine_add_order N (env_oom env)
               (Order_make (no_order_id order) (no_price order) (ucast (no_quantity order)) symbol
                  (no_side order = of_char (CHR ''B''))) (gc_matching_engine g)))"
| "submit_request N env (ReqCancel order) g =
     map_sum id (\<lambda>r. case r of Inl e \<Rightarrow> (False, exn_what e, g)
                        | Inr (success, engine) \<Rightarrow>
                            (success, if success then '''' else ''Cancel request rejected (queue full)'',
                             g\<lparr>gc_matching_engine := engine\<rparr>))
       (MatchingEngine_cancel_order N (env_oom env) (env_junk env) (co_order_id order)
          (gc_matching_engine g))"
| "submit_request N env (ReqModify order) g =
     map_sum id (\<lambda>r. case r of Inl e \<Rightarrow> (False, exn_what e, g)
                        | Inr (success, engine) \<Rightarrow>
                            (success, if success then '''' else ''Modify request rejected (queue full)'',
                             g\<lparr>gc_matching_engine := engine\<rparr>))
       (MatchingEngine_modify_order N (env_oom env) (env_junk env) (mo_order_id order)
          (mo_new_quantity order) (mo_new_price order) (gc_matching_engine g))"

datatype handler_pc =
    HandlerIdle
  | HandlerSubmit gateway_env request
  | HandlerAnswer gateway_env u64 bool string

datatype worker_pc =
    WorkerReady
  | WorkerCallback "nat \<Rightarrow> gateway_env" nat Trade "Trade list"
  | WorkerFound "nat \<Rightarrow> gateway_env" nat "fd \<times> fd" Trade "Trade list"
  | WorkerBuyerTold "nat \<Rightarrow> gateway_env" nat fd Trade "Trade list"

fun callbacks_pc :: "(nat \<Rightarrow> gateway_env) \<Rightarrow> nat \<Rightarrow> Trade list \<Rightarrow> worker_pc" where
  "callbacks_pc envs k [] = WorkerReady"
| "callbacks_pc envs k (trade # trades) = WorkerCallback envs k trade trades"

text \<open>\<open>gi_events\<close> records the calls of the engine in the order in which they are made.\<close>

record gateway_threads =
  gi_core :: GatewayCore
  gi_handler :: "fd \<Rightarrow> handler_pc"
  gi_worker :: worker_pc
  gi_events :: "engine_event list"

datatype thread_move =
    Connect gateway_env fd
  | Receive gateway_env fd bytes nat
  | Submit fd
  | Answer fd
  | Leave gateway_env fd
  | PopAndMatch "nat \<Rightarrow> gateway_env" u64
  | LookupClients
  | NotifyBuyer
  | NotifySeller

text \<open>A move that is not possible gives \<open>None\<close>; a possible one may fault.\<close>

definition handler_move ::
    "nat \<Rightarrow> fd \<Rightarrow> gateway_threads \<Rightarrow> gateway_threads outcome option" where
  "handler_move N client_fd s =
     (case gi_handler s client_fd of
        HandlerIdle \<Rightarrow> None
      | HandlerSubmit env r \<Rightarrow>
          Some (map_sum id (\<lambda>(accepted, reason, g).
                  s\<lparr>gi_core := g,
                    gi_handler := (gi_handler s)(client_fd := HandlerAnswer env (request_id r) accepted reason),
                    gi_events := gi_events s @ [request_event env r]\<rparr>)
                (submit_request N env r (gi_core s)))
      | HandlerAnswer env order_id accepted reason \<Rightarrow>
          Some (map_sum id (\<lambda>g. s\<lparr>gi_core := g, gi_handler := (gi_handler s)(client_fd := HandlerIdle)\<rparr>)
                (send_order_ack env client_fd order_id accepted reason (gi_core s))))"

fun is_idle :: "handler_pc \<Rightarrow> bool" where
  "is_idle HandlerIdle = True"
| "is_idle pc = False"

fun is_submit :: "handler_pc \<Rightarrow> bool" where
  "is_submit (HandlerSubmit env r) = True"
| "is_submit pc = False"

fun threads_step :: "nat \<Rightarrow> order_sort \<Rightarrow> (string \<Rightarrow> u32 option) \<Rightarrow> thread_move \<Rightarrow> gateway_threads \<Rightarrow>
    gateway_threads outcome option" where
  "threads_step N srt inet (Connect env c) s =
     (if is_idle (gi_handler s c)
      then Some (map_sum id (\<lambda>g. s\<lparr>gi_core := g\<rparr>) (register_client env c (gi_core s))) else None)"
| "threads_step N srt inet (Leave env c) s =
     (if is_idle (gi_handler s c)
      then Some (map_sum id (\<lambda>g. s\<lparr>gi_core := g\<rparr>) (unregister_client env c (gi_core s))) else None)"
| "threads_step N srt inet (Receive env c data n) s =
     (if \<not> is_idle (gi_handler s c) then None
      else Some (case decode_message data n of
             Inl f \<Rightarrow> Inl f
           | Inr None \<Rightarrow> Inr s
           | Inr (Some r) \<Rightarrow>
               map_sum id (\<lambda>g. s\<lparr>gi_core := g, gi_handler := (gi_handler s)(c := HandlerSubmit env r)\<rparr>)
                 (begin_request c r (gi_core s))))"
| "threads_step N srt inet (Submit c) s =
     (if is_submit (gi_handler s c) then handler_move N c s else None)"
| "threads_step N srt inet (Answer c) s =
     (if is_submit (gi_handler s c) then None else handler_move N c s)"
| "threads_step N srt inet (PopAndMatch envs d) s =
     (case gi_worker s of
        WorkerReady \<Rightarrow>
          Some (map_sum id (\<lambda>turn.
                  s\<lparr>gi_core := (gi_core s)\<lparr>gc_matching_engine := it_engine turn\<rparr>,
                    gi_worker := callbacks_pc envs 0 (it_callbacks turn),
                    gi_events := gi_events s @ [WorkerTurn d]\<rparr>)
                (process_orders N srt inet [d] (gc_matching_engine (gi_core s))))
      | _ \<Rightarrow> None)"
| "threads_step N srt inet LookupClients s =
     (case gi_worker s of
        WorkerCallback envs k trade trades \<Rightarrow>
          Some (Inr (s\<lparr>gi_worker := WorkerFound envs k (lookup_clients trade (gi_core s)) trade trades\<rparr>))
      | _ \<Rightarrow> None)"
| "threads_step N srt inet NotifyBuyer s =
     (case gi_worker s of
        WorkerFound envs k (buyer_fd, seller_fd) trade trades \<Rightarrow>
          Some (map_sum id (\<lambda>g. s\<lparr>gi_core := g, gi_worker := WorkerBuyerTold envs k seller_fd trade trades\<rparr>)
                (if buyer_fd \<noteq> -1 then send_trade_notification (envs (2 * k)) buyer_fd trade (gi_core s)
                 else Inr (gi_core s)))
      | _ \<Rightarrow> None)"
| "threads_step N srt inet NotifySeller s =
     (case gi_worker s of
        WorkerBuyerTold envs k seller_fd trade trades \<Rightarrow>
          Some (map_sum id (\<lambda>g. s\<lparr>gi_core := g, gi_worker := callbacks_pc envs (Suc k) trades\<rparr>)
                (if seller_fd \<noteq> -1 then send_trade_notification (envs (2 * k + 1)) seller_fd trade (gi_core s)
                 else Inr (gi_core s)))
      | _ \<Rightarrow> None)"

fun threads_run :: "nat \<Rightarrow> order_sort \<Rightarrow> (string \<Rightarrow> u32 option) \<Rightarrow> thread_move list \<Rightarrow> gateway_threads \<Rightarrow>
    gateway_threads outcome option" where
  "threads_run N srt inet [] s = Some (Inr s)"
| "threads_run N srt inet (m # ms) s =
     (case threads_step N srt inet m s of
        None \<Rightarrow> None
      | Some (Inl f) \<Rightarrow> Some (Inl f)
      | Some (Inr s') \<Rightarrow> threads_run N srt inet ms s')"

definition threads_new :: "GatewayCore \<Rightarrow> gateway_threads" where
  "threads_new g = \<lparr>gi_core = g, gi_handler = (\<lambda>_. HandlerIdle), gi_worker = WorkerReady, gi_events = []\<rparr>"

lemma is_idle_iff [simp]: "is_idle pc \<longleftrightarrow> pc = HandlerIdle"
  by (cases pc) simp_all

section \<open>Uninterrupted handlers\<close>

lemma on_message_decode:
  "on_message N env c data n g =
     (case decode_message data n of
        Inl f \<Rightarrow> Inl f | Inr None \<Rightarrow> Inr g | Inr (Some r) \<Rightarrow> perform_request N env c r g)"
  by (simp add: on_message_def decode_message_def perform_request_def split: sum.split)

lemma perform_request_steps:
  "perform_request N env c r g =
     (case begin_request c r g of
        Inl f \<Rightarrow> Inl f
      | Inr g1 \<Rightarrow> (case submit_request N env r g1 of
          Inl f \<Rightarrow> Inl f
        | Inr (accepted, reason, g2) \<Rightarrow> send_order_ack env c (request_id r) accepted reason g2))"
  by (cases r)
     (simp_all add: perform_request_def handle_new_order_def handle_cancel_order_def handle_modify_order_def
        Let_def split: sum.split)

lemma message_uninterrupted:
  assumes "gi_handler s c = HandlerIdle" and "decode_message data n = Inr (Some r)"
  shows "threads_run N srt inet [Receive env c data n, Submit c, Answer c] s =
           Some (map_sum id (\<lambda>g. s\<lparr>gi_core := g, gi_events := gi_events s @ [request_event env r]\<rparr>)
                  (on_message N env c data n (gi_core s)))"
proof -
  have idle: "(gi_handler s)(c := HandlerIdle) = gi_handler s"
    using assms(1) by auto
  show ?thesis
    using assms idle
    by (auto simp: on_message_decode perform_request_steps handler_move_def send_order_ack_eq
        split: sum.split prod.split)
qed

lemma callbacks_uninterrupted:
  "gi_worker s = callbacks_pc envs k ts \<Longrightarrow>
   threads_run N srt inet (concat (replicate (length ts) [LookupClients, NotifyBuyer, NotifySeller])) s =
     Some (map_sum id (\<lambda>g. s\<lparr>gi_core := g, gi_worker := WorkerReady\<rparr>) (deliver_trades envs k ts (gi_core s)))"
proof (induction ts arbitrary: k s)
  case Nil
  then show ?case by simp
next
  case (Cons t ts)
  let ?steps = "concat (replicate (length ts) [LookupClients, NotifyBuyer, NotifySeller])"
  have step: "threads_run N srt inet ([LookupClients, NotifyBuyer, NotifySeller] @ ?steps) s =
      (case on_trade (envs (2 * k)) (envs (2 * k + 1)) t (gi_core s) of
         Inl f \<Rightarrow> Some (Inl f)
       | Inr g \<Rightarrow> threads_run N srt inet ?steps (s\<lparr>gi_core := g, gi_worker := callbacks_pc envs (Suc k) ts\<rparr>))"
    using Cons.prems
    by (cases "lookup_clients t (gi_core s)")
       (auto simp: on_trade_def notify_clients_def split: sum.split)
  show ?case
    using step Cons.IH [of "s\<lparr>gi_core := g, gi_worker := callbacks_pc envs (Suc k) ts\<rparr>" "Suc k" for g]
    by (auto split: sum.split)
qed

section \<open>The invariant\<close>

definition request_safe :: "request \<Rightarrow> bool" where
  "request_safe r \<longleftrightarrow> request_terminated r \<and>
     (\<forall>env. \<forall>cmd\<in>set (request_of (request_event env r)). symbol_ok cmd)"

fun worker_trades :: "worker_pc \<Rightarrow> Trade list" where
  "worker_trades WorkerReady = []"
| "worker_trades (WorkerCallback envs k t ts) = t # ts"
| "worker_trades (WorkerFound envs k cs t ts) = t # ts"
| "worker_trades (WorkerBuyerTold envs k c t ts) = t # ts"

definition threads_inv :: "nat \<Rightarrow> order_sort \<Rightarrow> (string \<Rightarrow> u32 option) \<Rightarrow> MatchingEngine \<Rightarrow> gateway_threads \<Rightarrow> bool" where
  "threads_inv N srt inet e0 s \<longleftrightarrow>
     core_ok N (gi_core s) \<and>
     (\<exists>ts. engine_run N srt inet (gi_events s) e0 = Inr (gc_matching_engine (gi_core s), ts)) \<and>
     (\<forall>cmd\<in>set (concat (map request_of (gi_events s))). symbol_ok cmd) \<and>
     (\<forall>c env r. gi_handler s c = HandlerSubmit env r \<longrightarrow> request_safe r) \<and>
     (\<forall>t\<in>set (worker_trades (gi_worker s)). length (tr_symbol t) = 8)"

lemma threads_invD:
  assumes "threads_inv N srt inet e0 s"
  shows "core_ok N (gi_core s)"
    and "\<exists>ts. engine_run N srt inet (gi_events s) e0 = Inr (gc_matching_engine (gi_core s), ts)"
    and "\<forall>cmd\<in>set (concat (map request_of (gi_events s))). symbol_ok cmd"
    and "gi_handler s c = HandlerSubmit env r \<Longrightarrow> request_safe r"
    and "\<forall>t\<in>set (worker_trades (gi_worker s)). length (tr_symbol t) = 8"
  using assms unfolding threads_inv_def by blast+

lemma threads_inv_new: "core_ok N g \<Longrightarrow> threads_inv N srt inet (gc_matching_engine g) (threads_new g)"
  by (simp add: threads_inv_def threads_new_def)

lemma core_ok_cong: "gc_matching_engine g = gc_matching_engine g' \<Longrightarrow> core_ok N g = core_ok N g'"
  by (simp add: core_ok_def)

lemma worker_trades_callbacks [simp]: "worker_trades (callbacks_pc envs k ts) = ts"
  by (cases ts) simp_all

text \<open>A step that leaves the engine alone.\<close>

lemma threads_inv_local:
  assumes "threads_inv N srt inet e0 s" and "gc_matching_engine g = gc_matching_engine (gi_core s)"
    and "\<And>c env r. h c = HandlerSubmit env r \<Longrightarrow> gi_handler s c \<noteq> h c \<Longrightarrow> request_safe r"
    and "set (worker_trades w) \<subseteq> set (worker_trades (gi_worker s))"
  shows "threads_inv N srt inet e0 (s\<lparr>gi_core := g, gi_handler := h, gi_worker := w\<rparr>)"
  using assms core_ok_cong [OF assms(2)] unfolding threads_inv_def by auto metis

text \<open>A step that is an event of the engine.\<close>

lemma threads_inv_event:
  assumes "threads_inv N srt inet e0 s"
    and "engine_step N srt inet ev (gc_matching_engine (gi_core s)) = Inr (e, ts)"
    and "\<forall>cmd\<in>set (request_of ev). symbol_ok cmd"
    and "\<And>c env r. h c = HandlerSubmit env r \<Longrightarrow> gi_handler s c = h c"
    and "\<forall>t\<in>set (worker_trades w). length (tr_symbol t) = 8"
  shows "threads_inv N srt inet e0
           (s\<lparr>gi_core := (gi_core s)\<lparr>gc_matching_engine := e\<rparr>, gi_handler := h, gi_worker := w,
              gi_events := gi_events s @ [ev]\<rparr>)"
proof -
  note d = threads_invD [OF assms(1)]
  obtain ts0 where run: "engine_run N srt inet (gi_events s) e0 = Inr (gc_matching_engine (gi_core s), ts0)"
    using d(2) by blast
  have "engine_run N srt inet [ev] (gc_matching_engine (gi_core s)) = Inr (e, ts)"
    using assms(2) by (simp del: engine_step.simps)
  then have run': "engine_run N srt inet (gi_events s @ [ev]) e0 = Inr (e, ts0 @ ts)"
    using engine_run_append [OF run] by blast
  obtain e' ts' where step: "engine_step N srt inet ev (gc_matching_engine (gi_core s)) =
      Inr (e', if me_trade_callback (gc_matching_engine (gi_core s)) then ts' else [])"
    "engine_moves N srt (gc_matching_engine (gi_core s)) (request_of ev) e' ts'"
    using engine_step_moves [OF core_okD [OF d(1)], of srt inet ev] by blast
  then have m: "engine_moves N srt (gc_matching_engine (gi_core s)) (request_of ev) e ts'"
    using assms(2) by simp
  have "core_ok N ((gi_core s)\<lparr>gc_matching_engine := e\<rparr>)"
    using m engine_moves_pending [OF m] core_okD(2) [OF d(1)] assms(3)
    by (auto simp: core_ok_def engine_moves_def)
  moreover have "request_safe r" if "h c = HandlerSubmit env r" for c env r
    using that assms(4) d(4) by metis
  ultimately show ?thesis
    using run' d(3) assms(3,5) unfolding threads_inv_def by auto
qed

fun move_ok :: "thread_move \<Rightarrow> bool" where
  "move_ok (Receive env c data n) \<longleftrightarrow> length data = buffer_size \<and> well_framed data n"
| "move_ok m \<longleftrightarrow> True"

lemma decode_request:
  assumes "length data = buffer_size" and "well_framed data n"
  shows "decode_message data n = Inr (if n < sizeof_MessageHeader then None else request_in data)"
proof (cases "n < sizeof_MessageHeader")
  case True
  then show ?thesis by (simp add: decode_message_def)
next
  case False
  have h: "parse_header data n = Inr (header_in data)"
    using assms False by (simp add: parse_header_def header_in_def buffer_size_def sizeof_defs)
  have v: "validate_message (header_in data) (payload_in data) =
      Inr (mh_checksum (header_in data) = checksum_spec 0 (take (stated_length data) (payload_in data)))"
    using assms(2) False
    by (simp add: validate_message_def calculate_checksum_eq stated_length_def payload_in_def well_framed_def)
  have p: "parse_new_order (payload_in data) = Inr (NewOrder_of (take sizeof_NewOrder (payload_in data)))"
    "parse_cancel_order (payload_in data) = Inr (CancelOrder_of (take sizeof_CancelOrder (payload_in data)))"
    "parse_modify_order (payload_in data) = Inr (ModifyOrder_of (take sizeof_ModifyOrder (payload_in data)))"
    using assms
    by (simp_all add: parse_new_order_def parse_cancel_order_def parse_modify_order_def payload_in_def
        buffer_size_def sizeof_defs)
  show ?thesis
    using False p unfolding decode_message_def payload_in_def [symmetric]
    by (simp add: h v request_in_def Let_def)
qed

lemma request_in_safe:
  assumes "well_framed data n" and "\<not> n < sizeof_MessageHeader" and "request_in data = Some r"
  shows "request_safe r"
  using assms request_event_ok [OF assms(3)] by (auto simp: request_safe_def well_framed_def)

lemma begin_request_safe:
  assumes "request_terminated r"
  shows "begin_request c r g = Inr (g\<lparr>gc_order_to_client := note_owner r c (gc_order_to_client g)\<rparr>)"
  using assms by (cases r) (simp_all add: cstr_def)

lemma submit_request_spec:
  assumes "engine_inv N (gc_matching_engine g)" and "request_terminated r"
  shows "\<exists>e. engine_step N srt inet (request_event env r) (gc_matching_engine g) = Inr (e, []) \<and>
           submit_request N env r g =
             Inr (told_accepted N env r g, told_reason N env r g, g\<lparr>gc_matching_engine := e\<rparr>)"
proof -
  have push: "\<exists>e. push_command N cmd (gc_matching_engine g) = Inr (queue_open N g, e)" for cmd
    using push_command_spec [OF assms(1), of cmd] by (auto simp: queue_open_def)
  show ?thesis
  proof (cases r)
    case (ReqNew q)
    have s: "cstr (no_symbol q) = Inr (takeWhile nonzero (no_symbol q))"
      using assms(2) ReqNew by (simp add: cstr_def)
    show ?thesis
      using push [of "Order_make (no_order_id q) (no_price q) (ucast (no_quantity q))
          (takeWhile nonzero (no_symbol q)) (no_side q = of_char (CHR ''B''))"] ReqNew s
      by (auto simp: MatchingEngine_add_order_def)
  next
    case (ReqCancel q)
    show ?thesis
      using push [of "(Order_default (env_junk env))\<lparr>ord_id := co_order_id q, ord_command := CANCEL\<rparr>"] ReqCancel
      by (auto simp: MatchingEngine_cancel_order_def Let_def)
  next
    case (ReqModify q)
    show ?thesis
      using push [of "(Order_default (env_junk env))\<lparr>ord_id := mo_order_id q,
            ord_quantity := ucast (mo_new_quantity q), ord_price := mo_new_price q,
            ord_command := MODIFY\<rparr>"] ReqModify
      by (auto simp: MatchingEngine_modify_order_def Let_def)
  qed
qed

lemma handler_move_inv:
  assumes "threads_inv N srt inet e0 s" and "handler_move N c s = Some r"
  shows "\<exists>s'. r = Inr s' \<and> threads_inv N srt inet e0 s'"
proof (cases "gi_handler s c")
  case (HandlerSubmit env q)
  note d = threads_invD [OF assms(1)]
  have q: "request_safe q"
    using d(4) HandlerSubmit by blast
  then obtain e where e: "engine_step N srt inet (request_event env q) (gc_matching_engine (gi_core s)) = Inr (e, [])"
      "submit_request N env q (gi_core s) =
         Inr (told_accepted N env q (gi_core s), told_reason N env q (gi_core s),
              (gi_core s)\<lparr>gc_matching_engine := e\<rparr>)"
    using submit_request_spec [OF core_okD(1) [OF d(1)], of q srt inet env] by (auto simp: request_safe_def)
  let ?h = "(gi_handler s)(c := HandlerAnswer env (request_id q) (told_accepted N env q (gi_core s))
                (told_reason N env q (gi_core s)))"
  have "threads_inv N srt inet e0
      (s\<lparr>gi_core := (gi_core s)\<lparr>gc_matching_engine := e\<rparr>, gi_handler := ?h, gi_worker := gi_worker s,
         gi_events := gi_events s @ [request_event env q]\<rparr>)"
    using q d(5) by (intro threads_inv_event [OF assms(1) e(1)]) (auto simp: request_safe_def split: if_splits)
  then show ?thesis
    using assms(2) HandlerSubmit e(2) by (auto simp: handler_move_def)
next
  case (HandlerAnswer env i ok reason)
  have "threads_inv N srt inet e0
      (s\<lparr>gi_core := (gi_core s)\<lparr>gc_sent := l\<rparr>, gi_handler := (gi_handler s)(c := HandlerIdle),
         gi_worker := gi_worker s\<rparr>)" for l
    by (rule threads_inv_local [OF assms(1)]) (auto split: if_splits)
  then show ?thesis
    using assms(2) HandlerAnswer by (auto simp: handler_move_def send_order_ack_eq)
qed (use assms(2) in \<open>simp add: handler_move_def\<close>)

lemma pop_and_match_inv:
  assumes "threads_inv N srt inet e0 s" and "threads_step N srt inet (PopAndMatch envs d) s = Some r"
  shows "\<exists>s'. r = Inr s' \<and> threads_inv N srt inet e0 s'"
proof -
  note i = threads_invD [OF assms(1)]
  obtain e ts where w: "engine_step N srt inet (WorkerTurn d) (gc_matching_engine (gi_core s)) = Inr (e, ts)"
      "\<forall>t\<in>set ts. length (tr_symbol t) = 8"
    using gateway_worker_spec [OF core_okD [OF i(1)], of srt inet d envs] by blast
  then obtain turn where turn: "process_orders N srt inet [d] (gc_matching_engine (gi_core s)) = Inr turn"
      "it_engine turn = e" "it_callbacks turn = ts"
    by (auto simp: map_sum_id_eq_Inr simp del: process_orders.simps)
  have "threads_inv N srt inet e0
      (s\<lparr>gi_core := (gi_core s)\<lparr>gc_matching_engine := e\<rparr>, gi_handler := gi_handler s,
         gi_worker := callbacks_pc envs 0 ts, gi_events := gi_events s @ [WorkerTurn d]\<rparr>)"
    using w(2) by (intro threads_inv_event [OF assms(1) w(1)]) simp_all
  then show ?thesis
    using assms(2) turn by (auto simp del: process_orders.simps split: worker_pc.splits)
qed

lemma threads_inv_core:
  assumes "threads_inv N srt inet e0 s" and "gc_matching_engine g = gc_matching_engine (gi_core s)"
    and "set (worker_trades w) \<subseteq> set (worker_trades (gi_worker s))"
  shows "threads_inv N srt inet e0 (s\<lparr>gi_core := g, gi_worker := w\<rparr>)"
  using threads_inv_local [OF assms(1,2) _ assms(3), of "gi_handler s"] by simp

lemma receive_inv:
  assumes "threads_inv N srt inet e0 s" and "move_ok (Receive env c data n)"
    and "threads_step N srt inet (Receive env c data n) s = Some r"
  shows "\<exists>s'. r = Inr s' \<and> threads_inv N srt inet e0 s'"
proof (cases "n < sizeof_MessageHeader \<or> request_in data = None")
  case True
  then show ?thesis
    using assms decode_request [of data n] by (auto split: if_splits)
next
  case False
  then obtain q where q: "\<not> n < sizeof_MessageHeader" "request_in data = Some q"
    by auto
  then have safe: "request_safe q"
    using request_in_safe assms(2) by auto
  let ?g = "(gi_core s)\<lparr>gc_order_to_client := note_owner q c (gc_order_to_client (gi_core s))\<rparr>"
  have "threads_inv N srt inet e0
      (s\<lparr>gi_core := ?g, gi_handler := (gi_handler s)(c := HandlerSubmit env q), gi_worker := gi_worker s\<rparr>)"
    using safe by (intro threads_inv_local [OF assms(1)]) (auto split: if_splits)
  moreover have "begin_request c q (gi_core s) = Inr ?g"
    using safe by (intro begin_request_safe) (simp add: request_safe_def)
  ultimately show ?thesis
    using assms(2,3) q decode_request [of data n] by (auto split: if_splits)
qed

lemma notify_inv:
  assumes "threads_inv N srt inet e0 s" and "m \<in> {LookupClients, NotifyBuyer, NotifySeller}"
    and "threads_step N srt inet m s = Some r"
  shows "\<exists>s'. r = Inr s' \<and> threads_inv N srt inet e0 s'"
proof -
  have sent: "length (tr_symbol t) = 8 \<Longrightarrow> set (worker_trades w) \<subseteq> set (worker_trades (gi_worker s)) \<Longrightarrow>
      \<exists>g. (if b then send_trade_notification env c t (gi_core s) else Inr (gi_core s)) = Inr g \<and>
          threads_inv N srt inet e0 (s\<lparr>gi_core := g, gi_worker := w\<rparr>)" for t w b env c
    using threads_inv_core [OF assms(1)] threads_inv_core [OF assms(1), of "gi_core s" w]
    by (auto simp: send_trade_notification_eq)
  have looked: "set (worker_trades w) \<subseteq> set (worker_trades (gi_worker s)) \<Longrightarrow>
      threads_inv N srt inet e0 (s\<lparr>gi_worker := w\<rparr>)" for w
    using threads_inv_core [OF assms(1), of "gi_core s" w] by simp
  have typed: "\<forall>t\<in>set (worker_trades (gi_worker s)). length (tr_symbol t) = 8"
    by (rule threads_invD(5) [OF assms(1)])
  show ?thesis
  proof (cases "gi_worker s")
    case (WorkerCallback envs k t ts)
    then show ?thesis
      using assms(2,3) looked [of "WorkerFound envs k (lookup_clients t (gi_core s)) t ts"] by auto
  next
    case (WorkerFound envs k cs t ts)
    obtain b sl where cs: "cs = (b, sl)" by (cases cs)
    show ?thesis
      using assms(2,3) WorkerFound cs typed sent [of t "WorkerBuyerTold envs k sl t ts" "b \<noteq> -1" "envs (2 * k)" b]
      by auto
  next
    case (WorkerBuyerTold envs k sl t ts)
    show ?thesis
      using assms(2,3) WorkerBuyerTold typed
        sent [of t "callbacks_pc envs (Suc k) ts" "sl \<noteq> -1" "envs (2 * k + 1)" sl] subset_insertI [of "set ts" t]
      by auto
  qed (use assms(2,3) in auto)
qed

lemma threads_step_inv:
  assumes "threads_inv N srt inet e0 s" and "move_ok m" and "threads_step N srt inet m s = Some r"
  shows "\<exists>s'. r = Inr s' \<and> threads_inv N srt inet e0 s'"
proof (cases m)
  case (Connect env c)
  then show ?thesis
    using assms(3) threads_inv_core [OF assms(1), of _ "gi_worker s"]
    by (auto simp: register_client_def split: if_splits)
next
  case (Leave env c)
  then show ?thesis
    using assms(3) threads_inv_core [OF assms(1), of _ "gi_worker s"]
    by (auto simp: unregister_client_def split: if_splits)
next
  case (Receive env c data n)
  then show ?thesis
    using receive_inv [OF assms(1)] assms(2,3) by blast
next
  case (PopAndMatch envs d)
  then show ?thesis
    using pop_and_match_inv [OF assms(1)] assms(3) by blast
next
  case (Submit c)
  then show ?thesis
    using handler_move_inv [OF assms(1)] assms(3) by (auto split: if_splits)
next
  case (Answer c)
  then show ?thesis
    using handler_move_inv [OF assms(1)] assms(3) by (auto split: if_splits)
qed (use assms(3) notify_inv [OF assms(1)] in blast)+

lemma threads_run_inv:
  assumes "threads_inv N srt inet e0 s" and "\<forall>m\<in>set ms. move_ok m"
    and "threads_run N srt inet ms s = Some r"
  shows "\<exists>s'. r = Inr s' \<and> threads_inv N srt inet e0 s'"
  using assms
proof (induction ms arbitrary: s)
  case Nil
  then show ?case by auto
next
  case (Cons m ms)
  obtain r1 where r1: "threads_step N srt inet m s = Some r1"
    using Cons.prems(3) by (auto split: option.splits)
  then obtain s1 where "r1 = Inr s1" "threads_inv N srt inet e0 s1"
    using threads_step_inv [OF Cons.prems(1)] Cons.prems(2) by (metis list.set_intros(1))
  then show ?case
    using Cons.IH [of s1] Cons.prems(2,3) r1 by (simp del: threads_step.simps)
qed

section \<open>Owners\<close>

text \<open>
  As long as nobody disconnects, every order that can trade has a known owner: the handler notes
  the owner before the engine sees the order.
\<close>

fun keeps_owners :: "thread_move \<Rightarrow> bool" where
  "keeps_owners (Leave env c) \<longleftrightarrow> False"
| "keeps_owners (Receive env c data n) \<longleftrightarrow> c \<noteq> -1"
| "keeps_owners m \<longleftrightarrow> True"

fun clients_found :: "worker_pc \<Rightarrow> bool" where
  "clients_found (WorkerFound envs k (buyer_fd, seller_fd) t ts) \<longleftrightarrow> buyer_fd \<noteq> -1 \<and> seller_fd \<noteq> -1"
| "clients_found (WorkerBuyerTold envs k seller_fd t ts) \<longleftrightarrow> seller_fd \<noteq> -1"
| "clients_found pc \<longleftrightarrow> True"

definition parties_in :: "u64 set \<Rightarrow> Trade list \<Rightarrow> bool" where
  "parties_in A ts \<longleftrightarrow> (\<forall>t\<in>set ts. tr_buy_order_id t \<in> A \<and> tr_sell_order_id t \<in> A)"

definition engine_ids_in :: "u64 set \<Rightarrow> MatchingEngine \<Rightarrow> bool" where
  "engine_ids_in A e \<longleftrightarrow>
     books_all (\<lambda>x. ord_id x \<in> A) (me_order_books e) \<and>
     (\<forall>cmd\<in>set (pending e). ord_command cmd = ADD \<longrightarrow> ord_id cmd \<in> A)"

fun submits_in :: "u64 set \<Rightarrow> handler_pc \<Rightarrow> bool" where
  "submits_in A (HandlerSubmit env (ReqNew order)) \<longleftrightarrow> no_order_id order \<in> A"
| "submits_in A pc \<longleftrightarrow> True"

definition owners_inv :: "gateway_threads \<Rightarrow> bool" where
  "owners_inv s \<longleftrightarrow>
     (let owners = gc_order_to_client (gi_core s) in
      (\<forall>i. owners i \<noteq> Some (-1)) \<and>
      engine_ids_in (dom owners) (gc_matching_engine (gi_core s)) \<and>
      (\<forall>c. submits_in (dom owners) (gi_handler s c)) \<and>
      parties_in (dom owners) (worker_trades (gi_worker s)) \<and> clients_found (gi_worker s))"

lemma owners_invD:
  assumes "owners_inv s"
  shows "gc_order_to_client (gi_core s) i \<noteq> Some (-1)"
    and "engine_ids_in (dom (gc_order_to_client (gi_core s))) (gc_matching_engine (gi_core s))"
    and "submits_in (dom (gc_order_to_client (gi_core s))) (gi_handler s c)"
    and "parties_in (dom (gc_order_to_client (gi_core s))) (worker_trades (gi_worker s))"
    and "clients_found (gi_worker s)"
  using assms unfolding owners_inv_def Let_def by blast+

lemma engine_ids_mono: "engine_ids_in A e \<Longrightarrow> A \<subseteq> B \<Longrightarrow> engine_ids_in B e"
  unfolding engine_ids_in_def books_all_def by blast

lemma submits_mono: "submits_in A pc \<Longrightarrow> A \<subseteq> B \<Longrightarrow> submits_in B pc"
  by (induction A pc rule: submits_in.induct) auto

lemma parties_mono: "parties_in A ts \<Longrightarrow> A \<subseteq> B \<Longrightarrow> parties_in B ts"
  unfolding parties_in_def by blast

context order_sorting
begin

lemma engine_moves_ids:
  assumes "engine_moves N srt e reqs e' ts" and "engine_ids_in A e"
    and "\<forall>cmd\<in>set reqs. ord_command cmd = ADD \<longrightarrow> ord_id cmd \<in> A"
  shows "engine_ids_in A e'" and "parties_in A ts"
proof -
  obtain applied where a: "pending e @ take (N - 1 - pushes_used e) reqs = applied @ pending e'"
      "apply_commands srt applied (me_order_books e) (me_order_id_to_symbol e) =
         Inr (me_order_books e', me_order_id_to_symbol e', ts)"
    using assms(1) unfolding engine_moves_def by blast
  have "\<forall>cmd\<in>set (pending e @ take (N - 1 - pushes_used e) reqs). ord_command cmd = ADD \<longrightarrow> ord_id cmd \<in> A"
    using assms(2,3) by (auto simp: engine_ids_in_def dest: in_set_takeD)
  then have cmds: "\<forall>cmd\<in>set (applied @ pending e'). ord_command cmd = ADD \<longrightarrow> ord_id cmd \<in> A"
    unfolding a(1) .
  then have "books_all (\<lambda>x. ord_id x \<in> A) (me_order_books e') \<and>
      (\<forall>t\<in>set ts. \<exists>(b :: Order) (a :: Order). ord_id b \<in> A \<and> ord_id a \<in> A \<and> tr_buy_order_id t = ord_id b \<and>
         tr_sell_order_id t = ord_id a)"
    using apply_commands_all [OF listing_ids [of A] _ _ a(2)] assms(2) by (simp add: engine_ids_in_def)
  then show "engine_ids_in A e'" and "parties_in A ts"
    using cmds by (auto simp: engine_ids_in_def parties_in_def)
qed

lemma submit_owners:
  assumes "threads_inv N srt inet e0 s" and "owners_inv s" and "gi_handler s c = HandlerSubmit env q"
  shows "\<exists>s'. handler_move N c s = Some (Inr s') \<and> owners_inv s'"
proof -
  note d = threads_invD [OF assms(1)] and o = owners_invD [OF assms(2)]
  let ?A = "dom (gc_order_to_client (gi_core s))" and ?e = "gc_matching_engine (gi_core s)"
  have safe: "request_safe q"
    using d(4) assms(3) by blast
  then obtain e where e: "engine_step N srt inet (request_event env q) ?e = Inr (e, [])"
      "submit_request N env q (gi_core s) =
         Inr (told_accepted N env q (gi_core s), told_reason N env q (gi_core s),
              (gi_core s)\<lparr>gc_matching_engine := e\<rparr>)"
    using submit_request_spec [OF core_okD(1) [OF d(1)], of q srt inet env] by (auto simp: request_safe_def)
  obtain ts where m: "engine_moves N srt ?e (request_of (request_event env q)) e ts"
    using engine_step_moves [OF core_okD [OF d(1)], of srt inet "request_event env q"] e(1) by auto
  have "\<forall>cmd\<in>set (request_of (request_event env q)). ord_command cmd = ADD \<longrightarrow> ord_id cmd \<in> ?A"
    using o(3) [of c] assms(3) by (cases q) (auto simp: Order_make_def split: if_splits)
  then have "engine_ids_in ?A e"
    by (rule engine_moves_ids(1) [OF m o(2)])
  then show ?thesis
    using assms(3) e(2) o(1,3-5) by (auto simp: handler_move_def owners_inv_def Let_def)
qed

lemma pop_owners:
  assumes "threads_inv N srt inet e0 s" and "owners_inv s"
    and "threads_step N srt inet (PopAndMatch envs d) s = Some (Inr s')"
  shows "owners_inv s'"
proof -
  note i = threads_invD [OF assms(1)] and o = owners_invD [OF assms(2)]
  let ?A = "dom (gc_order_to_client (gi_core s))" and ?e = "gc_matching_engine (gi_core s)"
  obtain e ts where w: "engine_step N srt inet (WorkerTurn d) ?e = Inr (e, if me_trade_callback ?e then ts else [])"
      "engine_moves N srt ?e [] e ts"
    using worker_turn [OF core_okD [OF i(1)], of srt inet d] by blast
  then obtain turn where turn: "process_orders N srt inet [d] ?e = Inr turn" "it_engine turn = e"
      "it_callbacks turn = (if me_trade_callback ?e then ts else [])"
    by (auto simp: map_sum_id_eq_Inr simp del: process_orders.simps)
  have "engine_ids_in ?A e" "parties_in ?A (it_callbacks turn)"
    using engine_moves_ids [OF w(2) o(2)] by (simp_all add: turn(3) parties_in_def)
  moreover have "clients_found (callbacks_pc envs 0 ts')" for ts'
    by (cases ts') simp_all
  moreover have "s' = s\<lparr>gi_core := (gi_core s)\<lparr>gc_matching_engine := e\<rparr>,
      gi_worker := callbacks_pc envs 0 (it_callbacks turn), gi_events := gi_events s @ [WorkerTurn d]\<rparr>"
    using assms(3) turn(1,2) by (auto simp del: process_orders.simps split: worker_pc.splits)
  ultimately show ?thesis
    using o(1,3) by (simp add: owners_inv_def Let_def)
qed

end

lemma owners_inv_local:
  assumes "owners_inv s" and "gc_matching_engine g = gc_matching_engine (gi_core s)"
    and "gc_order_to_client g = gc_order_to_client (gi_core s)"
    and "\<And>c. submits_in (dom (gc_order_to_client (gi_core s))) (h c)"
    and "set (worker_trades w) \<subseteq> set (worker_trades (gi_worker s))" and "clients_found w"
  shows "owners_inv (s\<lparr>gi_core := g, gi_handler := h, gi_worker := w\<rparr>)"
  using owners_invD [OF assms(1)] assms(2-6)
  by (auto simp: owners_inv_def Let_def parties_in_def)

lemma receive_owners:
  assumes "threads_inv N srt inet e0 s" and "owners_inv s" and "move_ok (Receive env c data n)"
    and "c \<noteq> -1" and "threads_step N srt inet (Receive env c data n) s = Some (Inr s')"
  shows "owners_inv s'"
proof (cases "n < sizeof_MessageHeader \<or> request_in data = None")
  case True
  then show ?thesis
    using assms decode_request [of data n] by (auto split: if_splits)
next
  case False
  then obtain q where q: "\<not> n < sizeof_MessageHeader" "request_in data = Some q"
    by auto
  note o = owners_invD [OF assms(2)]
  let ?owners = "note_owner q c (gc_order_to_client (gi_core s))"
  have sub: "dom (gc_order_to_client (gi_core s)) \<subseteq> dom ?owners"
    by (cases q) auto
  have "begin_request c q (gi_core s) = Inr ((gi_core s)\<lparr>gc_order_to_client := ?owners\<rparr>)"
    using request_in_safe [OF _ q] assms(3) by (intro begin_request_safe) (simp add: request_safe_def)
  then have s': "s' = s\<lparr>gi_core := (gi_core s)\<lparr>gc_order_to_client := ?owners\<rparr>,
      gi_handler := (gi_handler s)(c := HandlerSubmit env q)\<rparr>"
    using assms(3,5) q decode_request [of data n] by (auto split: if_splits)
  have "submits_in (dom ?owners) (HandlerSubmit env q)"
    by (cases q) auto
  moreover have "?owners i \<noteq> Some (-1)" for i
    using o(1) assms(4) by (cases q) auto
  ultimately show ?thesis
    using o(5) engine_ids_mono [OF o(2) sub] submits_mono [OF o(3) sub] parties_mono [OF o(4) sub]
    by (simp add: s' owners_inv_def Let_def)
qed

lemma lookup_found:
  assumes "owners_inv s" and "gi_worker s = WorkerCallback envs k t ts"
  shows "lookup_clients t (gi_core s) = (b, sl) \<Longrightarrow> b \<noteq> -1 \<and> sl \<noteq> -1"
  using owners_invD(1,4) [OF assms(1)] assms(2)
  by (auto simp: lookup_clients_def client_of_def parties_in_def dom_def)

lemma notify_owners:
  assumes "threads_inv N srt inet e0 s" and "owners_inv s" and "m \<in> {LookupClients, NotifyBuyer, NotifySeller}"
    and "threads_step N srt inet m s = Some (Inr s')"
  shows "owners_inv s'"
proof -
  have loc: "owners_inv (s\<lparr>gi_core := g, gi_worker := w\<rparr>)"
    if "gc_matching_engine g = gc_matching_engine (gi_core s)"
      "gc_order_to_client g = gc_order_to_client (gi_core s)"
      "set (worker_trades w) \<subseteq> set (worker_trades (gi_worker s))" "clients_found w" for g w
    using owners_inv_local [OF assms(2) that(1,2) _ that(3,4), of "gi_handler s"]
      owners_invD(3) [OF assms(2)] by simp
  have typed: "\<forall>t\<in>set (worker_trades (gi_worker s)). length (tr_symbol t) = 8"
    by (rule threads_invD(5) [OF assms(1)])
  show ?thesis
  proof (cases "gi_worker s")
    case (WorkerCallback envs k t ts)
    obtain b sl where cs: "lookup_clients t (gi_core s) = (b, sl)" by fastforce
    then show ?thesis
      using lookup_found [OF assms(2) WorkerCallback cs] assms(3,4) WorkerCallback
        loc [of "gi_core s" "WorkerFound envs k (b, sl) t ts"] by auto
  next
    case (WorkerFound envs k cs t ts)
    obtain b sl where cs: "cs = (b, sl)" by (cases cs)
    then have "b \<noteq> -1" "sl \<noteq> -1"
      using owners_invD(5) [OF assms(2)] WorkerFound by simp_all
    then show ?thesis
      using assms(3,4) WorkerFound cs typed loc [of _ "WorkerBuyerTold envs k sl t ts"]
      by (auto simp: send_trade_notification_eq)
  next
    case (WorkerBuyerTold envs k sl t ts)
    have "sl \<noteq> -1"
      using owners_invD(5) [OF assms(2)] WorkerBuyerTold by simp
    moreover have "clients_found (callbacks_pc envs (Suc k) ts)"
      by (cases ts) simp_all
    ultimately show ?thesis
      using assms(3,4) WorkerBuyerTold typed loc [of _ "callbacks_pc envs (Suc k) ts"] subset_insertI [of "set ts" t]
      by (auto simp: send_trade_notification_eq)
  qed (use assms(3,4) in auto)
qed

lemma answer_owners:
  assumes "owners_inv s" and "handler_move N c s = Some (Inr s')" and "\<not> is_submit (gi_handler s c)"
  shows "owners_inv s'"
proof (cases "gi_handler s c")
  case (HandlerAnswer env i ok reason)
  have "owners_inv (s\<lparr>gi_core := (gi_core s)\<lparr>gc_sent := l\<rparr>, gi_handler := (gi_handler s)(c := HandlerIdle),
      gi_worker := gi_worker s\<rparr>)" for l
    using owners_invD [OF assms(1)] by (intro owners_inv_local [OF assms(1)]) auto
  then show ?thesis
    using assms(2) HandlerAnswer by (auto simp: handler_move_def send_order_ack_eq)
qed (use assms in \<open>auto simp: handler_move_def\<close>)

context order_sorting
begin

lemma threads_step_owners:
  assumes "threads_inv N srt inet e0 s" and "owners_inv s" and "move_ok m" and "keeps_owners m"
    and "threads_step N srt inet m s = Some (Inr s')"
  shows "owners_inv s'"
proof (cases m)
  case (Connect env c)
  have "owners_inv (s\<lparr>gi_core := (gi_core s)\<lparr>gc_client_sessions := l\<rparr>, gi_handler := gi_handler s,
      gi_worker := gi_worker s\<rparr>)" for l
    using owners_invD [OF assms(2)] by (intro owners_inv_local [OF assms(2)]) auto
  then show ?thesis
    using Connect assms(5) by (auto simp: register_client_def split: if_splits)
next
  case (Receive env c data n)
  then show ?thesis
    using receive_owners [OF assms(1,2)] assms(3-5) by simp
next
  case (Submit c)
  then obtain env q where h: "gi_handler s c = HandlerSubmit env q" "handler_move N c s = Some (Inr s')"
    using assms(5) by (cases "gi_handler s c") (auto split: if_splits)
  then show ?thesis
    using submit_owners [OF assms(1,2) h(1)] by auto
next
  case (Answer c)
  then show ?thesis
    using answer_owners [OF assms(2)] assms(5) by (auto split: if_splits)
next
  case (PopAndMatch envs d)
  then show ?thesis
    using pop_owners [OF assms(1,2)] assms(5) by blast
qed (use assms(4,5) notify_owners [OF assms(1,2)] in \<open>simp; blast\<close>)+

lemma threads_run_owners:
  assumes "threads_inv N srt inet e0 s" and "owners_inv s" and "\<forall>m\<in>set ms. move_ok m \<and> keeps_owners m"
    and "threads_run N srt inet ms s = Some (Inr s')"
  shows "owners_inv s'"
  using assms
proof (induction ms arbitrary: s)
  case Nil
  then show ?case by simp
next
  case (Cons m ms)
  obtain r1 where r1: "threads_step N srt inet m s = Some r1"
    using Cons.prems(4) by (auto split: option.splits)
  then obtain s1 where s1: "r1 = Inr s1" "threads_inv N srt inet e0 s1"
    using threads_step_inv [OF Cons.prems(1)] Cons.prems(3) by (metis list.set_intros(1))
  have "owners_inv s1"
    using threads_step_owners [OF Cons.prems(1,2) _ _ r1 [unfolded s1(1)]] Cons.prems(3) by simp
  then show ?case
    using Cons.IH [OF s1(2)] Cons.prems(3,4) r1 s1(1) by (simp del: threads_step.simps)
qed

end

section \<open>Results\<close>

text \<open>Two orders that cross, as requests and as received buffers.\<close>

definition sample_side :: "u64 \<Rightarrow> byte \<Rightarrow> request" where
  "sample_side i side = ReqNew \<lparr>no_order_id = i, no_price = 100, no_quantity = 5,
     no_symbol = [65, 0, 0, 0, 0, 0, 0, 0], no_side = side\<rparr>"

definition side_buffer :: "u64 \<Rightarrow> byte \<Rightarrow> bytes" where
  "side_buffer i side = padded (request_frame 5 (sample_side i side))"

lemma sample_side_events:
  "request_event sample_env (sample_side 2 83) = AddRequest False (sample_ask 2 100 5)"
  "request_event sample_env (sample_side 1 66) = AddRequest False (sample_bid 1 100 5)"
  by (simp_all add: sample_side_def sample_ask_def sample_bid_def sample_env_def)

lemma sample_side_engine:
  "case engine_run 3 insertion_sort (\<lambda>_. None)
       [AddRequest False (sample_ask 2 100 5), WorkerTurn 1, AddRequest False (sample_bid 1 100 5)]
       (started_engine 3 4) of
     Inl _ \<Rightarrow> False
   | Inr (e, ts) \<Rightarrow> ts = [] \<and> (case engine_step 3 insertion_sort (\<lambda>_. None) (WorkerTurn 1) e of
       Inl _ \<Rightarrow> False
     | Inr (e', ts') \<Rightarrow> map (\<lambda>t. (tr_buy_order_id t, tr_sell_order_id t)) ts' = [(1, 2)])"
  by code_simp

lemma length_side_buffer: "length (side_buffer i side) = buffer_size"
  by (simp add: side_buffer_def padded_def length_request_frame sample_side_def sizeof_defs buffer_size_def)

lemma side_buffer_request:
  "request_in (side_buffer i side) = Some (sample_side i side)" "well_framed (side_buffer i side) 50"
proof -
  have wf: "request_wf (sample_side i side)"
    by (simp add: sample_side_def)
  show r: "request_in (side_buffer i side) = Some (sample_side i side)"
    unfolding side_buffer_def padded_def by (rule request_in_frame [OF wf])
  show "well_framed (side_buffer i side) 50"
    using request_frame_in_bounds [OF wf] r request_wf_terminated [OF wf]
    by (simp add: well_framed_def side_buffer_def padded_def)
qed

lemma decode_side_buffer: "decode_message (side_buffer i side) 50 = Inr (Some (sample_side i side))"
  using decode_request [OF length_side_buffer side_buffer_request(2)]
  by (simp add: side_buffer_request sizeof_defs)

lemma engine_step_worker:
  "engine_step N srt inet (WorkerTurn d) e = Inr (e', ts) \<Longrightarrow>
   \<exists>turn. process_orders N srt inet [d] e = Inr turn \<and> it_engine turn = e' \<and> it_callbacks turn = ts"
  by (auto simp: map_sum_id_eq_Inr simp del: process_orders.simps)

lemma sample_side_steps:
  obtains e1 e2 e3 e4 t where
    "engine_step 3 insertion_sort (\<lambda>_. None) (request_event sample_env (sample_side 2 83)) (started_engine 3 4) = Inr (e1, [])"
    "engine_step 3 insertion_sort (\<lambda>_. None) (WorkerTurn 1) e1 = Inr (e2, [])"
    "engine_step 3 insertion_sort (\<lambda>_. None) (request_event sample_env (sample_side 1 66)) e2 = Inr (e3, [])"
    "engine_step 3 insertion_sort (\<lambda>_. None) (WorkerTurn 1) e3 = Inr (e4, [t])"
    "tr_buy_order_id t = 1" "tr_sell_order_id t = 2" "engine_inv 3 e2" "length (tr_symbol t) = 8"
proof -
  let ?step = "engine_step 3 insertion_sort (\<lambda>_. None)"
  obtain e1 e2 e3 e4 ts1 ts2 ts3 ts4 where s:
    "?step (request_event sample_env (sample_side 2 83)) (started_engine 3 4) = Inr (e1, ts1)"
    "?step (WorkerTurn 1) e1 = Inr (e2, ts2)"
    "?step (request_event sample_env (sample_side 1 66)) e2 = Inr (e3, ts3)"
    "ts1 = []" "ts2 = []" "ts3 = []" "?step (WorkerTurn 1) e3 = Inr (e4, ts4)"
    "map (\<lambda>t. (tr_buy_order_id t, tr_sell_order_id t)) ts4 = [(1, 2)]"
    using sample_side_engine unfolding sample_side_events
    by (auto simp del: engine_step.simps split: sum.splits prod.splits)
  then obtain t where t: "ts4 = [t]" "tr_buy_order_id t = 1" "tr_sell_order_id t = 2"
    by auto
  have ok: "symbol_ok (sample_ask 2 100 5)" "symbol_ok (sample_bid 1 100 5)"
    by (simp_all add: symbol_ok_def sample_bid_def sample_ask_def Order_make_def zero_in_strncpy)
  let ?evs = "[AddRequest False (sample_ask 2 100 5), WorkerTurn 1]"
  have "engine_run 3 insertion_sort (\<lambda>_. None) ?evs (started_engine 3 4) = Inr (e2, [])"
    using s(1,2,4,5) unfolding sample_side_events by (simp del: engine_step.simps)
  then obtain ts where m: "engine_moves 3 insertion_sort (started_engine 3 4) (concat (map request_of ?evs)) e2 ts"
    using engine_run_moves [OF started_engine(1), of 3 4 ?evs insertion_sort "\<lambda>_. None"] ok
    by (auto simp: started_engine)
  have e2: "engine_inv 3 e2" "\<forall>cmd\<in>set (pending e2). symbol_ok cmd"
    using m engine_moves_pending [OF m] ok by (auto simp: engine_moves_def started_engine)
  obtain ts' where m': "engine_moves 3 insertion_sort e2 [sample_bid 1 100 5] e3 ts'"
    using engine_step_moves [OF e2, of insertion_sort "\<lambda>_. None" "AddRequest False (sample_bid 1 100 5)"] s(3)
    unfolding sample_side_events by auto
  then have c: "core_ok 3 ((started_core 3 4)\<lparr>gc_matching_engine := e3\<rparr>)"
    using engine_moves_pending [OF m'] e2(2) ok by (auto simp: core_ok_def engine_moves_def)
  have "length (tr_symbol t) = 8"
    using gateway_worker_spec [OF core_okD [OF c], of insertion_sort "\<lambda>_. None" 1] s(7) t(1)
    by (auto simp del: engine_step.simps)
  then show thesis
    using that s t e2(1) by blast
qed

definition overtaking :: "thread_move list" where
  "overtaking =
     [Receive sample_env 7 (side_buffer 2 83) 50, Submit 7, Answer 7, PopAndMatch (\<lambda>_. sample_env) 1,
      Receive sample_env 8 (side_buffer 1 66) 50, Submit 8, PopAndMatch (\<lambda>_. sample_env) 1,
      LookupClients, NotifyBuyer, NotifySeller]"

lemma overtaking_prefix:
  "\<exists>s t. threads_run 3 insertion_sort (\<lambda>_. None) (take 7 overtaking)
           (threads_new ((started_core 3 4)\<lparr>gc_client_sessions := S\<rparr>)) = Some (Inr s) \<and>
     gi_worker s = WorkerCallback (\<lambda>_. sample_env) 0 t [] \<and>
     tr_buy_order_id t = 1 \<and> tr_sell_order_id t = 2 \<and> length (tr_symbol t) = 8 \<and>
     gc_sent (gi_core s) = [(7, ack_frame sample_env 2 True [])] \<and>
     gc_order_to_client (gi_core s) = [2 \<mapsto> 7, 1 \<mapsto> 8] \<and>
     gi_handler s 8 = HandlerAnswer sample_env 1 True []"
proof -
  let ?step = "engine_step 3 insertion_sort (\<lambda>_. None)"
  obtain e1 e2 e3 e4 t where e:
    "?step (request_event sample_env (sample_side 2 83)) (started_engine 3 4) = Inr (e1, [])"
    "?step (WorkerTurn 1) e1 = Inr (e2, [])"
    "?step (request_event sample_env (sample_side 1 66)) e2 = Inr (e3, [])"
    "?step (WorkerTurn 1) e3 = Inr (e4, [t])"
    "tr_buy_order_id t = 1" "tr_sell_order_id t = 2" "engine_inv 3 e2" "length (tr_symbol t) = 8"
    by (rule sample_side_steps)
  obtain turn1 turn2 where w:
    "process_orders 3 insertion_sort (\<lambda>_. None) [1] e1 = Inr turn1" "it_engine turn1 = e2" "it_callbacks turn1 = []"
    "process_orders 3 insertion_sort (\<lambda>_. None) [1] e3 = Inr turn2" "it_engine turn2 = e4" "it_callbacks turn2 = [t]"
    using engine_step_worker [OF e(2)] engine_step_worker [OF e(4)] by blast
  have side: "request_terminated (sample_side i side)" "request_id (sample_side i side) = i"
      "note_owner (sample_side i side) c owners = owners(i \<mapsto> c)"
      "told_accepted N sample_env (sample_side i side) g" "told_reason N sample_env (sample_side i side) g = []"
    for i side c owners N g
    by (simp_all add: sample_side_def sample_env_def)
  have sub: "submit_request 3 sample_env (sample_side 2 83) g = Inr (True, [], g\<lparr>gc_matching_engine := e1\<rparr>)"
    if "gc_matching_engine g = started_engine 3 4" for g
    using submit_request_spec [of 3 g "sample_side 2 83" insertion_sort "\<lambda>_. None" sample_env] that e(1)
      started_engine(1) [of 3 4] by (auto simp: side simp del: engine_step.simps submit_request.simps)
  have sub': "submit_request 3 sample_env (sample_side 1 66) g = Inr (True, [], g\<lparr>gc_matching_engine := e3\<rparr>)"
    if "gc_matching_engine g = e2" for g
    using submit_request_spec [of 3 g "sample_side 1 66" insertion_sort "\<lambda>_. None" sample_env] that e(3,7)
    by (auto simp: side simp del: engine_step.simps submit_request.simps)
  show ?thesis
    using e(5,6,8) w
    by (auto simp: overtaking_def threads_new_def started_core_def decode_side_buffer begin_request_safe side
        handler_move_def sub sub' send_order_ack_eq
        simp del: process_orders.simps submit_request.simps begin_request.simps)
qed

lemma threads_run_append:
  "threads_run N srt inet (ms @ ms') s =
     (case threads_run N srt inet ms s of
        None \<Rightarrow> None | Some (Inl f) \<Rightarrow> Some (Inl f) | Some (Inr s') \<Rightarrow> threads_run N srt inet ms' s')"
  by (induction ms arbitrary: s) (auto split: option.split sum.split simp del: threads_step.simps)

lemma overtaking_runs:
  "\<exists>s t. threads_run 3 insertion_sort (\<lambda>_. None) overtaking (threads_new (started_core 3 4)) = Some (Inr s) \<and>
     tr_buy_order_id t = 1 \<and>
     gc_sent (gi_core s) = [(7, ack_frame sample_env 2 True []), (8, trade_frame sample_env t),
                            (7, trade_frame sample_env t)] \<and>
     gi_handler s 8 = HandlerAnswer sample_env 1 True []"
proof -
  have none: "(started_core 3 4)\<lparr>gc_client_sessions := Map.empty\<rparr> = started_core 3 4"
    by (simp add: started_core_def)
  obtain s t where s: "threads_run 3 insertion_sort (\<lambda>_. None) (take 7 overtaking) (threads_new (started_core 3 4)) =
      Some (Inr s)"
    "gi_worker s = WorkerCallback (\<lambda>_. sample_env) 0 t []" "tr_buy_order_id t = 1" "tr_sell_order_id t = 2"
    "length (tr_symbol t) = 8" "gc_sent (gi_core s) = [(7, ack_frame sample_env 2 True [])]"
    "gc_order_to_client (gi_core s) = [2 \<mapsto> 7, 1 \<mapsto> 8]" "gi_handler s 8 = HandlerAnswer sample_env 1 True []"
    using overtaking_prefix [of Map.empty] unfolding none by blast
  have o: "overtaking = take 7 overtaking @ [LookupClients, NotifyBuyer, NotifySeller]"
    by (simp add: overtaking_def)
  have "threads_run 3 insertion_sort (\<lambda>_. None) overtaking (threads_new (started_core 3 4)) =
      threads_run 3 insertion_sort (\<lambda>_. None) [LookupClients, NotifyBuyer, NotifySeller] s"
    by (subst o, subst threads_run_append) (simp only: s(1) option.case sum.case)
  then show ?thesis
    using s(2-) by (auto simp: lookup_clients_def client_of_def send_trade_notification_eq)
qed

text \<open>C33: a client can be told of a trade before its order is acknowledged. The seller's
  order rests in the book; then the buyer's order is handed to the engine and, before its handler has answered, the worker matches it and notifies both. The answer comes after.\<close>

theorem trade_overtakes_ack:
  "\<exists>s t. threads_run 3 insertion_sort (\<lambda>_. None) overtaking (threads_new (started_core 3 4)) = Some (Inr s) \<and>
     tr_buy_order_id t = 1 \<and>
     gc_sent (gi_core s) = [(7, ack_frame sample_env 2 True []), (8, trade_frame sample_env t),
                            (7, trade_frame sample_env t)] \<and>
     gi_handler s 8 = HandlerAnswer sample_env 1 True []"
  by (rule overtaking_runs)

text \<open>C1: the gateway refines sequential matching in every interleaving of its threads. Let the handlers of
  all connections and the worker take their steps in any order, the received buffers being well
  framed: there is no undefined behaviour; the requests that are ever queued are the first \<open>N - 1\<close>
  handed to the engine, in the order of these calls; and the books and the identifier index are
  those of applying a prefix of them one by one, the rest still pending.\<close>

theorem interleaved_refines_sequential:
  assumes "0 < N" and "\<forall>m\<in>set ms. move_ok m"
    and "threads_run N srt inet ms (threads_new (started_core N k)) = Some r"
  shows "\<exists>s trades applied.
           r = Inr s \<and>
           take (N - 1) (concat (map request_of (gi_events s))) =
             applied @ pending (gc_matching_engine (gi_core s)) \<and>
           apply_commands srt applied Map.empty Map.empty =
             Inr (me_order_books (gc_matching_engine (gi_core s)),
                  me_order_id_to_symbol (gc_matching_engine (gi_core s)), trades)"
proof -
  have e: "gc_matching_engine (started_core N k) = started_engine N k"
    by (simp add: started_core_def)
  obtain s where s: "r = Inr s" "threads_inv N srt inet (started_engine N k) s"
    using threads_run_inv [OF threads_inv_new [OF started_core_ok [OF assms(1)]] assms(2,3)] e by auto
  note d = threads_invD [OF s(2)]
  then obtain ts where "engine_run N srt inet (gi_events s) (started_engine N k) =
      Inr (gc_matching_engine (gi_core s), ts)"
    by blast
  then show ?thesis
    using engine_run_moves [OF started_engine(1) [OF assms(1)], of k "gi_events s" srt inet] d(3) s(1)
    by (auto simp: started_engine engine_moves_def)
qed

lemma overtaking_ok: "\<forall>m\<in>set overtaking. move_ok m \<and> keeps_owners m"
  by (simp add: overtaking_def length_side_buffer side_buffer_request)

theorem interleaved_refines_sequential_witness:
  "\<exists>s applied. threads_run 3 insertion_sort (\<lambda>_. None) overtaking (threads_new (started_core 3 4)) = Some (Inr s) \<and>
     take 2 (concat (map request_of (gi_events s))) = applied @ pending (gc_matching_engine (gi_core s))"
proof -
  obtain s where s: "threads_run 3 insertion_sort (\<lambda>_. None) overtaking (threads_new (started_core 3 4)) = Some (Inr s)"
    using overtaking_runs by blast
  then show ?thesis
    using interleaved_refines_sequential [OF _ _ s] overtaking_ok by auto
qed

text \<open>C20: every trade finds both its parties as long as no client disconnects, in every interleaving:
  whenever the worker is about to report a trade, the buying and the selling order have a noted
  owner, and once it has looked them up both will be sent to. The owner is noted before the
  engine is given the order, so the worker cannot be too early.\<close>

theorem trade_parties_known:
  assumes "0 < N" and "std_sort srt" and "\<forall>m\<in>set ms. move_ok m \<and> keeps_owners m"
    and "threads_run N srt inet ms (threads_new (started_core N k)) = Some (Inr s)"
  shows "(\<forall>t\<in>set (worker_trades (gi_worker s)).
            tr_buy_order_id t \<in> dom (gc_order_to_client (gi_core s)) \<and>
            tr_sell_order_id t \<in> dom (gc_order_to_client (gi_core s))) \<and>
         (\<forall>envs j buyer_fd seller_fd t ts. gi_worker s = WorkerFound envs j (buyer_fd, seller_fd) t ts \<longrightarrow>
            buyer_fd \<noteq> -1 \<and> seller_fd \<noteq> -1)"
proof -
  have new: "owners_inv (threads_new (started_core N k))"
    by (simp add: owners_inv_def threads_new_def started_core_def engine_ids_in_def parties_in_def started_engine)
  have "owners_inv s"
    using order_sorting.threads_run_owners [OF order_sorting.intro [OF assms(2)]
        threads_inv_new [OF started_core_ok [OF assms(1)]] new assms(3,4)] .
  then show ?thesis
    using owners_invD(4,5) [of s] by (auto simp: parties_in_def)
qed

text \<open>Uninterrupted, the steps are the handlers. The three steps of the handler of a message that holds a
  request, one after the other, are \<open>on_message\<close>, and a worker's turn that does not fault, followed by the
  steps of all its callbacks, is \<open>gateway_worker\<close>.\<close>

theorem steps_uninterrupted:
  assumes "decode_message data n = Inr (Some q)" and "gi_handler s c = HandlerIdle"
    and "gi_worker s = WorkerReady"
    and "process_orders N srt inet [d] (gc_matching_engine (gi_core s)) = Inr turn"
  shows "threads_run N srt inet [Receive env c data n, Submit c, Answer c] s =
           Some (map_sum id (\<lambda>g. s\<lparr>gi_core := g, gi_events := gi_events s @ [request_event env q]\<rparr>)
                  (on_message N env c data n (gi_core s))) \<and>
         threads_run N srt inet
             (PopAndMatch envs d #
              concat (replicate (length (it_callbacks turn)) [LookupClients, NotifyBuyer, NotifySeller])) s =
           Some (map_sum id (\<lambda>g. s\<lparr>gi_core := g, gi_events := gi_events s @ [WorkerTurn d]\<rparr>)
                  (gateway_worker N srt inet envs d (gi_core s)))"
proof
  show "threads_run N srt inet [Receive env c data n, Submit c, Answer c] s =
      Some (map_sum id (\<lambda>g. s\<lparr>gi_core := g, gi_events := gi_events s @ [request_event env q]\<rparr>)
             (on_message N env c data n (gi_core s)))"
    by (rule message_uninterrupted [OF assms(2,1)])
  let ?s = "s\<lparr>gi_core := (gi_core s)\<lparr>gc_matching_engine := it_engine turn\<rparr>,
     gi_worker := callbacks_pc envs 0 (it_callbacks turn), gi_events := gi_events s @ [WorkerTurn d]\<rparr>"
  have ready: "?s\<lparr>gi_core := g, gi_worker := WorkerReady\<rparr> =
      s\<lparr>gi_core := g, gi_events := gi_events s @ [WorkerTurn d]\<rparr>" for g
    using assms(3) by (cases s) simp
  have "threads_run N srt inet
      (PopAndMatch envs d #
       concat (replicate (length (it_callbacks turn)) [LookupClients, NotifyBuyer, NotifySeller])) s =
    threads_run N srt inet
      (concat (replicate (length (it_callbacks turn)) [LookupClients, NotifyBuyer, NotifySeller])) ?s"
    using assms(3,4) by (simp del: process_orders.simps)
  also have "\<dots> = Some (map_sum id (\<lambda>g. ?s\<lparr>gi_core := g, gi_worker := WorkerReady\<rparr>)
      (deliver_trades envs 0 (it_callbacks turn) (gi_core ?s)))"
    by (rule callbacks_uninterrupted) simp
  also have "\<dots> = Some (map_sum id (\<lambda>g. s\<lparr>gi_core := g, gi_events := gi_events s @ [WorkerTurn d]\<rparr>)
      (gateway_worker N srt inet envs d (gi_core s)))"
    unfolding ready using assms(4) by (simp add: gateway_worker_def del: process_orders.simps)
  finally show "threads_run N srt inet
      (PopAndMatch envs d #
       concat (replicate (length (it_callbacks turn)) [LookupClients, NotifyBuyer, NotifySeller])) s =
    Some (map_sum id (\<lambda>g. s\<lparr>gi_core := g, gi_events := gi_events s @ [WorkerTurn d]\<rparr>)
      (gateway_worker N srt inet envs d (gi_core s)))" .
qed

theorem steps_uninterrupted_witness:
  "threads_run 3 insertion_sort (\<lambda>_. None) [Receive sample_env 7 (side_buffer 2 83) 50, Submit 7, Answer 7]
     (threads_new (started_core 3 4)) =
   Some (map_sum id (\<lambda>g. (threads_new (started_core 3 4))\<lparr>gi_core := g,
                            gi_events := [request_event sample_env (sample_side 2 83)]\<rparr>)
          (on_message 3 sample_env 7 (side_buffer 2 83) 50 (started_core 3 4)))"
proof -
  obtain turn where "process_orders 3 insertion_sort (\<lambda>_. None) [1] (started_engine 3 4) = Inr turn"
    using process_orders_drains [of 3 "started_engine 3 4" "[1]" insertion_sort "\<lambda>_. None"]
    by (auto simp: started_engine simp del: process_orders.simps)
  then show ?thesis
    using steps_uninterrupted [OF decode_side_buffer, where s = "threads_new (started_core 3 4)" and c = 7
        and N = 3 and srt = insertion_sort and inet = "\<lambda>_. None" and d = 1 and turn = turn
        and i1 = 2 and side1 = 83 and env = sample_env]
    by (simp add: threads_new_def started_core_def del: process_orders.simps threads_run.simps)
qed

text \<open>
  Connections as \<^verbatim>\<open>handle_client\<close> makes them: a descriptor receives only between its connect and its
  disconnect. The argument is the set of open connections.
\<close>

fun connections_follow :: "fd set \<Rightarrow> thread_move list \<Rightarrow> bool" where
  "connections_follow A [] \<longleftrightarrow> True"
| "connections_follow A (Connect env c # ms) \<longleftrightarrow> connections_follow (insert c A) ms"
| "connections_follow A (Leave env c # ms) \<longleftrightarrow> connections_follow (A - {c}) ms"
| "connections_follow A (Receive env c data n # ms) \<longleftrightarrow> c \<in> A \<and> connections_follow A ms"
| "connections_follow A (m # ms) \<longleftrightarrow> connections_follow A ms"

definition owners_connected :: "GatewayCore \<Rightarrow> bool" where
  "owners_connected g \<longleftrightarrow> ran (gc_order_to_client g) \<subseteq> dom (gc_client_sessions g)"

lemma owners_connected_engine [simp]:
  "owners_connected (g\<lparr>gc_matching_engine := e\<rparr>) = owners_connected g"
  "owners_connected (g\<lparr>gc_sent := l\<rparr>) = owners_connected g"
  by (simp_all add: owners_connected_def)

lemma begin_request_connected:
  assumes "begin_request c r g = Inr g'" and "c \<in> dom (gc_client_sessions g)" and "owners_connected g"
  shows "owners_connected g' \<and> gc_client_sessions g' = gc_client_sessions g"
  using assms
  by (cases r) (fastforce simp: owners_connected_def ran_def split: sum.splits if_splits)+

lemma submit_request_tables:
  assumes "submit_request N env r g = Inr (accepted, reason, g')"
  shows "gc_client_sessions g' = gc_client_sessions g \<and> gc_order_to_client g' = gc_order_to_client g"
  using assms by (cases r) (auto simp: map_sum_id_eq_Inr split_sum_ex split: sum.splits)

lemma sends_tables:
  "send_order_ack env c i ok reason g = Inr g' \<Longrightarrow>
     gc_client_sessions g' = gc_client_sessions g \<and> gc_order_to_client g' = gc_order_to_client g"
  "send_trade_notification env c t g = Inr g' \<Longrightarrow>
     gc_client_sessions g' = gc_client_sessions g \<and> gc_order_to_client g' = gc_order_to_client g"
  by (auto simp: send_order_ack_eq send_trade_notification_def send_bytes_def map_sum_id_eq_Inr Let_def)

text \<open>The steps other than a connect, a receive and a disconnect leave both tables alone.\<close>

lemma threads_step_tables:
  assumes "threads_step N srt inet m s = Some (Inr s')"
    and "m \<in> {LookupClients, NotifyBuyer, NotifySeller} \<or> (\<exists>c envs d. m = Submit c \<or> m = Answer c \<or> m = PopAndMatch envs d)"
  shows "gc_client_sessions (gi_core s') = gc_client_sessions (gi_core s) \<and>
         gc_order_to_client (gi_core s') = gc_order_to_client (gi_core s)"
proof -
  have h: "gc_client_sessions (gi_core s') = gc_client_sessions (gi_core s) \<and>
      gc_order_to_client (gi_core s') = gc_order_to_client (gi_core s)"
    if "handler_move N c s = Some (Inr s')" for c
    using that submit_request_tables sends_tables(1)
    by (auto simp: handler_move_def map_sum_id_eq_Inr simp del: submit_request.simps split: handler_pc.splits)
  show ?thesis
    using assms h sends_tables(2)
    by (cases m) (auto simp: map_sum_id_eq_Inr simp del: process_orders.simps split: if_splits worker_pc.splits)
qed

lemma threads_run_connected:
  assumes "threads_run N srt inet ms s = Some (Inr s')" and "connections_follow (dom (gc_client_sessions (gi_core s))) ms"
    and "owners_connected (gi_core s)"
  shows "owners_connected (gi_core s')"
  using assms
proof (induction ms arbitrary: s)
  case Nil
  then show ?case by simp
next
  case (Cons m ms)
  obtain s1 where s1: "threads_step N srt inet m s = Some (Inr s1)" "threads_run N srt inet ms s1 = Some (Inr s')"
    using Cons.prems(1) by (auto simp del: threads_step.simps split: option.splits sum.splits)
  have "owners_connected (gi_core s1) \<and> connections_follow (dom (gc_client_sessions (gi_core s1))) ms"
  proof (cases m)
    case (Connect env c)
    then show ?thesis
      using s1(1) Cons.prems(2,3) by (auto simp: register_client_def owners_connected_def split: if_splits)
  next
    case (Leave env c)
    then have "gi_core s1 = (gi_core s)\<lparr>gc_client_sessions := (gc_client_sessions (gi_core s))(c := None),
            gc_order_to_client := (\<lambda>i. if gc_order_to_client (gi_core s) i = Some c then None
                                       else gc_order_to_client (gi_core s) i)\<rparr>"
      using s1(1) by (auto simp: unregister_client_def split: if_splits)
    then show ?thesis
      using Leave Cons.prems(2,3) by (auto simp: owners_connected_def ran_def split: if_splits)
  next
    case (Receive env c data n)
    then show ?thesis
      using s1(1) Cons.prems(2,3) begin_request_connected
      by (fastforce simp: map_sum_id_eq_Inr simp del: begin_request.simps split: if_splits sum.splits option.splits)
  qed (use threads_step_tables [OF s1(1)] Cons.prems(2,3) in \<open>simp_all add: owners_connected_def\<close>)
  then show ?case
    using Cons.IH [OF s1(2)] by blast
qed

text \<open>C17: in every interleaving the table of owners names connected clients only. Let the threads take their
  steps in any order, each descriptor receiving only between its connect and its disconnect: every noted
  owner is connected. So whenever the worker looks up a trade, what it finds for the buyer is the
  client that is noted for the buying order and is connected at that moment, or nobody, and likewise for the seller;
  and a client that leaves owns no order any more. That it is still connected when the notification is sent,
  after the mutex has been released, is not promised.\<close>

theorem owners_are_connected:
  assumes "connections_follow {} ms"
    and "threads_run N srt inet ms (threads_new (started_core N k)) = Some (Inr s)"
  shows "ran (gc_order_to_client (gi_core s)) \<subseteq> dom (gc_client_sessions (gi_core s)) \<and>
         (\<forall>s' envs j buyer_fd seller_fd t ts.
            threads_step N srt inet LookupClients s = Some (Inr s') \<and>
            gi_worker s' = WorkerFound envs j (buyer_fd, seller_fd) t ts \<longrightarrow>
            (buyer_fd \<noteq> -1 \<longrightarrow> gc_order_to_client (gi_core s') (tr_buy_order_id t) = Some buyer_fd \<and>
                              buyer_fd \<in> dom (gc_client_sessions (gi_core s'))) \<and>
            (seller_fd \<noteq> -1 \<longrightarrow> gc_order_to_client (gi_core s') (tr_sell_order_id t) = Some seller_fd \<and>
                               seller_fd \<in> dom (gc_client_sessions (gi_core s')))) \<and>
         (\<forall>env c s'. threads_step N srt inet (Leave env c) s = Some (Inr s') \<longrightarrow>
            c \<notin> ran (gc_order_to_client (gi_core s')) \<and> c \<notin> dom (gc_client_sessions (gi_core s')))"
proof -
  have start: "gc_client_sessions (started_core N k) = Map.empty" "gc_order_to_client (started_core N k) = Map.empty"
    by (simp_all add: started_core_def)
  have own: "ran (gc_order_to_client (gi_core s)) \<subseteq> dom (gc_client_sessions (gi_core s))"
    using threads_run_connected [OF assms(2)] assms(1) start by (simp add: threads_new_def owners_connected_def)
  have found: "\<exists>y. gc_client_sessions (gi_core s) c = Some y" if "gc_order_to_client (gi_core s) i = Some c" for i c
    using own that by (auto simp: ran_def)
  have client: "gc_order_to_client (gi_core s) i = Some (client_of i (gi_core s))" if "client_of i (gi_core s) \<noteq> -1" for i
    using that by (auto simp: client_of_def split: option.splits)
  have "(buyer_fd \<noteq> -1 \<longrightarrow> gc_order_to_client (gi_core s') (tr_buy_order_id t) = Some buyer_fd \<and>
            buyer_fd \<in> dom (gc_client_sessions (gi_core s'))) \<and>
        (seller_fd \<noteq> -1 \<longrightarrow> gc_order_to_client (gi_core s') (tr_sell_order_id t) = Some seller_fd \<and>
            seller_fd \<in> dom (gc_client_sessions (gi_core s')))"
    if "threads_step N srt inet LookupClients s = Some (Inr s')"
      "gi_worker s' = WorkerFound envs j (buyer_fd, seller_fd) t ts" for s' envs j buyer_fd seller_fd t ts
    using that client [of "tr_buy_order_id t"] client [of "tr_sell_order_id t"] found
    by (auto simp: lookup_clients_def split: worker_pc.splits)
  moreover have "c \<notin> ran (gc_order_to_client (gi_core s')) \<and> c \<notin> dom (gc_client_sessions (gi_core s'))"
    if "threads_step N srt inet (Leave env c) s = Some (Inr s')" for env c s'
    using that by (auto simp: unregister_client_def ran_def split: if_splits)
  ultimately show ?thesis
    using own by blast
qed

lemma threads_run_prefix:
  "threads_run N srt inet (ms @ ms') s = Some (Inr s2) \<Longrightarrow> \<exists>s1. threads_run N srt inet ms s = Some (Inr s1)"
  by (induction ms arbitrary: s) (auto split: option.splits sum.splits simp del: threads_step.simps)

theorem trade_parties_known_witness:
  "\<exists>s. threads_run 3 insertion_sort (\<lambda>_. None) (take 8 overtaking) (threads_new (started_core 3 4)) = Some (Inr s) \<and>
     (\<forall>envs j buyer_fd seller_fd t ts. gi_worker s = WorkerFound envs j (buyer_fd, seller_fd) t ts \<longrightarrow>
        buyer_fd \<noteq> -1 \<and> seller_fd \<noteq> -1)"
proof -
  obtain s where s: "threads_run 3 insertion_sort (\<lambda>_. None) (take 8 overtaking) (threads_new (started_core 3 4)) =
      Some (Inr s)"
    using overtaking_runs threads_run_prefix [of 3 insertion_sort "\<lambda>_. None" "take 8 overtaking" "drop 8 overtaking"]
    by (auto simp del: threads_run.simps)
  have "\<forall>m\<in>set (take 8 overtaking). move_ok m \<and> keeps_owners m"
    using overtaking_ok by (blast dest: in_set_takeD)
  then show ?thesis
    using trade_parties_known [OF _ sample_sort _ s] s by (intro exI [of _ s]) simp
qed

definition connected_overtaking :: "thread_move list" where
  "connected_overtaking = [Connect sample_env 7, Connect sample_env 8] @ take 7 overtaking"

lemma connected_overtaking_run:
  "threads_run 3 insertion_sort (\<lambda>_. None) connected_overtaking (threads_new (started_core 3 4)) =
   threads_run 3 insertion_sort (\<lambda>_. None) (take 7 overtaking)
     (threads_new ((started_core 3 4)\<lparr>gc_client_sessions :=
        [7 \<mapsto> generate_session_id sample_env, 8 \<mapsto> generate_session_id sample_env]\<rparr>))"
  by (simp add: connected_overtaking_def register_client_def threads_new_def started_core_def)

theorem owners_are_connected_witness:
  "\<exists>s s' t. threads_run 3 insertion_sort (\<lambda>_. None) connected_overtaking (threads_new (started_core 3 4)) = Some (Inr s) \<and>
     threads_step 3 insertion_sort (\<lambda>_. None) LookupClients s = Some (Inr s') \<and>
     gi_worker s' = WorkerFound (\<lambda>_. sample_env) 0 (8, 7) t [] \<and>
     8 \<in> dom (gc_client_sessions (gi_core s')) \<and> 7 \<in> dom (gc_client_sessions (gi_core s'))"
proof -
  obtain s t where s:
    "threads_run 3 insertion_sort (\<lambda>_. None) connected_overtaking (threads_new (started_core 3 4)) = Some (Inr s)"
    "gi_worker s = WorkerCallback (\<lambda>_. sample_env) 0 t []" "tr_buy_order_id t = 1" "tr_sell_order_id t = 2"
    "gc_order_to_client (gi_core s) = [2 \<mapsto> 7, 1 \<mapsto> 8]"
    using overtaking_prefix unfolding connected_overtaking_run by blast
  let ?s' = "s\<lparr>gi_worker := WorkerFound (\<lambda>_. sample_env) 0 (8, 7) t []\<rparr>"
  have look: "threads_step 3 insertion_sort (\<lambda>_. None) LookupClients s = Some (Inr ?s')"
    using s(2-5) by (simp add: lookup_clients_def client_of_def)
  have "connections_follow {} connected_overtaking"
    by (simp add: connected_overtaking_def overtaking_def)
  then have "8 \<in> dom (gc_client_sessions (gi_core ?s')) \<and> 7 \<in> dom (gc_client_sessions (gi_core ?s'))"
    using owners_are_connected [OF _ s(1)] look
    by (simp del: threads_step.simps)
  then show ?thesis
    using s(1) look by (intro exI [of _ s] exI [of _ ?s'] exI [of _ t]) (simp del: threads_step.simps)
qed

end
