(* ===== verification/Queue_Concurrency.thy ===== *)
theory Queue_Concurrency
  imports Lockfree_Queue "HOL-Library.Sublist"
begin

text \<open>
  The queue of \<^verbatim>\<open>lockfree_queue/lockfree_queue.h\<close> under concurrency: every atomic load and store of
  \<^verbatim>\<open>push\<close> and \<^verbatim>\<open>pop\<close> is one step, and threads take steps in any order. A thread's program counter
  is a constructor that names the next access and carries the local variables. Accesses are
  sequentially consistent, which is stronger than the acquire and release orders of the code.
  One thread pops (the matching thread); the number of threads that push is an argument.
\<close>

section \<open>The atomic steps\<close>

datatype 'a push_pc =
    PushLoadWrite 'a
  | PushLoadRead 'a nat
  | PushLoadTail 'a nat
  | PushStoreData 'a nat nat
  | PushLoadNext 'a nat nat
  | PushStoreTail 'a nat nat
  | PushStoreWrite 'a nat
  | PushDone 'a bool

fun push_step :: "nat \<Rightarrow> 'a push_pc \<times> 'a LockFreeQueue \<Rightarrow> 'a push_pc \<times> 'a LockFreeQueue" where
  "push_step Size (PushLoadWrite item, q) = (PushLoadRead item (m_write_pos q), q)"
| "push_step Size (PushLoadRead item current_write, q) =
     (if (current_write + 1) mod Size = m_read_pos q then PushDone item False
      else PushLoadTail item current_write, q)"
| "push_step Size (PushLoadTail item current_write, q) =
     (PushStoreData item current_write (m_tail q), q)"
| "push_step Size (PushStoreData item current_write tail, q) =
     (PushLoadNext item current_write tail, store_data tail (Some item) q)"
| "push_step Size (PushLoadNext item current_write tail, q) =
     (case m_next (m_nodes q ! tail) of
        Some next \<Rightarrow> PushStoreTail item current_write next
      | None \<Rightarrow> PushDone item False, q)"
| "push_step Size (PushStoreTail item current_write next, q) =
     (PushStoreWrite item current_write, q\<lparr>m_tail := next\<rparr>)"
| "push_step Size (PushStoreWrite item current_write, q) =
     (PushDone item True, q\<lparr>m_write_pos := (current_write + 1) mod Size\<rparr>)"
| "push_step Size (PushDone item result, q) = (PushDone item result, q)"

datatype 'a pop_pc =
    PopLoadHead
  | PopLoadData nat
  | PopLoadNext nat 'a
  | PopStoreData nat 'a nat
  | PopStoreHead 'a nat
  | PopLoadRead 'a
  | PopStoreRead 'a nat
  | PopDone "'a option"

fun pop_step :: "nat \<Rightarrow> 'a pop_pc \<times> 'a LockFreeQueue \<Rightarrow> 'a pop_pc \<times> 'a LockFreeQueue" where
  "pop_step Size (PopLoadHead, q) = (PopLoadData (m_head q), q)"
| "pop_step Size (PopLoadData head, q) =
     (case m_data (m_nodes q ! head) of
        None \<Rightarrow> PopDone None
      | Some data \<Rightarrow> PopLoadNext head data, q)"
| "pop_step Size (PopLoadNext head data, q) =
     (case m_next (m_nodes q ! head) of
        None \<Rightarrow> PopDone None
      | Some next \<Rightarrow> PopStoreData head data next, q)"
| "pop_step Size (PopStoreData head data next, q) = (PopStoreHead data next, store_data head None q)"
| "pop_step Size (PopStoreHead data next, q) = (PopLoadRead data, q\<lparr>m_head := next\<rparr>)"
| "pop_step Size (PopLoadRead data, q) = (PopStoreRead data (m_read_pos q), q)"
| "pop_step Size (PopStoreRead data current_read, q) =
     (PopDone (Some data), q\<lparr>m_read_pos := (current_read + 1) mod Size\<rparr>)"
| "pop_step Size (PopDone result, q) = (PopDone result, q)"

text \<open>
  The system: the shared queue, one optional call per producer and one for the consumer, and
  the history of calls: the arguments of the pushes begun, the pushes returned with their
  results, and the elements popped.
\<close>

record 'a queue_system =
  shared :: "'a LockFreeQueue"
  producer :: "nat \<Rightarrow> 'a push_pc option"
  consumer :: "'a pop_pc option"
  issued :: "'a list"
  returned :: "('a \<times> bool) list"
  popped :: "'a list"

definition queue_system_new :: "nat \<Rightarrow> 'a queue_system" where
  "queue_system_new Size =
     \<lparr>shared = LockFreeQueue_new Size, producer = (\<lambda>_. None), consumer = None,
      issued = [], returned = [], popped = []\<rparr>"

inductive queue_system_step :: "nat \<Rightarrow> nat \<Rightarrow> 'a queue_system \<Rightarrow> 'a queue_system \<Rightarrow> bool"
  for Size :: nat and producers :: nat where
  push_call: "p < producers \<Longrightarrow> producer s p = None \<Longrightarrow>
    queue_system_step Size producers s
      (s\<lparr>producer := (producer s)(p := Some (PushLoadWrite item)), issued := issued s @ [item]\<rparr>)"
| push_access: "producer s p = Some pc \<Longrightarrow> push_step Size (pc, shared s) = (pc', q') \<Longrightarrow>
    queue_system_step Size producers s
      (s\<lparr>producer := (producer s)(p := Some pc'), shared := q'\<rparr>)"
| push_return: "producer s p = Some (PushDone item result) \<Longrightarrow>
    queue_system_step Size producers s
      (s\<lparr>producer := (producer s)(p := None), returned := returned s @ [(item, result)]\<rparr>)"
| pop_call: "consumer s = None \<Longrightarrow>
    queue_system_step Size producers s (s\<lparr>consumer := Some PopLoadHead\<rparr>)"
| pop_access: "consumer s = Some pc \<Longrightarrow> pop_step Size (pc, shared s) = (pc', q') \<Longrightarrow>
    queue_system_step Size producers s (s\<lparr>consumer := Some pc', shared := q'\<rparr>)"
| pop_return: "consumer s = Some (PopDone result) \<Longrightarrow>
    queue_system_step Size producers s
      (s\<lparr>consumer := None, popped := popped s @ (case result of None \<Rightarrow> [] | Some x \<Rightarrow> [x])\<rparr>)"

inductive_cases queue_system_stepE: "queue_system_step Size producers s s'"

inductive queue_system_reachable :: "nat \<Rightarrow> nat \<Rightarrow> 'a queue_system \<Rightarrow> bool"
  for Size :: nat and producers :: nat where
  reach_new: "queue_system_reachable Size producers (queue_system_new Size)"
| reach_step: "queue_system_reachable Size producers s \<Longrightarrow>
    queue_system_step Size producers s s' \<Longrightarrow> queue_system_reachable Size producers s'"

section \<open>Uninterrupted calls\<close>

text \<open>Seven accesses of one thread alone are the operation of \<open>Lockfree_Queue\<close>.\<close>

lemma push_alone:
  "(push_step Size ^^ 7) (PushLoadWrite x, q) =
     (PushDone x (fst (LockFreeQueue_push Size (Some x) q)), snd (LockFreeQueue_push Size (Some x) q))"
  by (simp add: eval_nat_numeral LockFreeQueue_push_def Let_def split: option.split)

lemma pop_alone:
  "(pop_step Size ^^ 7) (PopLoadHead, q) =
     (PopDone (fst (LockFreeQueue_pop Size q)), snd (LockFreeQueue_pop Size q))"
  by (simp add: eval_nat_numeral LockFreeQueue_pop_def Let_def split: option.split)

section \<open>One producer, one consumer\<close>

text \<open>
  The invariant speaks of two positions. \<open>write_count\<close> is the number of elements whose data are
  stored, one ahead of \<^verbatim>\<open>m_tail\<close> between the store of the data and that of the tail;
  \<open>read_count\<close> is the number of cells the consumer has cleared, one ahead of \<^verbatim>\<open>m_head\<close> between the
  store of null and that of the head. \<open>n\<close> is the number of pushes that have returned.
\<close>

fun past_store :: "'a push_pc option \<Rightarrow> nat" where
  "past_store (Some (PushLoadNext x cw tail)) = 1"
| "past_store (Some (PushStoreTail x cw next)) = 1"
| "past_store (Some (PushStoreWrite x cw)) = 1"
| "past_store (Some (PushDone x r)) = 1"
| "past_store pc = 0"

definition write_count :: "nat \<Rightarrow> nat \<Rightarrow> 'a push_pc option \<Rightarrow> nat" where
  "write_count Size n pc = min (Size - 1) (n + past_store pc)"

fun read_count :: "nat \<Rightarrow> 'a pop_pc option \<Rightarrow> nat" where
  "read_count h (Some (PopStoreHead x next)) = Suc h"
| "read_count h pc = h"

text \<open>
  What the producer knows at each access of the tail \<open>t\<close>, the write position \<open>w\<close> and the
  arguments \<open>xs\<close> of the calls so far.
\<close>

fun producer_at :: "nat \<Rightarrow> nat \<Rightarrow> 'a list \<Rightarrow> nat \<Rightarrow> nat \<Rightarrow> 'a push_pc option \<Rightarrow> bool" where
  "producer_at Size n xs t w None \<longleftrightarrow> length xs = n \<and> t = min (Size - 1) n \<and> w = t"
| "producer_at Size n xs t w (Some (PushLoadWrite x)) \<longleftrightarrow>
     length xs = Suc n \<and> xs ! n = x \<and> t = min (Size - 1) n \<and> w = t"
| "producer_at Size n xs t w (Some (PushLoadRead x cw)) \<longleftrightarrow>
     length xs = Suc n \<and> xs ! n = x \<and> t = min (Size - 1) n \<and> w = t \<and> cw = t"
| "producer_at Size n xs t w (Some (PushLoadTail x cw)) \<longleftrightarrow>
     length xs = Suc n \<and> xs ! n = x \<and> t = min (Size - 1) n \<and> w = t \<and> cw = t"
| "producer_at Size n xs t w (Some (PushStoreData x cw tail)) \<longleftrightarrow>
     length xs = Suc n \<and> xs ! n = x \<and> t = min (Size - 1) n \<and> w = t \<and> cw = t \<and> tail = t"
| "producer_at Size n xs t w (Some (PushLoadNext x cw tail)) \<longleftrightarrow>
     length xs = Suc n \<and> xs ! n = x \<and> t = min (Size - 1) n \<and> w = t \<and> cw = t \<and> tail = t"
| "producer_at Size n xs t w (Some (PushStoreTail x cw next)) \<longleftrightarrow>
     length xs = Suc n \<and> xs ! n = x \<and> t = n \<and> w = t \<and> cw = t \<and> next = Suc t \<and> Suc t < Size"
| "producer_at Size n xs t w (Some (PushStoreWrite x cw)) \<longleftrightarrow>
     length xs = Suc n \<and> xs ! n = x \<and> t = Suc n \<and> w = n \<and> cw = n \<and> t < Size"
| "producer_at Size n xs t w (Some (PushDone x r)) \<longleftrightarrow>
     length xs = Suc n \<and> xs ! n = x \<and> t = min (Size - 1) (Suc n) \<and> w = t \<and> r = (n < Size - 1)"

text \<open>
  What the consumer knows at each access of the head \<open>h\<close>, the read position \<open>r\<close>, the write
  count \<open>W\<close>, the pushed elements \<open>xs\<close> and the popped ones \<open>out\<close>.
\<close>

fun consumer_at ::
    "nat \<Rightarrow> nat \<Rightarrow> 'a list \<Rightarrow> 'a list \<Rightarrow> nat \<Rightarrow> nat \<Rightarrow> 'a pop_pc option \<Rightarrow> bool" where
  "consumer_at Size W xs out h r None \<longleftrightarrow> r = h \<and> out = take h xs"
| "consumer_at Size W xs out h r (Some PopLoadHead) \<longleftrightarrow> r = h \<and> out = take h xs"
| "consumer_at Size W xs out h r (Some (PopLoadData head)) \<longleftrightarrow>
     r = h \<and> out = take h xs \<and> head = h"
| "consumer_at Size W xs out h r (Some (PopLoadNext head x)) \<longleftrightarrow>
     r = h \<and> out = take h xs \<and> head = h \<and> (Suc h < Size \<longrightarrow> h < W \<and> x = xs ! h)"
| "consumer_at Size W xs out h r (Some (PopStoreData head x next)) \<longleftrightarrow>
     r = h \<and> out = take h xs \<and> head = h \<and> next = Suc h \<and> h < W \<and> x = xs ! h"
| "consumer_at Size W xs out h r (Some (PopStoreHead x next)) \<longleftrightarrow>
     r = h \<and> out = take h xs \<and> next = Suc h \<and> h < W \<and> x = xs ! h"
| "consumer_at Size W xs out h r (Some (PopLoadRead x)) \<longleftrightarrow>
     h = Suc r \<and> out = take r xs \<and> x = xs ! r"
| "consumer_at Size W xs out h r (Some (PopStoreRead x cr)) \<longleftrightarrow>
     h = Suc r \<and> out = take r xs \<and> x = xs ! r \<and> cr = r"
| "consumer_at Size W xs out h r (Some (PopDone None)) \<longleftrightarrow> r = h \<and> out = take h xs"
| "consumer_at Size W xs out h r (Some (PopDone (Some x))) \<longleftrightarrow>
     r = h \<and> 0 < h \<and> out = take (h - 1) xs \<and> x = xs ! (h - 1)"

text \<open>The cells between the two counts hold the pushed elements, the others below the last none.\<close>

definition cells_at :: "nat \<Rightarrow> nat \<Rightarrow> nat \<Rightarrow> 'a list \<Rightarrow> 'a Node list \<Rightarrow> bool" where
  "cells_at Size H W xs ns \<longleftrightarrow>
     length ns = Size \<and> H \<le> W \<and> W \<le> length xs \<and> W < Size \<and>
     (\<forall>i<Size. m_next (ns ! i) = (if Suc i < Size then Some (Suc i) else None)) \<and>
     (\<forall>i. Suc i < Size \<longrightarrow>
        m_data (ns ! i) = (if H \<le> i \<and> i < W then Some (xs ! i) else None)) \<and>
     (Suc W < Size \<longrightarrow> m_data (ns ! (Size - 1)) = None)"

definition spsc_inv :: "nat \<Rightarrow> 'a queue_system \<Rightarrow> bool" where
  "spsc_inv Size s \<longleftrightarrow>
     (let q = shared s; n = length (returned s); W = write_count Size n (producer s 0) in
      (\<forall>p>0. producer s p = None) \<and>
      returned s = map (\<lambda>i. (issued s ! i, i < Size - 1)) [0..<n] \<and>
      producer_at Size n (issued s) (m_tail q) (m_write_pos q) (producer s 0) \<and>
      consumer_at Size W (issued s) (popped s) (m_head q) (m_read_pos q) (consumer s) \<and>
      cells_at Size (read_count (m_head q) (consumer s)) W (issued s) (m_nodes q))"

lemma spsc_invI:
  assumes "\<forall>p>0. producer s p = None"
    and "returned s = map (\<lambda>i. (issued s ! i, i < Size - 1)) [0..<length (returned s)]"
    and "producer_at Size (length (returned s)) (issued s) (m_tail (shared s))
           (m_write_pos (shared s)) (producer s 0)"
    and "consumer_at Size (write_count Size (length (returned s)) (producer s 0)) (issued s)
           (popped s) (m_head (shared s)) (m_read_pos (shared s)) (consumer s)"
    and "cells_at Size (read_count (m_head (shared s)) (consumer s))
           (write_count Size (length (returned s)) (producer s 0)) (issued s) (m_nodes (shared s))"
  shows "spsc_inv Size s"
  using assms unfolding spsc_inv_def Let_def by blast

lemma spsc_invD:
  assumes "spsc_inv Size s"
  shows "\<forall>p>0. producer s p = None"
    and "returned s = map (\<lambda>i. (issued s ! i, i < Size - 1)) [0..<length (returned s)]"
    and "producer_at Size (length (returned s)) (issued s) (m_tail (shared s))
           (m_write_pos (shared s)) (producer s 0)"
    and "consumer_at Size (write_count Size (length (returned s)) (producer s 0)) (issued s)
           (popped s) (m_head (shared s)) (m_read_pos (shared s)) (consumer s)"
    and "cells_at Size (read_count (m_head (shared s)) (consumer s))
           (write_count Size (length (returned s)) (producer s 0)) (issued s) (m_nodes (shared s))"
  using assms unfolding spsc_inv_def Let_def by blast+

lemma spsc_new: "0 < Size \<Longrightarrow> spsc_inv Size (queue_system_new Size)"
  by (rule spsc_invI)
     (auto simp: queue_system_new_def LockFreeQueue_new_def linked_nodes_def cells_at_def
       write_count_def)

text \<open>A producer's step leaves the consumer's knowledge, and conversely.\<close>

lemma consumer_at_mono:
  "consumer_at Size W xs out h r pc \<Longrightarrow> W \<le> W' \<Longrightarrow> consumer_at Size W' xs out h r pc"
  by (induction Size W xs out h r pc rule: consumer_at.induct) auto

lemma consumer_at_append:
  "consumer_at Size W xs out h r pc \<Longrightarrow> h \<le> length xs \<Longrightarrow> W \<le> length xs \<Longrightarrow>
   consumer_at Size W (xs @ ys) out h r pc"
  by (induction Size W xs out h r pc rule: consumer_at.induct) (auto simp: nth_append)

lemma head_le_read_count: "h \<le> read_count h pc"
  by (induction h pc rule: read_count.induct) auto

lemma consumer_at_read_pos: "consumer_at Size W xs out h r pc \<Longrightarrow> r \<le> h"
  by (induction Size W xs out h r pc rule: consumer_at.induct) auto

lemma cells_at_append: "cells_at Size H W xs ns \<Longrightarrow> cells_at Size H W (xs @ ys) ns"
  by (auto simp: cells_at_def nth_append)

lemma cells_at_store:
  assumes "cells_at Size H W xs ns" and "W < length xs" and "xs ! W = x" and "Suc W < Size"
  shows "cells_at Size H (Suc W) xs (ns[W := (ns ! W)\<lparr>m_data := Some x\<rparr>])"
  using assms by (auto simp: cells_at_def m_data_store less_Suc_eq)

lemma cells_at_store_last:
  assumes "cells_at Size H W xs ns" and "Suc t = Size" and "W = t"
  shows "cells_at Size H W xs (ns[t := (ns ! t)\<lparr>m_data := y\<rparr>])"
  using assms by (auto simp: cells_at_def m_data_store)

lemma cells_at_clear:
  assumes "cells_at Size H W xs ns" and "H < W"
  shows "cells_at Size (Suc H) W xs (ns[H := (ns ! H)\<lparr>m_data := None\<rparr>])"
  using assms by (auto simp: cells_at_def m_data_store)

lemma spsc_push_call:
  assumes "spsc_inv Size s" and "producer s 0 = None"
  shows "spsc_inv Size (s\<lparr>producer := (producer s)(0 := Some (PushLoadWrite x)),
                         issued := issued s @ [x]\<rparr>)"
proof -
  note d = spsc_invD [OF assms(1)]
  let ?n = "length (returned s)"
  have n: "length (issued s) = ?n"
    using d(3) assms(2) by simp
  have W: "write_count Size ?n (Some (PushLoadWrite x)) = write_count Size ?n (producer s 0)"
    using assms(2) by (simp add: write_count_def)
  have "m_head (shared s) \<le> length (issued s)" "write_count Size ?n (producer s 0) \<le> length (issued s)"
    using d(5) assms(2) head_le_read_count [of "m_head (shared s)" "consumer s"]
    by (simp_all add: cells_at_def)
  then have c: "consumer_at Size (write_count Size ?n (producer s 0)) (issued s @ [x]) (popped s)
      (m_head (shared s)) (m_read_pos (shared s)) (consumer s)"
    using d(4) by (intro consumer_at_append)
  have r: "returned s = map (\<lambda>i. ((issued s @ [x]) ! i, i < Size - 1)) [0..<?n]"
    by (subst d(2)) (simp add: nth_append n)
  show ?thesis
    using d(1,3) c r cells_at_append [OF d(5)] assms(2)
    by (intro spsc_invI) (simp_all add: W nth_append n)
qed

text \<open>A producer's access changes the tail, the write position, at most one cell and the counter.\<close>

lemma spsc_producer_move:
  assumes "spsc_inv Size s"
    and "producer_at Size (length (returned s)) (issued s) (m_tail q) (m_write_pos q) (Some pc')"
    and "write_count Size (length (returned s)) (producer s 0) \<le>
         write_count Size (length (returned s)) (Some pc')"
    and "m_head q = m_head (shared s)" and "m_read_pos q = m_read_pos (shared s)"
    and "cells_at Size (read_count (m_head q) (consumer s))
           (write_count Size (length (returned s)) (Some pc')) (issued s) (m_nodes q)"
  shows "spsc_inv Size (s\<lparr>producer := (producer s)(0 := Some pc'), shared := q\<rparr>)"
  using spsc_invD [OF assms(1)] assms(2-6)
  by (intro spsc_invI) (simp_all add: consumer_at_mono)

lemma spsc_push_access:
  assumes "spsc_inv Size s" and "producer s 0 = Some pc"
    and "push_step Size (pc, shared s) = (pc', q')"
  shows "spsc_inv Size (s\<lparr>producer := (producer s)(0 := Some pc'), shared := q'\<rparr>)"
proof -
  note d = spsc_invD [OF assms(1)]
  let ?n = "length (returned s)"
  have cells: "cells_at Size (read_count (m_head (shared s)) (consumer s))
      (write_count Size ?n (Some pc)) (issued s) (m_nodes (shared s))"
    using d(5) assms(2) by simp
  then have size: "0 < Size"
    by (auto simp: cells_at_def)
  have links: "m_next (m_nodes (shared s) ! i) = (if Suc i < Size then Some (Suc i) else None)"
    if "i < Size" for i
    using cells that by (simp add: cells_at_def)
  have read: "m_read_pos (shared s) \<le> write_count Size ?n (Some pc)"
    using cells head_le_read_count [of "m_head (shared s)" "consumer s"]
      consumer_at_read_pos [OF d(4)]
    by (simp add: cells_at_def)
  have prod: "producer_at Size ?n (issued s) (m_tail (shared s)) (m_write_pos (shared s)) (Some pc)"
    using d(3) assms(2) by simp
  show ?thesis
  proof (rule spsc_producer_move [OF assms(1)])
    show "m_head q' = m_head (shared s)" "m_read_pos q' = m_read_pos (shared s)"
      using assms(3) by (cases pc; auto)+
    show W: "write_count Size ?n (producer s 0) \<le> write_count Size ?n (Some pc')"
      using assms(2,3) prod by (cases pc) (auto simp: write_count_def split: option.splits)
    show P: "producer_at Size ?n (issued s) (m_tail q') (m_write_pos q') (Some pc')"
      using assms(3) prod read size links [of "min (Size - 1) ?n"]
      by (cases pc) (auto simp: write_count_def mod_Suc min_def split: if_splits)
    show "cells_at Size (read_count (m_head q') (consumer s))
           (write_count Size ?n (Some pc')) (issued s) (m_nodes q')"
    proof (cases pc)
      case (PushStoreData x cw tl)
      show ?thesis
      proof (cases "Suc ?n < Size")
        case True
        then show ?thesis
          using PushStoreData prod assms(3) cells_at_store [OF cells, of x]
          by (auto simp: write_count_def)
      next
        case False
        then show ?thesis
          using PushStoreData prod assms(3) size cells_at_store_last [OF cells, of "Size - 1"]
          by (auto simp: write_count_def min_def split: if_splits)
      qed
    next
      case (PushLoadRead x cw)
      then show ?thesis
        using P prod assms(3) cells by (auto simp: write_count_def min_def split: if_splits)
    next
      case (PushLoadNext x cw tl)
      then show ?thesis
        using prod assms(3) cells links [of "min (Size - 1) ?n"] size
        by (auto simp: write_count_def split: if_splits)
    qed (use assms(3) cells in \<open>auto simp: write_count_def\<close>)
  qed
qed

lemma spsc_push_return:
  assumes "spsc_inv Size s" and "producer s 0 = Some (PushDone x r)"
  shows "spsc_inv Size (s\<lparr>producer := (producer s)(0 := None),
                         returned := returned s @ [(x, r)]\<rparr>)"
proof -
  note d = spsc_invD [OF assms(1)]
  let ?n = "length (returned s)"
  have W: "write_count Size (Suc ?n) None = write_count Size ?n (Some (PushDone x r))"
    by (simp add: write_count_def)
  show ?thesis
    using d assms(2) by (intro spsc_invI) (simp_all add: W)
qed

lemma spsc_pop_step:
  assumes "spsc_inv Size s"
    and "consumer_at Size (write_count Size (length (returned s)) (producer s 0)) (issued s) out
           (m_head q) (m_read_pos q) pc"
    and "m_tail q = m_tail (shared s)" and "m_write_pos q = m_write_pos (shared s)"
    and "cells_at Size (read_count (m_head q) pc)
           (write_count Size (length (returned s)) (producer s 0)) (issued s) (m_nodes q)"
  shows "spsc_inv Size (s\<lparr>consumer := pc, shared := q, popped := out\<rparr>)"
  using spsc_invD [OF assms(1)] assms(2-5) by (intro spsc_invI) simp_all

lemma spsc_pop_access:
  assumes "spsc_inv Size s" and "consumer s = Some pc"
    and "pop_step Size (pc, shared s) = (pc', q')"
  shows "spsc_inv Size (s\<lparr>consumer := Some pc', shared := q'\<rparr>)"
proof -
  note d = spsc_invD [OF assms(1)]
  define W where "W = write_count Size (length (returned s)) (producer s 0)"
  have cells: "cells_at Size (read_count (m_head (shared s)) (Some pc)) W (issued s)
      (m_nodes (shared s))"
    using d(5) assms(2) by (simp add: W_def)
  have cons: "consumer_at Size W (issued s) (popped s) (m_head (shared s)) (m_read_pos (shared s))
      (Some pc)"
    using d(4) assms(2) by (simp add: W_def)
  have bound: "read_count (m_head (shared s)) (Some pc) \<le> W" "W < Size"
    using cells by (simp_all add: cells_at_def)
  have links: "m_next (m_nodes (shared s) ! i) = (if Suc i < Size then Some (Suc i) else None)"
    if "i < Size" for i
    using cells that by (simp add: cells_at_def)
  have data: "m_data (m_nodes (shared s) ! i) =
      (if read_count (m_head (shared s)) (Some pc) \<le> i \<and> i < W then Some (issued s ! i) else None)"
    if "Suc i < Size" for i
    using cells that by (simp add: cells_at_def)
  have "spsc_inv Size (s\<lparr>consumer := Some pc', shared := q', popped := popped s\<rparr>)"
  proof (rule spsc_pop_step [OF assms(1)], unfold W_def [symmetric])
    show "m_tail q' = m_tail (shared s)" "m_write_pos q' = m_write_pos (shared s)"
      using assms(3) by (cases pc; auto)+
    show "consumer_at Size W (issued s) (popped s) (m_head q') (m_read_pos q') (Some pc')"
      using assms(3) cons bound links [of "m_head (shared s)"] data [of "m_head (shared s)"]
      by (cases pc rule: pop_pc.exhaust) (auto split: option.splits if_splits)
    show "cells_at Size (read_count (m_head q') (Some pc')) W (issued s) (m_nodes q')"
      using assms(3) cons bound cells cells_at_clear [OF cells]
      by (cases pc) (auto split: option.splits)
  qed
  then show ?thesis by simp
qed

lemma spsc_pop_return:
  assumes "spsc_inv Size s" and "consumer s = Some (PopDone result)"
  shows "spsc_inv Size
    (s\<lparr>consumer := None, popped := popped s @ (case result of None \<Rightarrow> [] | Some x \<Rightarrow> [x])\<rparr>)"
proof -
  note d = spsc_invD [OF assms(1)]
  have "m_head (shared s) \<le> length (issued s)"
    using d(5) assms(2) by (simp add: cells_at_def)
  then have "spsc_inv Size (s\<lparr>consumer := None, shared := shared s,
      popped := popped s @ (case result of None \<Rightarrow> [] | Some x \<Rightarrow> [x])\<rparr>)"
    using d assms(2)
    by (intro spsc_pop_step [OF assms(1)])
       (cases result; auto simp: take_Suc_conv_app_nth [symmetric])+
  then show ?thesis by simp
qed

lemma spsc_step:
  assumes "queue_system_step Size 1 s s'" and "spsc_inv Size s"
  shows "spsc_inv Size s'"
  using assms(1)
proof cases
  case (push_access p pc pc' q')
  then have "p = 0"
    using spsc_invD(1) [OF assms(2)] by (metis gr0I option.distinct(1))
  then show ?thesis
    using push_access spsc_push_access [OF assms(2)] by simp
next
  case (push_return p x r)
  then have "p = 0"
    using spsc_invD(1) [OF assms(2)] by (metis gr0I option.distinct(1))
  then show ?thesis
    using push_return spsc_push_return [OF assms(2)] by simp
next
  case pop_call
  then have "spsc_inv Size (s\<lparr>consumer := Some PopLoadHead, shared := shared s, popped := popped s\<rparr>)"
    using spsc_invD [OF assms(2)] by (intro spsc_pop_step [OF assms(2)]) simp_all
  then show ?thesis
    using pop_call by simp
qed (use assms(2) in \<open>auto simp: spsc_push_call spsc_pop_access spsc_pop_return\<close>)

lemma spsc_reachable:
  "queue_system_reachable Size 1 s \<Longrightarrow> 0 < Size \<Longrightarrow> spsc_inv Size s"
  by (induction rule: queue_system_reachable.induct) (auto intro: spsc_new spsc_step)

lemma spsc_quiescent:
  assumes "spsc_inv Size s" and "producer s 0 = None" and "consumer s = None"
  shows "queue_inv Size (shared s) \<and> take (Size - 1) (issued s) = popped s @ contents (shared s)"
proof -
  note d = spsc_invD [OF assms(1)]
  let ?q = "shared s"
  have t: "m_tail ?q = min (Size - 1) (length (issued s))" "m_write_pos ?q = m_tail ?q"
    and r: "m_read_pos ?q = m_head ?q" "popped s = take (m_head ?q) (issued s)"
    using d(3,4) assms(2,3) by simp_all
  have cells: "cells_at Size (m_head ?q) (m_tail ?q) (issued s) (m_nodes ?q)"
    using d(3,5) assms(2,3) by (simp add: write_count_def)
  have data: "m_data (m_nodes ?q ! i) =
      (if m_head ?q \<le> i \<and> i < m_tail ?q then Some (issued s ! i) else None)" if "Suc i < Size" for i
    using cells that by (simp add: cells_at_def)
  have b: "m_head ?q \<le> m_tail ?q" "m_tail ?q < Size" "m_tail ?q \<le> length (issued s)"
    using cells by (simp_all add: cells_at_def)
  have last: "Suc (m_tail ?q) < Size \<Longrightarrow> m_data (m_nodes ?q ! (Size - 1)) = None"
    using cells by (simp add: cells_at_def)
  have "contents ?q = map (\<lambda>i. issued s ! i) [m_head ?q..<m_tail ?q]"
    using data b by (auto simp: contents_def)
  also have "\<dots> = take (m_tail ?q - m_head ?q) (drop (m_head ?q) (issued s))"
    using b by (intro nth_equalityI) auto
  finally have "popped s @ contents ?q = take (m_tail ?q) (issued s)"
    using b r by (metis le_add_diff_inverse take_add)
  moreover have "queue_inv Size ?q"
    unfolding queue_inv_def
  proof (intro conjI allI impI)
    fix i assume "i < Size" and "i < m_head ?q \<or> m_tail ?q < i"
    then show "m_data (m_nodes ?q ! i) = None"
      using data [of i] last b by (cases "i = Size - 1") auto
  qed (use cells t r b data in \<open>auto simp: cells_at_def\<close>)
  ultimately show ?thesis
    using t by (metis take_all_iff min.cobounded1 min_def)
qed

lemma take_prefix_take: "k \<le> n \<Longrightarrow> prefix (take k xs) (take n xs)"
  by (metis min.absorb_iff1 take_is_prefix take_take)

lemma consumer_at_popped: "consumer_at Size W xs out h r pc \<Longrightarrow> prefix out (take h xs)"
  by (induction Size W xs out h r pc rule: consumer_at.induct) (auto simp: take_prefix_take)

lemma spsc_popped_prefix:
  assumes "spsc_inv Size s"
  shows "prefix (popped s) (take (Size - 1) (issued s))"
proof -
  have "m_head (shared s) \<le> Size - 1"
    using spsc_invD(5) [OF assms] head_le_read_count [of "m_head (shared s)" "consumer s"]
    by (auto simp: cells_at_def)
  then show ?thesis
    using consumer_at_popped [OF spsc_invD(4) [OF assms]] take_prefix_take
    by (blast intro: prefix_order.trans)
qed

section \<open>Schedules\<close>

text \<open>A schedule names the thread that moves next; the states it runs through are reachable.\<close>

datatype 'a queue_move = CallPush nat 'a | StepPush nat | ReturnPush nat | CallPop | StepPop | ReturnPop

fun perform :: "nat \<Rightarrow> 'a queue_move \<Rightarrow> 'a queue_system \<Rightarrow> 'a queue_system option" where
  "perform Size (CallPush p x) s =
     (case producer s p of
        None \<Rightarrow> Some (s\<lparr>producer := (producer s)(p := Some (PushLoadWrite x)), issued := issued s @ [x]\<rparr>)
      | Some pc \<Rightarrow> None)"
| "perform Size (StepPush p) s =
     (case producer s p of
        None \<Rightarrow> None
      | Some pc \<Rightarrow> (case push_step Size (pc, shared s) of (pc', q') \<Rightarrow>
          Some (s\<lparr>producer := (producer s)(p := Some pc'), shared := q'\<rparr>)))"
| "perform Size (ReturnPush p) s =
     (case producer s p of
        Some (PushDone x r) \<Rightarrow>
          Some (s\<lparr>producer := (producer s)(p := None), returned := returned s @ [(x, r)]\<rparr>)
      | _ \<Rightarrow> None)"
| "perform Size CallPop s =
     (case consumer s of None \<Rightarrow> Some (s\<lparr>consumer := Some PopLoadHead\<rparr>) | Some pc \<Rightarrow> None)"
| "perform Size StepPop s =
     (case consumer s of
        None \<Rightarrow> None
      | Some pc \<Rightarrow> (case pop_step Size (pc, shared s) of (pc', q') \<Rightarrow>
          Some (s\<lparr>consumer := Some pc', shared := q'\<rparr>)))"
| "perform Size ReturnPop s =
     (case consumer s of
        Some (PopDone res) \<Rightarrow>
          Some (s\<lparr>consumer := None,
                  popped := popped s @ (case res of None \<Rightarrow> [] | Some x \<Rightarrow> [x])\<rparr>)
      | _ \<Rightarrow> None)"

fun run_moves :: "nat \<Rightarrow> 'a queue_move list \<Rightarrow> 'a queue_system \<Rightarrow> 'a queue_system option" where
  "run_moves Size [] s = Some s"
| "run_moves Size (m # ms) s =
     (case perform Size m s of None \<Rightarrow> None | Some s' \<Rightarrow> run_moves Size ms s')"

fun callers_below :: "nat \<Rightarrow> 'a queue_move list \<Rightarrow> bool" where
  "callers_below n [] = True"
| "callers_below n (CallPush p x # ms) = (p < n \<and> callers_below n ms)"
| "callers_below n (m # ms) = callers_below n ms"

lemma perform_step:
  assumes "perform Size m s = Some s'" and "callers_below n [m]"
  shows "queue_system_step Size n s s'"
  using assms
  by (cases m)
     (auto intro: queue_system_step.intros pop_return [of s None, simplified]
        pop_return [of s "Some x" for x, simplified]
      split: option.splits prod.splits push_pc.splits pop_pc.splits)

lemma run_moves_reachable:
  "queue_system_reachable Size n s \<Longrightarrow> run_moves Size ms s = Some s' \<Longrightarrow> callers_below n ms \<Longrightarrow>
   queue_system_reachable Size n s'"
proof (induction ms arbitrary: s)
  case Nil
  then show ?case by simp
next
  case (Cons m ms)
  then obtain s1 where m: "perform Size m s = Some s1" "run_moves Size ms s1 = Some s'"
    by (auto split: option.splits)
  moreover have "callers_below n [m]" "callers_below n ms"
    using Cons.prems(3) by (cases m; simp)+
  ultimately show ?case
    using Cons.IH [OF reach_step [OF Cons.prems(1) perform_step]] by blast
qed

lemma nth_linked_nodes:
  "i < Size \<Longrightarrow>
   linked_nodes Size ! i = \<lparr>m_data = None, m_next = (if i < Size - 1 then Some (i + 1) else None)\<rparr>"
  by (simp add: linked_nodes_def)

lemma length_linked_nodes [simp]: "length (linked_nodes Size) = Size"
  by (simp add: linked_nodes_def)

lemma push_new_contents:
  assumes "1 < Size"
  shows "queue_inv Size (snd (LockFreeQueue_push Size (Some y) (LockFreeQueue_new Size)))"
    and "contents (snd (LockFreeQueue_push Size (Some y) (LockFreeQueue_new Size))) = [y]"
proof -
  have inv: "queue_inv Size (LockFreeQueue_new Size)"
    using assms by (intro queue_inv_new) simp
  then show "queue_inv Size (snd (LockFreeQueue_push Size (Some y) (LockFreeQueue_new Size)))"
    by (rule push_preserves)
  show "contents (snd (LockFreeQueue_push Size (Some y) (LockFreeQueue_new Size))) = [y]"
  proof -
    have "m_tail (LockFreeQueue_new Size) = 0" and "contents (LockFreeQueue_new Size) = []"
      by (simp_all add: LockFreeQueue_new_def contents_def)
    then show ?thesis
      using assms lfq.push_accepts [OF inv, of y] by (simp add: push_contents [OF inv])
  qed
qed

text \<open>An overlapping push and pop, for examples.\<close>

definition overlapping_calls :: "'a \<Rightarrow> 'a queue_move list" where
  "overlapping_calls x =
     [CallPush 0 x, StepPush 0, CallPop] @ replicate 3 (StepPush 0) @ replicate 7 StepPop @
     replicate 3 (StepPush 0) @ [ReturnPush 0, ReturnPop]"

lemma overlapping_calls_run:
  assumes "1 < Size"
  shows "\<exists>s. run_moves Size (overlapping_calls x) (queue_system_new Size) = Some s \<and>
           popped s = [x] \<and> issued s = [x] \<and> producer s 0 = None \<and> consumer s = None"
  using assms
  by (simp add: overlapping_calls_def queue_system_new_def LockFreeQueue_new_def nth_linked_nodes
      eval_nat_numeral)

lemma overlapping_calls_below: "callers_below 1 (overlapping_calls x)"
  by (simp add: overlapping_calls_def eval_nat_numeral)

section \<open>Results\<close>

text \<open>With one producer and one consumer the queue is linearizable in every interleaving of
  the atomic accesses. The result of the \<open>i\<close>-th push is true exactly for the first
  \<^verbatim>\<open>Size - 1\<close> pushes; what has been popped is always a prefix of these elements, in the order of
  their pushes, none lost, doubled or invented; and whenever no call is in progress the shared
  structure satisfies the sequential invariant, with the accepted elements not yet popped as
  its contents.\<close>

theorem spsc_linearizable:
  assumes "0 < Size" and "queue_system_reachable Size 1 s"
  shows "returned s = map (\<lambda>i. (issued s ! i, i < Size - 1)) [0..<length (returned s)] \<and>
         prefix (popped s) (take (Size - 1) (issued s)) \<and>
         (producer s 0 = None \<and> consumer s = None \<longrightarrow>
            queue_inv Size (shared s) \<and>
            take (Size - 1) (issued s) = popped s @ contents (shared s))"
  using spsc_reachable [OF assms(2,1)] spsc_invD(2) spsc_popped_prefix spsc_quiescent by blast

theorem spsc_linearizable_witness:
  "\<exists>s. run_moves 3 (overlapping_calls (7::nat)) (queue_system_new 3) = Some s \<and>
     popped s = [7] \<and> contents (shared s) = [] \<and> queue_inv 3 (shared s)"
proof -
  obtain s where s: "run_moves 3 (overlapping_calls (7::nat)) (queue_system_new 3) = Some s"
      "popped s = [7]" "issued s = [7]" "producer s 0 = None" "consumer s = None"
    using overlapping_calls_run [of 3 "7::nat"] by auto
  have "queue_system_reachable 3 1 s"
    by (rule run_moves_reachable [OF reach_new s(1) overlapping_calls_below])
  from spsc_linearizable [OF _ this] s show ?thesis
    by auto
qed

text \<open>C30: with two producers an order is lost although both pushes return true. Every client
  connection has its own thread and calls \<^verbatim>\<open>push\<close>, so this schedule is one of the gateway: both
  threads load the same tail, the second store overwrites the first element, both advance the
  tail to the same node. At the end no call is in progress, both callers hold true, and the
  queue holds the second element alone: the first is never popped nor deleted.\<close>

theorem two_producers_lose_an_order:
  assumes "1 < Size"
  shows "\<exists>s. queue_system_reachable Size 2 s \<and> returned s = [(x, True), (y, True)] \<and>
           (\<forall>p. producer s p = None) \<and> consumer s = None \<and> popped s = [] \<and>
           queue_inv Size (shared s) \<and> contents (shared s) = [y]"
proof -
  let ?ms = "[CallPush 0 x, CallPush 1 y] @ replicate 3 (StepPush 0) @ replicate 3 (StepPush 1) @
             replicate 4 (StepPush 0) @ replicate 4 (StepPush 1) @ [ReturnPush 0, ReturnPush 1]"
  obtain s where s: "run_moves Size ?ms (queue_system_new Size) = Some s"
      "returned s = [(x, True), (y, True)]" "producer s = (\<lambda>_. None)" "consumer s = None"
      "popped s = []" "shared s = snd (LockFreeQueue_push Size (Some y) (LockFreeQueue_new Size))"
    using assms
    by (simp add: queue_system_new_def LockFreeQueue_new_def nth_linked_nodes eval_nat_numeral
        LockFreeQueue_push_def store_data_def)
  have "queue_system_reachable Size 2 s"
    by (rule run_moves_reachable [OF reach_new s(1)]) (simp add: eval_nat_numeral)
  then show ?thesis
    using s(2-6) push_new_contents [OF assms, of y] by (intro exI [of _ s]) simp
qed

text \<open>\<^verbatim>\<open>size\<close> and \<^verbatim>\<open>empty\<close> are not linearizable even with one producer: the consumer may
  take the element before the producer has published the write position, and then the queue,
  from which everything pushed has been popped, reports \<^verbatim>\<open>Size - 1\<close> elements and is not empty.\<close>

theorem size_transiently_wrong:
  assumes "1 < Size"
  shows "\<exists>s. queue_system_reachable Size 1 s \<and> issued s = [x] \<and> popped s = [x] \<and>
           LockFreeQueue_size Size (shared s) = Size - 1 \<and> \<not> LockFreeQueue_empty (shared s)"
proof -
  let ?ms = "CallPush 0 x # replicate 4 (StepPush 0) @ CallPop # replicate 7 StepPop @ [ReturnPop]"
  obtain s where s: "run_moves Size ?ms (queue_system_new Size) = Some s"
      "issued s = [x]" "popped s = [x]" "m_write_pos (shared s) = 0" "m_read_pos (shared s) = 1"
    using assms
    by (simp add: queue_system_new_def LockFreeQueue_new_def nth_linked_nodes eval_nat_numeral)
  have "queue_system_reachable Size 1 s"
    by (rule run_moves_reachable [OF reach_new s(1)]) (simp add: eval_nat_numeral)
  then show ?thesis
    using s by (auto simp: LockFreeQueue_size_def LockFreeQueue_empty_def)
qed

theorem size_transiently_wrong_witness:
  "\<exists>s. queue_system_reachable 10000 1 s \<and> popped s = [()] \<and> LockFreeQueue_size 10000 (shared s) = 9999"
  using size_transiently_wrong [of 10000 "()"] by auto

theorem two_producers_lose_an_order_witness:
  "\<exists>s. queue_system_reachable 10000 2 s \<and> returned s = [(10::nat, True), (20, True)] \<and>
       contents (shared s) = [20]"
  using two_producers_lose_an_order [of 10000 "10::nat" 20] by auto

text \<open>The interleaved model and the sequential one agree: a push and a pop whose accesses are not
  interrupted are the operations of the sequential queue, result and state, in every state of the
  queue.\<close>

theorem uninterrupted_calls:
  "(push_step Size ^^ 7) (PushLoadWrite x, q) =
     (PushDone x (fst (LockFreeQueue_push Size (Some x) q)), snd (LockFreeQueue_push Size (Some x) q)) \<and>
   (pop_step Size ^^ 7) (PopLoadHead, q) =
     (PopDone (fst (LockFreeQueue_pop Size q)), snd (LockFreeQueue_pop Size q))"
  by (intro conjI push_alone pop_alone)

end
