(* ===== verification/Queue_Release_Acquire.thy ===== *)
theory Queue_Release_Acquire
  imports Queue_Concurrency
begin

text \<open>
  The queue of \<^verbatim>\<open>lockfree_queue/lockfree_queue.h\<close> with the memory orders the code asks for. The
  memory keeps every message ever stored to a location, with a time stamp and the view of the
  thread that stored it; a thread may load any message that is not older than its own view of
  the location. An acquiring load of a releasing store takes over the view of the message, a
  relaxed load only the time stamp. A store may take any free time stamp above the thread's
  view. This is the view machine of the release/acquire fragment of C++; there are no promises,
  since every store of the queue is releasing. The program counters are those of
  \<open>Queue_Concurrency\<close>, one producer and one consumer.
\<close>

section \<open>Memory\<close>

datatype memory_order = Relaxed | Acquire | Release

datatype location = Head | Tail | WritePos | ReadPos | DataOf nat | NextOf nat | Object nat

text \<open>
  \<open>Object i\<close> is what the \<open>i\<close>-th pushed pointer points to; it is written before the push, with
  a plain store.
\<close>

datatype 'a cell_value = Position nat | Link "nat option" | Item "'a option"

type_synonym view = "location \<Rightarrow> nat"
type_synonym 'a memory = "location \<Rightarrow> nat \<Rightarrow> ('a cell_value \<times> view) option"

datatype 'a access = Load memory_order location | Store memory_order location "'a cell_value" | NoAccess

fun perform_access ::
    "'a access \<Rightarrow> nat \<Rightarrow> 'a memory \<times> view \<Rightarrow> ('a cell_value \<times> 'a memory \<times> view) option" where
  "perform_access (Load ord l) t (mem, V) =
     (case mem l t of
        None \<Rightarrow> None
      | Some (v, U) \<Rightarrow>
          if t < V l then None
          else Some (v, mem, if ord = Acquire then sup (V(l := t)) U else V(l := t)))"
| "perform_access (Store ord l v) t (mem, V) =
     (if t \<le> V l \<or> mem l t \<noteq> None then None
      else let V' = V(l := t);
               U = (if ord = Release then V' else (\<lambda>_. 0)(l := t))
           in Some (v, mem(l := (mem l)(t \<mapsto> (v, U))), V'))"
| "perform_access NoAccess t mV = None"

section \<open>The accesses of push and pop\<close>

fun push_access_of :: "nat \<Rightarrow> 'a push_pc \<Rightarrow> 'a access" where
  "push_access_of Size (PushLoadWrite item) = Load Relaxed WritePos"
| "push_access_of Size (PushLoadRead item current_write) = Load Acquire ReadPos"
| "push_access_of Size (PushLoadTail item current_write) = Load Relaxed Tail"
| "push_access_of Size (PushStoreData item current_write tail) =
     Store Release (DataOf tail) (Item (Some item))"
| "push_access_of Size (PushLoadNext item current_write tail) = Load Relaxed (NextOf tail)"
| "push_access_of Size (PushStoreTail item current_write next) = Store Release Tail (Position next)"
| "push_access_of Size (PushStoreWrite item current_write) =
     Store Release WritePos (Position ((current_write + 1) mod Size))"
| "push_access_of Size (PushDone item result) = NoAccess"

fun push_next :: "nat \<Rightarrow> 'a push_pc \<Rightarrow> 'a cell_value \<Rightarrow> 'a push_pc" where
  "push_next Size (PushLoadWrite item) (Position k) = PushLoadRead item k"
| "push_next Size (PushLoadRead item current_write) (Position k) =
     (if (current_write + 1) mod Size = k then PushDone item False
      else PushLoadTail item current_write)"
| "push_next Size (PushLoadTail item current_write) (Position k) = PushStoreData item current_write k"
| "push_next Size (PushStoreData item current_write tail) v = PushLoadNext item current_write tail"
| "push_next Size (PushLoadNext item current_write tail) (Link (Some next)) =
     PushStoreTail item current_write next"
| "push_next Size (PushLoadNext item current_write tail) (Link None) = PushDone item False"
| "push_next Size (PushStoreTail item current_write next) v = PushStoreWrite item current_write"
| "push_next Size (PushStoreWrite item current_write) v = PushDone item True"
| "push_next Size pc v = pc"

fun pop_access_of :: "nat \<Rightarrow> 'a pop_pc \<Rightarrow> 'a access" where
  "pop_access_of Size PopLoadHead = Load Relaxed Head"
| "pop_access_of Size (PopLoadData head) = Load Acquire (DataOf head)"
| "pop_access_of Size (PopLoadNext head data) = Load Relaxed (NextOf head)"
| "pop_access_of Size (PopStoreData head data next) = Store Release (DataOf head) (Item None)"
| "pop_access_of Size (PopStoreHead data next) = Store Release Head (Position next)"
| "pop_access_of Size (PopLoadRead data) = Load Relaxed ReadPos"
| "pop_access_of Size (PopStoreRead data current_read) =
     Store Release ReadPos (Position ((current_read + 1) mod Size))"
| "pop_access_of Size (PopDone result) = NoAccess"

fun pop_next :: "'a pop_pc \<Rightarrow> 'a cell_value \<Rightarrow> 'a pop_pc" where
  "pop_next PopLoadHead (Position k) = PopLoadData k"
| "pop_next (PopLoadData head) (Item (Some data)) = PopLoadNext head data"
| "pop_next (PopLoadData head) (Item None) = PopDone None"
| "pop_next (PopLoadNext head data) (Link (Some next)) = PopStoreData head data next"
| "pop_next (PopLoadNext head data) (Link None) = PopDone None"
| "pop_next (PopStoreData head data next) v = PopStoreHead data next"
| "pop_next (PopStoreHead data next) v = PopLoadRead data"
| "pop_next (PopLoadRead data) (Position k) = PopStoreRead data k"
| "pop_next (PopStoreRead data current_read) v = PopDone (Some data)"
| "pop_next pc v = pc"

text \<open>
  The same program: on a memory with one value per location these accesses are the steps of
  \<open>Queue_Concurrency\<close>.
\<close>

fun value_at :: "'a LockFreeQueue \<Rightarrow> location \<Rightarrow> 'a cell_value" where
  "value_at q Head = Position (m_head q)"
| "value_at q Tail = Position (m_tail q)"
| "value_at q WritePos = Position (m_write_pos q)"
| "value_at q ReadPos = Position (m_read_pos q)"
| "value_at q (DataOf i) = Item (m_data (m_nodes q ! i))"
| "value_at q (NextOf i) = Link (m_next (m_nodes q ! i))"
| "value_at q (Object i) = Item None"

fun store_value :: "location \<Rightarrow> 'a cell_value \<Rightarrow> 'a LockFreeQueue \<Rightarrow> 'a LockFreeQueue" where
  "store_value Head (Position k) q = q\<lparr>m_head := k\<rparr>"
| "store_value Tail (Position k) q = q\<lparr>m_tail := k\<rparr>"
| "store_value WritePos (Position k) q = q\<lparr>m_write_pos := k\<rparr>"
| "store_value ReadPos (Position k) q = q\<lparr>m_read_pos := k\<rparr>"
| "store_value (DataOf i) (Item d) q = store_data i d q"
| "store_value l v q = q"

fun sc_access :: "'a access \<Rightarrow> 'a LockFreeQueue \<Rightarrow> 'a cell_value \<times> 'a LockFreeQueue" where
  "sc_access (Load ord l) q = (value_at q l, q)"
| "sc_access (Store ord l v) q = (v, store_value l v q)"
| "sc_access NoAccess q = (Item None, q)"

lemma next_link:
  "push_next Size (PushLoadNext x cw tail) (Link nx) =
     (case nx of None \<Rightarrow> PushDone x False | Some n \<Rightarrow> PushStoreTail x cw n)"
  "pop_next (PopLoadNext head y) (Link nx) =
     (case nx of None \<Rightarrow> PopDone None | Some n \<Rightarrow> PopStoreData head y n)"
  "pop_next (PopLoadData head) (Item d) = (case d of None \<Rightarrow> PopDone None | Some y \<Rightarrow> PopLoadNext head y)"
  by (simp_all split: option.split)

lemma push_step_access:
  "push_step Size (pc, q) = apfst (push_next Size pc) (sc_access (push_access_of Size pc) q)"
  by (cases pc) (simp_all split: option.split)

lemma pop_step_access:
  "pop_step Size (pc, q) = apfst (pop_next pc) (sc_access (pop_access_of Size pc) q)"
  by (cases pc) (simp_all split: option.split)

section \<open>The system\<close>

record 'a ra_system =
  ra_memory :: "'a memory"
  ra_pview :: view
  ra_cview :: view
  ra_producer :: "'a push_pc option"
  ra_consumer :: "'a pop_pc option"
  ra_issued :: "'a list"
  ra_returned :: "('a \<times> bool) list"
  ra_popped :: "'a list"

definition ra_memory_new :: "nat \<Rightarrow> 'a memory" where
  "ra_memory_new Size l t = (if t = 0 then Some (value_at (LockFreeQueue_new Size) l, \<lambda>_. 0) else None)"

definition ra_system_new :: "nat \<Rightarrow> 'a ra_system" where
  "ra_system_new Size =
     \<lparr>ra_memory = ra_memory_new Size, ra_pview = (\<lambda>_. 0), ra_cview = (\<lambda>_. 0), ra_producer = None,
      ra_consumer = None, ra_issued = [], ra_returned = [], ra_popped = []\<rparr>"

inductive ra_step :: "nat \<Rightarrow> 'a ra_system \<Rightarrow> 'a ra_system \<Rightarrow> bool" for Size :: nat where
  ra_push_call: "ra_producer s = None \<Longrightarrow>
    perform_access (Store Relaxed (Object (length (ra_issued s))) (Item (Some item))) t
      (ra_memory s, ra_pview s) = Some (v, mem', V') \<Longrightarrow>
    ra_step Size s (s\<lparr>ra_memory := mem', ra_pview := V', ra_producer := Some (PushLoadWrite item),
                      ra_issued := ra_issued s @ [item]\<rparr>)"
| ra_push_access: "ra_producer s = Some pc \<Longrightarrow>
    perform_access (push_access_of Size pc) t (ra_memory s, ra_pview s) = Some (v, mem', V') \<Longrightarrow>
    ra_step Size s (s\<lparr>ra_memory := mem', ra_pview := V', ra_producer := Some (push_next Size pc v)\<rparr>)"
| ra_push_return: "ra_producer s = Some (PushDone item result) \<Longrightarrow>
    ra_step Size s (s\<lparr>ra_producer := None, ra_returned := ra_returned s @ [(item, result)]\<rparr>)"
| ra_pop_call: "ra_consumer s = None \<Longrightarrow>
    ra_step Size s (s\<lparr>ra_consumer := Some PopLoadHead\<rparr>)"
| ra_pop_access: "ra_consumer s = Some pc \<Longrightarrow>
    perform_access (pop_access_of Size pc) t (ra_memory s, ra_cview s) = Some (v, mem', V') \<Longrightarrow>
    ra_step Size s (s\<lparr>ra_memory := mem', ra_cview := V', ra_consumer := Some (pop_next pc v)\<rparr>)"
| ra_pop_return: "ra_consumer s = Some (PopDone result) \<Longrightarrow>
    ra_step Size s
      (s\<lparr>ra_consumer := None, ra_popped := ra_popped s @ (case result of None \<Rightarrow> [] | Some x \<Rightarrow> [x])\<rparr>)"

inductive ra_reachable :: "nat \<Rightarrow> 'a ra_system \<Rightarrow> bool" for Size :: nat where
  ra_reach_new: "ra_reachable Size (ra_system_new Size)"
| ra_reach_step: "ra_reachable Size s \<Longrightarrow> ra_step Size s s' \<Longrightarrow> ra_reachable Size s'"

section \<open>Views\<close>

text \<open>
  A thread owns a location when no message there is newer than its view; a view is grounded when
  it points to existing messages. \<open>last_value\<close> is the value of the newest message.
\<close>

definition owns :: "'a memory \<Rightarrow> view \<Rightarrow> location \<Rightarrow> bool" where
  "owns mem V l \<longleftrightarrow> (\<forall>t>V l. mem l t = None)"

definition grounded :: "'a memory \<Rightarrow> view \<Rightarrow> bool" where
  "grounded mem V \<longleftrightarrow> (\<forall>l. mem l (V l) \<noteq> None)"

definition all_grounded :: "'a memory \<Rightarrow> bool" where
  "all_grounded mem \<longleftrightarrow> grounded mem (\<lambda>_. 0) \<and> (\<forall>l t v U. mem l t = Some (v, U) \<longrightarrow> grounded mem U)"

definition last_value :: "'a memory \<Rightarrow> location \<Rightarrow> 'a cell_value \<Rightarrow> bool" where
  "last_value mem l v \<longleftrightarrow> (\<exists>t U. mem l t = Some (v, U) \<and> (\<forall>t'>t. mem l t' = None))"

text \<open>A view that can only see one value of the object of push \<open>i\<close>.\<close>

definition visible :: "'a memory \<Rightarrow> view \<Rightarrow> nat \<Rightarrow> 'a \<Rightarrow> bool" where
  "visible mem V i x \<longleftrightarrow>
     (\<forall>t v U. V (Object i) \<le> t \<longrightarrow> mem (Object i) t = Some (v, U) \<longrightarrow> v = Item (Some x))"

lemma owns_mono: "owns mem V l \<Longrightarrow> V \<le> V' \<Longrightarrow> owns mem V' l"
  by (meson le_funD order.strict_trans1 owns_def)

lemma visible_mono: "visible mem V i x \<Longrightarrow> V \<le> V' \<Longrightarrow> visible mem V' i x"
  unfolding visible_def by (meson le_funD order_trans)

lemma grounded_sup: "grounded mem V \<Longrightarrow> grounded mem U \<Longrightarrow> grounded mem (sup V U)"
  by (auto simp: grounded_def sup_max max_def)

lemma grounded_upd: "grounded mem V \<Longrightarrow> mem l t \<noteq> None \<Longrightarrow> grounded mem (V(l := t))"
  by (simp add: grounded_def)

text \<open>The owner of a location loads its newest value.\<close>

lemma owner_loads:
  assumes "owns mem V l" and "grounded mem V" and "last_value mem l v"
    and "V l \<le> t" and "mem l t = Some (w, U)"
  shows "w = v"
proof -
  obtain t' U' where t': "mem l t' = Some (v, U')" "\<forall>t''>t'. mem l t'' = None"
    using assms(3) by (auto simp: last_value_def)
  have "t = V l"
    using assms(1,4,5) by (metis le_neq_implies_less option.distinct(1) owns_def)
  moreover have "t' \<le> V l"
    using assms(1) t'(1) by (metis not_le option.distinct(1) owns_def)
  moreover have "V l \<le> t'"
    using assms(2) t'(2) by (metis grounded_def not_le)
  ultimately show ?thesis
    using assms(5) t'(1) by simp
qed

lemma perform_load:
  assumes "perform_access (Load ord l) t (mem, V) = Some (v, mem', V')"
    and "grounded mem V" and "all_grounded mem"
  obtains U where "mem l t = Some (v, U)" and "V l \<le> t" and "mem' = mem" and "V \<le> V'"
    and "V' l = max t (V' l)" and "grounded mem V'" and "ord = Acquire \<longrightarrow> U \<le> V'"
proof -
  obtain U where U: "mem l t = Some (v, U)" "V l \<le> t" "mem' = mem"
      "V' = (if ord = Acquire then sup (V(l := t)) U else V(l := t))"
    using assms(1) by (auto split: option.splits if_splits)
  have "V \<le> V(l := t)"
    using U(2) by (simp add: le_fun_def)
  then have "V \<le> V'"
    unfolding U(4) by (auto intro: le_supI1)
  moreover have "grounded mem V'"
    using U assms(2,3) by (auto simp: all_grounded_def intro!: grounded_sup grounded_upd)
  moreover have "V' l = max t (V' l)"
    unfolding U(4) by (simp add: sup_max)
  ultimately show ?thesis
    using that U by auto
qed

text \<open>What a store adds: one message, which the owner of the location makes the newest.\<close>

lemma perform_store:
  assumes "perform_access (Store ord l w) t (mem, V) = Some (v, mem', V')"
    and "grounded mem V" and "all_grounded mem"
  obtains U where "v = w" and "mem' = mem(l := (mem l)(t \<mapsto> (w, U)))" and "V' = V(l := t)"
    and "V l < t" and "mem l t = None" and "grounded mem' V'" and "all_grounded mem'"
    and "ord = Release \<longrightarrow> U = V'" and "V \<le> V'"
proof -
  obtain U where U: "v = w" "mem' = mem(l := (mem l)(t \<mapsto> (w, U)))" "V' = V(l := t)"
      "V l < t" "mem l t = None" "U = (if ord = Release then V' else (\<lambda>_. 0)(l := t))"
    using assms(1) by (cases "mem l t") (auto simp: Let_def split: if_splits)
  have keep: "grounded mem' X" if "grounded mem X" for X
    using that U(2) by (auto simp: grounded_def)
  have V': "grounded mem' V'"
    using keep [OF assms(2)] U(2,3) by (auto intro: grounded_upd)
  have zero: "grounded mem' (\<lambda>_. 0)"
    using keep assms(3) by (simp add: all_grounded_def)
  then have "grounded mem' U"
    using U(2,6) V' by (auto intro: grounded_upd)
  then have "all_grounded mem'"
    using zero keep assms(3) U(2) unfolding all_grounded_def by (auto split: if_splits)
  moreover have "V \<le> V'"
    using U(3,4) by (simp add: le_fun_def)
  ultimately show ?thesis
    using that U V' by auto
qed

lemma owns_store: "owns mem V l \<Longrightarrow> V l < t \<Longrightarrow> owns (mem(l := (mem l)(t \<mapsto> m))) (V(l := t)) l"
  by (simp add: owns_def)

lemma owns_other: "l \<noteq> l' \<Longrightarrow> owns (mem(l' := f)) V l = owns mem V l"
  by (simp add: owns_def)

lemma last_value_store:
  "owns mem V l \<Longrightarrow> V l < t \<Longrightarrow> last_value (mem(l := (mem l)(t \<mapsto> (v, U)))) l v"
  by (fastforce simp: last_value_def owns_def)

lemma last_value_other: "l \<noteq> l' \<Longrightarrow> last_value (mem(l' := f)) l v = last_value mem l v"
  by (simp add: last_value_def)

lemma visible_other: "Object i \<noteq> l \<Longrightarrow> visible (mem(l := f)) V i x = visible mem V i x"
  by (simp add: visible_def)

lemmas other_location = owns_other last_value_other visible_other

section \<open>The invariant\<close>

text \<open>
  The newest messages form a queue \<open>q\<close> for which the invariant of the sequentially consistent
  system holds. Each thread owns the locations only it stores to; the consumer comes to own a cell
  when it loads its item. Of the older messages only three kinds are ever loaded: read positions,
  which are never too large, links, which never change, and empty cells.
\<close>

definition sc_system :: "'a LockFreeQueue \<Rightarrow> 'a ra_system \<Rightarrow> 'a queue_system" where
  "sc_system q s =
     \<lparr>shared = q, producer = (\<lambda>_. None)(0 := ra_producer s), consumer = ra_consumer s,
      issued = ra_issued s, returned = ra_returned s, popped = ra_popped s\<rparr>"

fun stored_location :: "nat \<Rightarrow> location \<Rightarrow> bool" where
  "stored_location Size (DataOf i) \<longleftrightarrow> i < Size"
| "stored_location Size (NextOf i) \<longleftrightarrow> i < Size"
| "stored_location Size (Object i) \<longleftrightarrow> False"
| "stored_location Size l \<longleftrightarrow> True"

definition represents :: "nat \<Rightarrow> 'a memory \<Rightarrow> 'a LockFreeQueue \<Rightarrow> bool" where
  "represents Size mem q \<longleftrightarrow>
     all_grounded mem \<and> (\<forall>l. stored_location Size l \<longrightarrow> last_value mem l (value_at q l))"

definition item_message :: "nat \<Rightarrow> 'a list \<Rightarrow> 'a memory \<Rightarrow> nat \<Rightarrow> nat \<Rightarrow> 'a cell_value \<Rightarrow> view \<Rightarrow> bool" where
  "item_message W xs mem i t v U \<longleftrightarrow>
     v = Item None \<or>
     i < W \<and> v = Item (Some (xs ! i)) \<and> visible mem U i (xs ! i) \<and> (\<forall>t'>t. mem (DataOf i) t' = None)"

definition messages_ok :: "nat \<Rightarrow> nat \<Rightarrow> nat \<Rightarrow> 'a list \<Rightarrow> 'a memory \<Rightarrow> bool" where
  "messages_ok Size H W xs mem \<longleftrightarrow>
     (\<forall>t v U. mem ReadPos t = Some (v, U) \<longrightarrow> (\<exists>k\<le>W. v = Position k)) \<and>
     (\<forall>i<Size. \<forall>t v U. mem (NextOf i) t = Some (v, U) \<longrightarrow>
        v = Link (if Suc i < Size then Some (Suc i) else None)) \<and>
     (\<forall>i t v U. mem (DataOf i) t = Some (v, U) \<longrightarrow>
        (\<exists>d. v = Item d) \<and> (H \<le> i \<longrightarrow> Suc i < Size \<longrightarrow> item_message W xs mem i t v U)) \<and>
     (\<forall>i\<ge>length xs. \<forall>t>0. mem (Object i) t = None)"

definition producer_view_ok :: "nat \<Rightarrow> 'a list \<Rightarrow> 'a memory \<Rightarrow> view \<Rightarrow> bool" where
  "producer_view_ok W xs mem V \<longleftrightarrow>
     grounded mem V \<and> owns mem V Tail \<and> owns mem V WritePos \<and> (\<forall>i\<ge>W. owns mem V (DataOf i)) \<and>
     (\<forall>i<length xs. visible mem V i (xs ! i))"

fun taken :: "nat \<Rightarrow> nat \<Rightarrow> 'a pop_pc option \<Rightarrow> bool" where
  "taken Size h (Some (PopLoadNext head x)) \<longleftrightarrow> Suc h < Size"
| "taken Size h (Some (PopStoreData head x next)) \<longleftrightarrow> True"
| "taken Size h pc \<longleftrightarrow> False"

definition seen_count :: "nat \<Rightarrow> nat \<Rightarrow> 'a pop_pc option \<Rightarrow> nat" where
  "seen_count Size h pc = (if taken Size h pc then Suc h else read_count h pc)"

definition consumer_view_ok ::
    "nat \<Rightarrow> nat \<Rightarrow> 'a pop_pc option \<Rightarrow> 'a list \<Rightarrow> 'a memory \<Rightarrow> view \<Rightarrow> bool" where
  "consumer_view_ok Size h pc xs mem V \<longleftrightarrow>
     grounded mem V \<and> owns mem V Head \<and> owns mem V ReadPos \<and>
     (taken Size h pc \<longrightarrow> owns mem V (DataOf h)) \<and>
     (\<forall>i < seen_count Size h pc. visible mem V i (xs ! i))"

abbreviation ra_write_count :: "nat \<Rightarrow> 'a ra_system \<Rightarrow> nat" where
  "ra_write_count Size s \<equiv> write_count Size (length (ra_returned s)) (ra_producer s)"

definition ra_inv_for :: "nat \<Rightarrow> 'a LockFreeQueue \<Rightarrow> 'a ra_system \<Rightarrow> bool" where
  "ra_inv_for Size q s \<longleftrightarrow>
     spsc_inv Size (sc_system q s) \<and>
     represents Size (ra_memory s) q \<and>
     messages_ok Size (read_count (m_head q) (ra_consumer s)) (ra_write_count Size s) (ra_issued s)
       (ra_memory s) \<and>
     producer_view_ok (ra_write_count Size s) (ra_issued s) (ra_memory s) (ra_pview s) \<and>
     consumer_view_ok Size (m_head q) (ra_consumer s) (ra_issued s) (ra_memory s) (ra_cview s)"

definition ra_inv :: "nat \<Rightarrow> 'a ra_system \<Rightarrow> bool" where
  "ra_inv Size s \<longleftrightarrow> (\<exists>q. ra_inv_for Size q s)"

lemma ra_inv_forD:
  assumes "ra_inv_for Size q s"
  shows "spsc_inv Size (sc_system q s)" and "represents Size (ra_memory s) q"
    and "messages_ok Size (read_count (m_head q) (ra_consumer s)) (ra_write_count Size s)
           (ra_issued s) (ra_memory s)"
    and "producer_view_ok (ra_write_count Size s) (ra_issued s) (ra_memory s) (ra_pview s)"
    and "consumer_view_ok Size (m_head q) (ra_consumer s) (ra_issued s) (ra_memory s) (ra_cview s)"
  using assms by (simp_all add: ra_inv_for_def)

lemma ra_new: "0 < Size \<Longrightarrow> ra_inv Size (ra_system_new Size)"
proof -
  assume size: "0 < Size"
  let ?q = "LockFreeQueue_new Size :: 'a LockFreeQueue"
  have "sc_system ?q (ra_system_new Size) = queue_system_new Size"
    by (simp add: sc_system_def ra_system_new_def queue_system_new_def)
  then have "spsc_inv Size (sc_system ?q (ra_system_new Size))"
    using spsc_new [OF size] by simp
  moreover have "represents Size (ra_memory_new Size) ?q"
    by (simp add: represents_def all_grounded_def grounded_def ra_memory_new_def last_value_def)
  moreover have "messages_ok Size 0 0 [] (ra_memory_new Size :: 'a memory)"
    by (auto simp: messages_ok_def ra_memory_new_def item_message_def LockFreeQueue_new_def linked_nodes_def
        split: if_splits)
  ultimately have "ra_inv_for Size ?q (ra_system_new Size)"
    by (simp add: ra_inv_for_def ra_system_new_def write_count_def producer_view_ok_def
        consumer_view_ok_def seen_count_def grounded_def owns_def ra_memory_new_def)
       (simp add: LockFreeQueue_new_def)
  then show ?thesis
    by (auto simp: ra_inv_def)
qed

section \<open>Its preservation\<close>

subsection \<open>Messages\<close>

lemma messages_okD:
  assumes "messages_ok Size H W xs mem"
  shows "mem ReadPos t = Some (v, U) \<Longrightarrow> \<exists>k\<le>W. v = Position k"
    and "mem (NextOf i) t = Some (v, U) \<Longrightarrow> i < Size \<Longrightarrow>
           v = Link (if Suc i < Size then Some (Suc i) else None)"
    and "mem (DataOf i) t = Some (v, U) \<Longrightarrow> \<exists>d. v = Item d"
    and "mem (DataOf i) t = Some (v, U) \<Longrightarrow> H \<le> i \<Longrightarrow> Suc i < Size \<Longrightarrow> item_message W xs mem i t v U"
    and "length xs \<le> i \<Longrightarrow> 0 < t \<Longrightarrow> mem (Object i) t = None"
  using assms unfolding messages_ok_def by blast+

lemma messages_okI:
  assumes "\<And>t v U. mem ReadPos t = Some (v, U) \<Longrightarrow> \<exists>k\<le>W. v = Position k"
    and "\<And>i t v U. mem (NextOf i) t = Some (v, U) \<Longrightarrow> i < Size \<Longrightarrow>
           v = Link (if Suc i < Size then Some (Suc i) else None)"
    and "\<And>i t v U. mem (DataOf i) t = Some (v, U) \<Longrightarrow> \<exists>d. v = Item d"
    and "\<And>i t v U. mem (DataOf i) t = Some (v, U) \<Longrightarrow> H \<le> i \<Longrightarrow> Suc i < Size \<Longrightarrow>
           item_message W xs mem i t v U"
    and "\<And>i t. length xs \<le> i \<Longrightarrow> 0 < t \<Longrightarrow> mem (Object i) t = None"
  shows "messages_ok Size H W xs mem"
  using assms unfolding messages_ok_def by blast

lemma item_message_mono: "item_message W xs mem i t v U \<Longrightarrow> W \<le> W' \<Longrightarrow> item_message W' xs mem i t v U"
  by (auto simp: item_message_def)

lemma messages_ok_mono:
  assumes "messages_ok Size H W xs mem" and "H \<le> H'" and "W \<le> W'"
  shows "messages_ok Size H' W' xs mem"
proof (rule messages_okI)
  show "\<exists>k\<le>W'. v = Position k" if "mem ReadPos t = Some (v, U)" for t v U
    using messages_okD(1) [OF assms(1) that] assms(3) order_trans by blast
  show "item_message W' xs mem i t v U"
    if "mem (DataOf i) t = Some (v, U)" "H' \<le> i" "Suc i < Size" for i t v U
    using messages_okD(4) [OF assms(1) that(1) _ that(3)] assms(2,3) that(2)
    by (auto intro: item_message_mono)
qed (use messages_okD(2,3,5) [OF assms(1)] in blast)+

lemma messages_ok_position:
  "l \<in> {Head, Tail, WritePos} \<Longrightarrow> messages_ok Size H W xs (mem(l := f)) = messages_ok Size H W xs mem"
  by (cases l) (simp_all add: messages_ok_def item_message_def visible_other)

lemma messages_ok_read:
  "messages_ok Size H W xs mem \<Longrightarrow> k \<le> W \<Longrightarrow>
   messages_ok Size H W xs (mem(ReadPos := (mem ReadPos)(t \<mapsto> (Position k, U))))"
  by (auto simp: messages_ok_def item_message_def visible_other)

lemma messages_ok_data_free:
  assumes "messages_ok Size H W xs mem" and "j < H \<or> Size \<le> Suc j"
  shows "messages_ok Size H W xs (mem(DataOf j := (mem (DataOf j))(t \<mapsto> (Item d, U))))"
  using assms by (auto simp: messages_ok_def item_message_def visible_other)

lemma messages_ok_data:
  assumes "messages_ok Size H W xs mem" and "owns mem V (DataOf W)" and "V (DataOf W) < t"
    and "visible mem U W (xs ! W)"
  shows "messages_ok Size H (Suc W) xs
           (mem(DataOf W := (mem (DataOf W))(t \<mapsto> (Item (Some (xs ! W)), U))))"
proof (rule messages_okI, goal_cases)
  case (1 t' v U')
  then show ?case
    using messages_okD(1) [OF assms(1)] le_SucI by force
next
  case (2 i t' v U')
  then show ?case
    using messages_okD(2) [OF assms(1)] by simp
next
  case (3 i t' v U')
  then show ?case
    using messages_okD(3) [OF assms(1), of i t' v U'] by (auto split: if_splits)
next
  case (5 i t')
  then show ?case
    using messages_okD(5) [OF assms(1)] by simp
next
  case (4 i t' v U')
  let ?mem = "mem(DataOf W := (mem (DataOf W))(t \<mapsto> (Item (Some (xs ! W)), U)))"
  show ?case
  proof (cases "i = W \<and> t' = t")
    case True
    then show ?thesis
      using 4(1) assms(2-4) by (auto simp: item_message_def visible_other owns_def)
  next
    case False
    then have "item_message W xs mem i t' v U'"
      using 4 messages_okD(4) [OF assms(1)] by (auto split: if_splits)
    then show ?thesis
      using False by (auto simp: item_message_def visible_other)
  qed
qed

lemma visible_object:
  "i < k \<Longrightarrow> visible (mem(Object k := f)) V i x = visible mem V i x"
  by (simp add: visible_other)

lemma messages_ok_object:
  assumes "messages_ok Size H W xs mem" and "W \<le> length xs"
  shows "messages_ok Size H W (xs @ [x])
           (mem(Object (length xs) := (mem (Object (length xs)))(t \<mapsto> m)))"
proof (rule messages_okI, goal_cases)
  case (4 i t' v U)
  then have "item_message W xs mem i t' v U"
    using messages_okD(4) [OF assms(1)] by auto
  then show ?case
    using assms(2) by (auto simp: item_message_def visible_object nth_append)
qed (use messages_okD [OF assms(1)] in auto)

subsection \<open>The producer\<close>

lemma representsD:
  assumes "represents Size mem q"
  shows "all_grounded mem" and "stored_location Size l \<Longrightarrow> last_value mem l (value_at q l)"
  using assms by (auto simp: represents_def)

lemma cells_atD:
  assumes "cells_at Size H W xs ns"
  shows "length ns = Size" "H \<le> W" "W \<le> length xs" "W < Size"
    and "i < Size \<Longrightarrow> m_next (ns ! i) = (if Suc i < Size then Some (Suc i) else None)"
    and "Suc i < Size \<Longrightarrow> m_data (ns ! i) = (if H \<le> i \<and> i < W then Some (xs ! i) else None)"
  using assms unfolding cells_at_def by blast+

lemma sc_system_simps [simp]:
  "producer (sc_system q s) 0 = ra_producer s" "shared (sc_system q s) = q"
  "consumer (sc_system q s) = ra_consumer s" "issued (sc_system q s) = ra_issued s"
  "returned (sc_system q s) = ra_returned s" "popped (sc_system q s) = ra_popped s"
  by (simp_all add: sc_system_def)

lemma sc_push_access:
  assumes "spsc_inv Size (sc_system q s)" and "ra_producer s = Some pc"
    and "sc_access (push_access_of Size pc) q = (v, q')"
  shows "spsc_inv Size (sc_system q' (s\<lparr>ra_memory := mem, ra_pview := V, ra_producer := Some (push_next Size pc v)\<rparr>))"
  using spsc_push_access [OF assms(1), of pc "push_next Size pc v" q'] assms(2,3)
  by (simp add: push_step_access) (simp add: sc_system_def)

lemma producer_at_tail:
  assumes "spsc_inv Size (sc_system q s)"
  shows "producer_at Size (length (ra_returned s)) (ra_issued s) (m_tail q) (m_write_pos q) (ra_producer s)"
    and "cells_at Size (read_count (m_head q) (ra_consumer s)) (ra_write_count Size s) (ra_issued s)
           (m_nodes q)"
    and "consumer_at Size (ra_write_count Size s) (ra_issued s) (ra_popped s) (m_head q)
           (m_read_pos q) (ra_consumer s)"
  using spsc_invD(3-5) [OF assms] by simp_all

lemma ra_producer_load:
  assumes "ra_inv_for Size q s" and "ra_pview s \<le> V" and "grounded (ra_memory s) V"
    and "write_count Size (length (ra_returned s)) (Some pc) = ra_write_count Size s"
    and "spsc_inv Size
      (sc_system q (s\<lparr>ra_memory := ra_memory s, ra_pview := V, ra_producer := Some pc\<rparr>))"
  shows "ra_inv_for Size q (s\<lparr>ra_memory := ra_memory s, ra_pview := V, ra_producer := Some pc\<rparr>)"
proof -
  note d = ra_inv_forD [OF assms(1)]
  have "producer_view_ok (ra_write_count Size s) (ra_issued s) (ra_memory s) V"
    using d(4) assms(2,3) by (auto simp: producer_view_ok_def intro: owns_mono visible_mono)
  then show ?thesis
    using d(2,3,5) assms(4,5) by (simp add: ra_inv_for_def)
qed

lemma read_pos_full:
  assumes "spsc_inv Size (sc_system q s)" and "ra_producer s = Some (PushLoadRead x cw)"
    and "k \<le> ra_write_count Size s" and "(cw + 1) mod Size = k"
  shows "Size - 1 \<le> length (ra_returned s)"
  using producer_at_tail(1) [OF assms(1)] cells_atD(4) [OF producer_at_tail(2) [OF assms(1)]] assms(2-4)
  by (auto simp: write_count_def mod_Suc min_def split: if_splits)

lemma producer_at_read:
  assumes "producer_at Size n xs t w (Some (PushLoadRead x cw))" and "full \<Longrightarrow> Size - 1 \<le> n"
  shows "producer_at Size n xs t w (Some (if full then PushDone x False else PushLoadTail x cw))"
  using assms by (cases full) auto

lemma ra_inv_grounded:
  assumes "ra_inv_for Size q s"
  shows "grounded (ra_memory s) (ra_pview s)" and "grounded (ra_memory s) (ra_cview s)"
    and "all_grounded (ra_memory s)"
  using ra_inv_forD(2,4,5) [OF assms]
  by (simp_all add: producer_view_ok_def consumer_view_ok_def represents_def)

text \<open>A load of the newest value is a step of the sequentially consistent system.\<close>

lemma ra_push_load_latest:
  assumes "ra_inv_for Size q s" and "ra_producer s = Some pc"
    and "push_access_of Size pc = Load ord l" and "l \<noteq> ReadPos"
    and "ra_pview s \<le> V'" and "grounded (ra_memory s) V'" and "v = value_at q l"
  shows "ra_inv_for Size q
           (s\<lparr>ra_memory := ra_memory s, ra_pview := V', ra_producer := Some (push_next Size pc v)\<rparr>)"
proof (rule ra_producer_load [OF assms(1,5,6)])
  show "spsc_inv Size (sc_system q
      (s\<lparr>ra_memory := ra_memory s, ra_pview := V', ra_producer := Some (push_next Size pc v)\<rparr>))"
    using assms(3,7) by (intro sc_push_access [OF ra_inv_forD(1) [OF assms(1)] assms(2)]) simp
  show "write_count Size (length (ra_returned s)) (Some (push_next Size pc v)) = ra_write_count Size s"
    using assms(2-4,7) by (cases pc) (auto simp: write_count_def next_link split: option.split)
qed

text \<open>A stale read position only makes the queue look fuller than it is.\<close>

lemma ra_push_load_read:
  assumes "ra_inv_for Size q s" and "ra_producer s = Some (PushLoadRead x cw)"
    and "ra_pview s \<le> V'" and "grounded (ra_memory s) V'" and "ra_memory s ReadPos t = Some (v, U)"
  shows "ra_inv_for Size q
           (s\<lparr>ra_memory := ra_memory s, ra_pview := V',
              ra_producer := Some (push_next Size (PushLoadRead x cw) v)\<rparr>)"
proof -
  note d = ra_inv_forD [OF assms(1)]
  note p = producer_at_tail [OF d(1)]
  obtain k where k: "v = Position k" "k \<le> ra_write_count Size s"
    using messages_okD(1) [OF d(3) assms(5)] by blast
  let ?pc = "push_next Size (PushLoadRead x cw) v"
  have full: "(cw + 1) mod Size = k \<Longrightarrow> Size - 1 \<le> length (ra_returned s)"
    using read_pos_full [OF d(1) assms(2)] k(2) by blast
  have W: "write_count Size (length (ra_returned s)) (Some ?pc) = ra_write_count Size s"
    using k(1) full assms(2) by (auto simp: write_count_def)
  have P: "producer_at Size (length (ra_returned s)) (ra_issued s) (m_tail q) (m_write_pos q) (Some ?pc)"
    using producer_at_read [of Size _ _ _ _ x cw "(cw + 1) mod Size = k"] p(1) k(1) full assms(2)
    by (simp only: push_next.simps)
  have "spsc_inv Size
      ((sc_system q s)\<lparr>producer := (producer (sc_system q s))(0 := Some ?pc), shared := q\<rparr>)"
  proof (rule spsc_producer_move [OF d(1)], unfold sc_system_simps W)
  qed (use P p(2) in \<open>simp_all only: order_refl\<close>)
  then show ?thesis
    by (intro ra_producer_load [OF assms(1,3,4) W]) (simp add: sc_system_def)
qed

lemma ra_push_load:
  assumes "ra_inv_for Size q s" and "ra_producer s = Some pc"
    and "push_access_of Size pc = Load ord l"
    and "perform_access (Load ord l) t (ra_memory s, ra_pview s) = Some (v, mem', V')"
  shows "ra_inv_for Size q
           (s\<lparr>ra_memory := mem', ra_pview := V', ra_producer := Some (push_next Size pc v)\<rparr>)"
proof -
  note d = ra_inv_forD [OF assms(1)]
  note g = ra_inv_grounded [OF assms(1)]
  note p = producer_at_tail [OF d(1)]
  obtain U where U: "ra_memory s l t = Some (v, U)" "ra_pview s l \<le> t" "mem' = ra_memory s"
      "ra_pview s \<le> V'" "grounded (ra_memory s) V'"
    by (rule perform_load [OF assms(4) g(1,3)]) blast
  note latest = ra_push_load_latest [OF assms(1-3) _ U(4,5)]
  have owned: "v = value_at q l" if "owns (ra_memory s) (ra_pview s) l" "stored_location Size l"
    by (rule owner_loads [OF that(1) g(1) representsD(2) [OF d(2) that(2)] U(2,1)])
  show ?thesis
  proof (cases pc)
    case (PushLoadNext x cw tail)
    then have "tail < Size" "l = NextOf tail"
      using p(1) cells_atD(4) [OF p(2)] assms(2,3) by simp_all
    then show ?thesis
      using latest messages_okD(2) [OF d(3), of tail t v U] U(1,3) cells_atD(5) [OF p(2)] by simp
  next
    case (PushLoadRead x cw)
    then show ?thesis
      using ra_push_load_read [OF assms(1) _ U(4,5)] assms(2,3) U(1,3) by simp
  qed (use latest owned assms(3) d(4) U(3) in \<open>auto simp: producer_view_ok_def\<close>)
qed

text \<open>A store by the owner of a location is a store to the queue of newest messages.\<close>

fun storable :: "'a LockFreeQueue \<Rightarrow> location \<Rightarrow> 'a cell_value \<Rightarrow> bool" where
  "storable q (DataOf i) (Item d) \<longleftrightarrow> i < length (m_nodes q)"
| "storable q Head (Position k) \<longleftrightarrow> True"
| "storable q Tail (Position k) \<longleftrightarrow> True"
| "storable q WritePos (Position k) \<longleftrightarrow> True"
| "storable q ReadPos (Position k) \<longleftrightarrow> True"
| "storable q l v \<longleftrightarrow> False"

lemma value_at_store:
  "storable q l w \<Longrightarrow> value_at (store_value l w q) l' = (if l' = l then w else value_at q l')"
  by (cases l; cases w; cases l') (auto simp: store_data_def nth_list_update)

lemma represents_store:
  assumes "represents Size mem q" and "owns mem V l" and "V l < t" and "storable q l w"
    and "all_grounded (mem(l := (mem l)(t \<mapsto> (w, U))))"
  shows "represents Size (mem(l := (mem l)(t \<mapsto> (w, U)))) (store_value l w q)"
  unfolding represents_def
proof (intro conjI allI impI)
  fix l' assume "stored_location Size l'"
  then show "last_value (mem(l := (mem l)(t \<mapsto> (w, U)))) l' (value_at (store_value l w q) l')"
    using last_value_store [OF assms(2,3)] representsD(2) [OF assms(1)]
    by (cases "l' = l") (simp_all add: value_at_store [OF assms(4)] last_value_other)
qed (rule assms(5))

lemma consumer_view_other:
  assumes "consumer_view_ok Size h pc xs mem V" and "l \<notin> {Head, ReadPos}"
    and "\<And>i. l \<noteq> Object i" and "taken Size h pc \<Longrightarrow> l \<noteq> DataOf h"
  shows "consumer_view_ok Size h pc xs (mem(l := (mem l)(t \<mapsto> m))) V"
proof -
  have "grounded (mem(l := (mem l)(t \<mapsto> m))) V"
    using assms(1) by (auto simp: consumer_view_ok_def grounded_def)
  moreover have "owns (mem(l := (mem l)(t \<mapsto> m))) V (DataOf h)" if "taken Size h pc"
    using assms(1) assms(4) [OF that] that by (auto simp: consumer_view_ok_def owns_other)
  ultimately show ?thesis
    using assms(1,2) assms(3) [symmetric] unfolding consumer_view_ok_def
    by (auto simp: owns_other visible_other)
qed

lemma taken_below:
  assumes "consumer_at Size W xs out h r pc" and "taken Size h pc"
  shows "h < W"
  using assms by (cases "(Size, h, pc)" rule: taken.cases) auto

lemma producer_view_store:
  assumes "producer_view_ok W xs mem V" and "V l < t" and "W \<le> W'" and "owns mem V l"
    and "\<And>i. l \<noteq> Object i" and "grounded (mem(l := (mem l)(t \<mapsto> m))) (V(l := t))"
  shows "producer_view_ok W' xs (mem(l := (mem l)(t \<mapsto> m))) (V(l := t))"
proof -
  let ?mem = "mem(l := (mem l)(t \<mapsto> m))"
  have V: "V \<le> V(l := t)"
    using assms(2) by (simp add: le_fun_def)
  have own: "owns ?mem (V(l := t)) l'" if "owns mem V l'" for l'
    using that owns_store [OF assms(4,2)] owns_mono [OF _ V] by (cases "l' = l") (simp_all add: owns_other)
  have "visible ?mem (V(l := t)) i (xs ! i)" if "i < length xs" for i
    using assms(1) assms(5) [symmetric] that visible_mono [OF _ V, of mem i "xs ! i"]
    by (simp add: producer_view_ok_def visible_other)
  then show ?thesis
    using assms(1,3,6) own by (auto simp: producer_view_ok_def)
qed

lemma ra_producer_store:
  assumes "ra_inv_for Size q s" and "ra_producer s = Some pc"
    and "push_access_of Size pc = Store Release l w"
    and "perform_access (Store Release l w) t (ra_memory s, ra_pview s) = Some (v, mem', V')"
    and "owns (ra_memory s) (ra_pview s) l" and "storable q l w" and "l \<notin> {Head, ReadPos}"
    and "taken Size (m_head q) (ra_consumer s) \<Longrightarrow> l \<noteq> DataOf (m_head q)"
    and "ra_write_count Size s \<le> W'"
      "W' = write_count Size (length (ra_returned s)) (Some (push_next Size pc v))"
    and "messages_ok Size (read_count (m_head q) (ra_consumer s)) W' (ra_issued s) mem'"
  shows "ra_inv Size
           (s\<lparr>ra_memory := mem', ra_pview := V', ra_producer := Some (push_next Size pc v)\<rparr>)"
proof -
  note d = ra_inv_forD [OF assms(1)]
  note g = ra_inv_grounded(1,3) [OF assms(1)]
  obtain U where U: "v = w" "mem' = (ra_memory s)(l := (ra_memory s l)(t \<mapsto> (w, U)))"
      "V' = (ra_pview s)(l := t)" "ra_pview s l < t" "grounded mem' V'" "all_grounded mem'"
    by (rule perform_store [OF assms(4) g]) blast
  let ?q = "store_value l w q"
  let ?s = "s\<lparr>ra_memory := mem', ra_pview := V', ra_producer := Some (push_next Size pc v)\<rparr>"
  have obj: "l \<noteq> Object i" for i
    using assms(6) by auto
  have head: "m_head ?q = m_head q"
    using assms(7) by (cases "(l, w, q)" rule: store_value.cases) auto
  have "spsc_inv Size (sc_system ?q ?s)"
    using assms(3) U(1) by (intro sc_push_access [OF d(1) assms(2)]) simp
  moreover have "represents Size mem' ?q"
    using represents_store [OF d(2) assms(5) U(4) assms(6)] U(2,6) by simp
  moreover have "producer_view_ok W' (ra_issued s) mem' V'"
    using producer_view_store [OF d(4) U(4) assms(9,5) obj] U(2,3,5) by simp
  moreover have "consumer_view_ok Size (m_head q) (ra_consumer s) (ra_issued s) mem' (ra_cview s)"
    unfolding U(2) by (rule consumer_view_other [OF d(5) assms(7) obj assms(8)])
  ultimately have "ra_inv_for Size ?q ?s"
    using assms(10,11) unfolding ra_inv_for_def by (simp add: head)
  then show ?thesis
    by (auto simp: ra_inv_def)
qed

lemma ra_push_store_data:
  assumes "ra_inv_for Size q s" and "ra_producer s = Some (PushStoreData x cw tail)"
    and "perform_access (Store Release (DataOf tail) (Item (Some x))) t (ra_memory s, ra_pview s) =
           Some (v, mem', V')"
  shows "ra_inv Size (s\<lparr>ra_memory := mem', ra_pview := V',
                        ra_producer := Some (push_next Size (PushStoreData x cw tail) v)\<rparr>)"
proof -
  note d = ra_inv_forD [OF assms(1)]
  note p = producer_at_tail [OF d(1)]
  note c = cells_atD [OF p(2)]
  let ?n = "length (ra_returned s)"
  let ?H = "read_count (m_head q) (ra_consumer s)"
  let ?W' = "write_count Size ?n (Some (push_next Size (PushStoreData x cw tail) v))"
  obtain U where U: "mem' = (ra_memory s)(DataOf tail := (ra_memory s (DataOf tail))(t \<mapsto> (Item (Some x), U)))"
      "ra_pview s (DataOf tail) < t" "U = V'" "ra_pview s \<le> V'"
    by (rule perform_store [OF assms(3) ra_inv_grounded(1,3) [OF assms(1)]]) blast
  have tail: "tail = min (Size - 1) ?n" "tail = ra_write_count Size s"
    and x: "x = ra_issued s ! ?n" "length (ra_issued s) = Suc ?n"
    using assms(2) p(1) by (simp_all add: write_count_def)
  have own: "owns (ra_memory s) (ra_pview s) (DataOf tail)"
    using d(4) tail(2) by (simp add: producer_view_ok_def)
  have messages: "messages_ok Size ?H ?W' (ra_issued s) mem'"
  proof (cases "Suc ?n < Size")
    case True
    then have n: "ra_write_count Size s = ?n" "tail = ?n"
      using tail by simp_all
    have "visible (ra_memory s) U ?n (ra_issued s ! ?n)"
      using d(4) x(2) U(3,4) visible_mono [of "ra_memory s" "ra_pview s" ?n "ra_issued s ! ?n"]
      by (simp add: producer_view_ok_def)
    then have "messages_ok Size ?H (Suc ?n) (ra_issued s) mem'"
      using messages_ok_data [OF d(3) [unfolded n(1)], of "ra_pview s" t U] own U(1,2) x n by simp
    then show ?thesis
      using True by (simp add: write_count_def)
  next
    case False
    then have "messages_ok Size ?H (ra_write_count Size s) (ra_issued s) mem'"
      unfolding U(1) using tail(1) by (intro messages_ok_data_free [OF d(3)]) linarith
    moreover have "?W' = ra_write_count Size s"
      using False assms(2) by (simp add: write_count_def)
    ultimately show ?thesis by simp
  qed
  show ?thesis
  proof (rule ra_producer_store [OF assms(1,2) _ assms(3) own _ _ _ _ refl messages])
    show "DataOf tail \<noteq> DataOf (m_head q)" if "taken Size (m_head q) (ra_consumer s)"
      using taken_below [OF p(3) that] tail(2) by simp
    show "storable q (DataOf tail) (Item (Some x))"
      using tail(2) c(1,4) by simp
    show "ra_write_count Size s \<le> ?W'"
      unfolding assms(2) by (simp add: write_count_def)
  qed simp_all
qed

lemma ra_push_store:
  assumes "ra_inv_for Size q s" and "ra_producer s = Some pc"
    and "push_access_of Size pc = Store ord l w"
    and "perform_access (Store ord l w) t (ra_memory s, ra_pview s) = Some (v, mem', V')"
  shows "ra_inv Size
           (s\<lparr>ra_memory := mem', ra_pview := V', ra_producer := Some (push_next Size pc v)\<rparr>)"
proof -
  note d = ra_inv_forD [OF assms(1)]
  let ?n = "length (ra_returned s)"
  let ?H = "read_count (m_head q) (ra_consumer s)"
  obtain U where U: "v = w" "mem' = (ra_memory s)(l := (ra_memory s l)(t \<mapsto> (w, U)))"
    by (rule perform_store [OF assms(4) ra_inv_grounded(1,3) [OF assms(1)]]) blast
  have rel: "ord = Release"
    using assms(3) by (cases pc) auto
  have position: "ra_inv Size
      (s\<lparr>ra_memory := mem', ra_pview := V', ra_producer := Some (push_next Size pc v)\<rparr>)"
    if "l \<in> {Tail, WritePos}" "storable q l w"
      "write_count Size ?n (Some (push_next Size pc v)) = ra_write_count Size s"
  proof (rule ra_producer_store [OF assms(1,2) assms(3,4) [unfolded rel]])
    show "owns (ra_memory s) (ra_pview s) l"
      using that(1) d(4) by (auto simp: producer_view_ok_def)
    show "messages_ok Size ?H (ra_write_count Size s) (ra_issued s) mem'"
      unfolding U(2) using that(1) d(3) by (auto simp: messages_ok_position)
  qed (use that in auto)
  show ?thesis
  proof (cases pc)
    case (PushStoreData x cw tail)
    then have "l = DataOf tail" "w = Item (Some x)"
      using assms(3) by simp_all
    then show ?thesis
      using ra_push_store_data [OF assms(1) assms(2) [unfolded PushStoreData]] assms(4)
      unfolding PushStoreData rel by blast
  next
    case (PushStoreTail x cw nx)
    then show ?thesis
      using assms(2,3) U(1) by (intro position) (auto simp: write_count_def)
  next
    case (PushStoreWrite x cw)
    then show ?thesis
      using assms(2,3) U(1) by (intro position) (auto simp: write_count_def)
  qed (use assms(3) in simp_all)
qed

lemma ra_push_access_inv:
  assumes "ra_inv Size s" and "ra_producer s = Some pc"
    and "perform_access (push_access_of Size pc) t (ra_memory s, ra_pview s) = Some (v, mem', V')"
  shows "ra_inv Size
           (s\<lparr>ra_memory := mem', ra_pview := V', ra_producer := Some (push_next Size pc v)\<rparr>)"
proof -
  obtain q where q: "ra_inv_for Size q s"
    using assms(1) by (auto simp: ra_inv_def)
  show ?thesis
  proof (cases "push_access_of Size pc")
    case (Load ord l)
    then show ?thesis
      using ra_push_load [OF q assms(2) Load] assms(3) ra_inv_def by metis
  next
    case (Store ord l w)
    then show ?thesis
      using ra_push_store [OF q assms(2) Store] assms(3) by simp
  qed (use assms(3) in simp)
qed

subsection \<open>The consumer\<close>

lemma sc_pop_access:
  assumes "spsc_inv Size (sc_system q s)" and "ra_consumer s = Some pc"
    and "sc_access (pop_access_of Size pc) q = (v, q')"
  shows "spsc_inv Size
           (sc_system q' (s\<lparr>ra_memory := mem, ra_cview := V, ra_consumer := Some (pop_next pc v)\<rparr>))"
  using spsc_pop_access [OF assms(1), of pc "pop_next pc v" q'] assms(2,3)
  by (simp add: pop_step_access) (simp add: sc_system_def)

lemma ra_consumer_load:
  assumes "ra_inv_for Size q s" and "ra_cview s \<le> V" and "grounded (ra_memory s) V"
    and "read_count (m_head q) (Some pc) = read_count (m_head q) (ra_consumer s)"
    and "spsc_inv Size (sc_system q (s\<lparr>ra_memory := ra_memory s, ra_cview := V, ra_consumer := Some pc\<rparr>))"
    and "taken Size (m_head q) (Some pc) \<Longrightarrow> owns (ra_memory s) V (DataOf (m_head q))"
    and "\<And>i. i < seen_count Size (m_head q) (Some pc) \<Longrightarrow> visible (ra_memory s) V i (ra_issued s ! i)"
  shows "ra_inv_for Size q (s\<lparr>ra_memory := ra_memory s, ra_cview := V, ra_consumer := Some pc\<rparr>)"
proof -
  note d = ra_inv_forD [OF assms(1)]
  have "consumer_view_ok Size (m_head q) (Some pc) (ra_issued s) (ra_memory s) V"
    using d(5) assms(2,3,6,7) by (auto simp: consumer_view_ok_def intro: owns_mono)
  then show ?thesis
    using d(2-4) assms(4,5) by (simp add: ra_inv_for_def)
qed

lemma pop_next_counts:
  assumes "pop_access_of Size pc = Load ord l" and "\<And>i. pc \<noteq> PopLoadData i"
    and "\<And>head x. pc = PopLoadNext head x \<Longrightarrow> v = Link (if Suc h < Size then Some (Suc h) else None)"
  shows "taken Size h (Some (pop_next pc v)) \<Longrightarrow> taken Size h (Some pc)"
    and "seen_count Size h (Some (pop_next pc v)) \<le> seen_count Size h (Some pc)"
    and "read_count h (Some (pop_next pc v)) = read_count h (Some pc)"
  using assms by (cases pc; cases v; simp add: seen_count_def split: if_splits)+

lemma seen_mono:
  assumes "ra_inv_for Size q s" and "ra_cview s \<le> V"
    and "i < seen_count Size (m_head q) (ra_consumer s)"
  shows "visible (ra_memory s) V i (ra_issued s ! i)"
  using ra_inv_forD(5) [OF assms(1)] assms(3) visible_mono [OF _ assms(2), of "ra_memory s" i "ra_issued s ! i"]
  by (simp add: consumer_view_ok_def)

lemma ra_pop_load_latest:
  assumes "ra_inv_for Size q s" and "ra_consumer s = Some pc"
    and "pop_access_of Size pc = Load ord l" and "\<And>i. pc \<noteq> PopLoadData i"
    and "ra_cview s \<le> V'" and "grounded (ra_memory s) V'" and "v = value_at q l"
  shows "ra_inv_for Size q
           (s\<lparr>ra_memory := ra_memory s, ra_cview := V', ra_consumer := Some (pop_next pc v)\<rparr>)"
proof -
  note d = ra_inv_forD [OF assms(1)]
  note p = producer_at_tail [OF d(1)]
  note c = cells_atD [OF p(2)]
  let ?h = "m_head q"
  have "?h < Size"
    using head_le_read_count [of ?h "ra_consumer s"] c(2,4) by simp
  then have link: "v = Link (if Suc ?h < Size then Some (Suc ?h) else None)"
    if "pc = PopLoadNext head x" for head x
    using that assms(2,3,7) p(3) c(5) [of ?h] by auto
  note counts = pop_next_counts [OF assms(3,4), of v ?h]
  have t: "taken Size ?h (Some (pop_next pc v)) \<Longrightarrow> taken Size ?h (ra_consumer s)"
      "seen_count Size ?h (Some (pop_next pc v)) \<le> seen_count Size ?h (ra_consumer s)"
    and r: "read_count ?h (Some (pop_next pc v)) = read_count ?h (ra_consumer s)"
    unfolding assms(2) using link by (auto intro: counts)
  show ?thesis
  proof (rule ra_consumer_load [OF assms(1,5,6) r])
    show "spsc_inv Size (sc_system q
        (s\<lparr>ra_memory := ra_memory s, ra_cview := V', ra_consumer := Some (pop_next pc v)\<rparr>))"
      using assms(3,7) by (intro sc_pop_access [OF d(1) assms(2)]) simp
    show "owns (ra_memory s) V' (DataOf ?h)" if "taken Size ?h (Some (pop_next pc v))"
      using d(5) t(1) [OF that] assms(5) by (auto simp: consumer_view_ok_def intro: owns_mono)
  qed (use seen_mono [OF assms(1,5)] t(2) in auto)
qed

text \<open>
  The load of a cell's data finds the cell empty, or it finds the item, acquires the producer's
  view and thereby owns the cell. Only at the last cell, which is never read, anything goes.
\<close>

lemma ra_pop_item:
  assumes "ra_inv_for Size q s" and "ra_consumer s = Some (PopLoadData head)"
    and "Suc (m_head q) < Size" and "ra_memory s (DataOf (m_head q)) t = Some (Item (Some y), U)"
    and "U \<le> V'" and "t \<le> V' (DataOf (m_head q))"
  shows "m_head q < ra_write_count Size s" and "y = ra_issued s ! m_head q"
    and "visible (ra_memory s) V' (m_head q) (ra_issued s ! m_head q)"
    and "owns (ra_memory s) V' (DataOf (m_head q))"
proof -
  have "item_message (ra_write_count Size s) (ra_issued s) (ra_memory s) (m_head q) t (Item (Some y)) U"
    using messages_okD(4) [OF ra_inv_forD(3) [OF assms(1)] assms(4)] assms(2,3) by simp
  then show "m_head q < ra_write_count Size s" "y = ra_issued s ! m_head q"
      "visible (ra_memory s) V' (m_head q) (ra_issued s ! m_head q)"
      "owns (ra_memory s) V' (DataOf (m_head q))"
    using assms(5,6) visible_mono [of "ra_memory s" U "m_head q" _ V']
    by (auto simp: item_message_def owns_def)
qed

lemma ra_pop_load_data:
  assumes "ra_inv_for Size q s" and "ra_consumer s = Some (PopLoadData head)"
    and "ra_cview s \<le> V'" and "grounded (ra_memory s) V'"
    and "ra_memory s (DataOf (m_head q)) t = Some (v, U)" and "U \<le> V'" and "t \<le> V' (DataOf (m_head q))"
  shows "ra_inv_for Size q
           (s\<lparr>ra_memory := ra_memory s, ra_cview := V', ra_consumer := Some (pop_next (PopLoadData head) v)\<rparr>)"
proof -
  note d = ra_inv_forD [OF assms(1)]
  note p = producer_at_tail [OF d(1)]
  let ?h = "m_head q" and ?pc = "pop_next (PopLoadData head) v"
  obtain y where y: "v = Item y"
    using messages_okD(3) [OF d(3) assms(5)] by blast
  note item = ra_pop_item [OF assms(1,2) _ _ assms(6,7)]
  have C: "consumer_at Size (ra_write_count Size s) (ra_issued s) (ra_popped s) ?h (m_read_pos q) (Some ?pc)"
    using p(3) assms(2,5) y item by (cases y) auto
  have r: "read_count ?h (Some ?pc) = ?h" "read_count ?h (ra_consumer s) = ?h"
    using y assms(2) by (cases y; simp)+
  have "spsc_inv Size ((sc_system q s)\<lparr>consumer := Some ?pc, shared := q, popped := ra_popped s\<rparr>)"
    using C p(2) r by (intro spsc_pop_step [OF d(1)]) simp_all
  then have sc: "spsc_inv Size (sc_system q (s\<lparr>ra_memory := ra_memory s, ra_cview := V', ra_consumer := Some ?pc\<rparr>))"
    by (simp add: sc_system_def)
  have t: "visible (ra_memory s) V' ?h (ra_issued s ! ?h) \<and> owns (ra_memory s) V' (DataOf ?h)"
    if "taken Size ?h (Some ?pc)"
    using that y assms(5) item by (cases y) auto
  show ?thesis
  proof (rule ra_consumer_load [OF assms(1,3,4) _ sc])
    show "visible (ra_memory s) V' i (ra_issued s ! i)" if "i < seen_count Size ?h (Some ?pc)" for i
      using that t r seen_mono [OF assms(1,3), of i]
      by (cases "i < ?h") (auto simp: seen_count_def less_Suc_eq split: if_splits)
  qed (use r t in simp_all)
qed

lemma ra_pop_load:
  assumes "ra_inv_for Size q s" and "ra_consumer s = Some pc"
    and "pop_access_of Size pc = Load ord l"
    and "perform_access (Load ord l) t (ra_memory s, ra_cview s) = Some (v, mem', V')"
  shows "ra_inv_for Size q
           (s\<lparr>ra_memory := mem', ra_cview := V', ra_consumer := Some (pop_next pc v)\<rparr>)"
proof -
  note d = ra_inv_forD [OF assms(1)]
  note g = ra_inv_grounded [OF assms(1)]
  obtain U where U: "ra_memory s l t = Some (v, U)" "ra_cview s l \<le> t" "mem' = ra_memory s"
      "ra_cview s \<le> V'" "grounded (ra_memory s) V'" "ord = Acquire \<longrightarrow> U \<le> V'" "t \<le> V' l"
    by (rule perform_load [OF assms(4) g(2,3)]) (metis max.cobounded1)
  note p = producer_at_tail [OF d(1)]
  note c = cells_atD [OF p(2)]
  have h: "m_head q < Size"
    using head_le_read_count [of "m_head q" "ra_consumer s"] c(2,4) by simp
  note latest = ra_pop_load_latest [OF assms(1-3) _ U(4,5)]
  have owned: "v = value_at q l" if "owns (ra_memory s) (ra_cview s) l" "stored_location Size l"
    by (rule owner_loads [OF that(1) g(2) representsD(2) [OF d(2) that(2)] U(2,1)])
  show ?thesis
  proof (cases pc)
    case (PopLoadNext head x)
    then have "head < Size" "l = NextOf head"
      using p(3) h assms(2,3) by auto
    then show ?thesis
      using latest PopLoadNext messages_okD(2) [OF d(3), of head t v U] U(1,3) c(5) by simp
  next
    case (PopLoadData head)
    then have "l = DataOf (m_head q)" "ord = Acquire"
      using p(3) assms(2,3) by auto
    then show ?thesis
      using ra_pop_load_data [OF assms(1) _ U(4,5), of head t v U] PopLoadData assms(2) U(1,3,6,7) by simp
  qed (use latest owned assms(3) d(5) U(3) in \<open>auto simp: consumer_view_ok_def\<close>)
qed

lemma producer_view_other:
  assumes "producer_view_ok W xs mem V" and "l \<notin> {Tail, WritePos}"
    and "\<And>i. l \<noteq> Object i" and "\<And>i. W \<le> i \<Longrightarrow> l \<noteq> DataOf i"
  shows "producer_view_ok W xs (mem(l := (mem l)(t \<mapsto> m))) V"
proof -
  have "grounded (mem(l := (mem l)(t \<mapsto> m))) V"
    using assms(1) by (auto simp: producer_view_ok_def grounded_def)
  then show ?thesis
    using assms(1,2) assms(3,4) [symmetric] unfolding producer_view_ok_def
    by (auto simp: owns_other visible_other)
qed

lemma consumer_view_store:
  assumes "consumer_view_ok Size h pc xs mem V" and "V l < t" and "owns mem V l"
    and "\<And>i. l \<noteq> Object i" and "grounded (mem(l := (mem l)(t \<mapsto> m))) (V(l := t))"
    and "\<not> taken Size h' pc'" and "seen_count Size h' pc' \<le> seen_count Size h pc"
  shows "consumer_view_ok Size h' pc' xs (mem(l := (mem l)(t \<mapsto> m))) (V(l := t))"
proof -
  let ?mem = "mem(l := (mem l)(t \<mapsto> m))"
  have V: "V \<le> V(l := t)"
    using assms(2) by (simp add: le_fun_def)
  have own: "owns ?mem (V(l := t)) l'" if "owns mem V l'" for l'
    using that owns_store [OF assms(3,2)] owns_mono [OF _ V] by (cases "l' = l") (simp_all add: owns_other)
  have "visible ?mem (V(l := t)) i (xs ! i)" if "i < seen_count Size h' pc'" for i
    using assms(1,7) assms(4) [symmetric] that visible_mono [OF _ V, of mem i "xs ! i"]
    by (simp add: consumer_view_ok_def visible_other)
  then show ?thesis
    using assms(1,5,6) own by (auto simp: consumer_view_ok_def)
qed

lemma ra_consumer_store:
  assumes "ra_inv_for Size q s" and "ra_consumer s = Some pc"
    and "pop_access_of Size pc = Store Release l w"
    and "perform_access (Store Release l w) t (ra_memory s, ra_cview s) = Some (v, mem', V')"
    and "owns (ra_memory s) (ra_cview s) l" and "storable q l w" and "l \<notin> {Tail, WritePos}"
    and "\<And>i. ra_write_count Size s \<le> i \<Longrightarrow> l \<noteq> DataOf i"
    and "\<not> taken Size (m_head (store_value l w q)) (Some (pop_next pc v))"
    and "seen_count Size (m_head (store_value l w q)) (Some (pop_next pc v)) \<le>
         seen_count Size (m_head q) (ra_consumer s)"
    and "messages_ok Size (read_count (m_head (store_value l w q)) (Some (pop_next pc v)))
           (ra_write_count Size s) (ra_issued s) mem'"
  shows "ra_inv Size
           (s\<lparr>ra_memory := mem', ra_cview := V', ra_consumer := Some (pop_next pc v)\<rparr>)"
proof -
  note d = ra_inv_forD [OF assms(1)]
  note g = ra_inv_grounded(2,3) [OF assms(1)]
  obtain U where U: "v = w" "mem' = (ra_memory s)(l := (ra_memory s l)(t \<mapsto> (w, U)))"
      "V' = (ra_cview s)(l := t)" "ra_cview s l < t" "grounded mem' V'" "all_grounded mem'"
    by (rule perform_store [OF assms(4) g]) blast
  let ?q = "store_value l w q"
  let ?s = "s\<lparr>ra_memory := mem', ra_cview := V', ra_consumer := Some (pop_next pc v)\<rparr>"
  have obj: "l \<noteq> Object i" for i
    using assms(6) by auto
  have "spsc_inv Size (sc_system ?q ?s)"
    using assms(3) U(1) by (intro sc_pop_access [OF d(1) assms(2)]) simp
  moreover have "represents Size mem' ?q"
    using represents_store [OF d(2) assms(5) U(4) assms(6)] U(2,6) by simp
  moreover have "consumer_view_ok Size (m_head ?q) (Some (pop_next pc v)) (ra_issued s) mem' V'"
    using consumer_view_store [OF d(5) U(4) assms(5) obj _ assms(9,10)] U(2,3,5) by simp
  moreover have "producer_view_ok (ra_write_count Size s) (ra_issued s) mem' (ra_pview s)"
    unfolding U(2) by (rule producer_view_other [OF d(4) assms(7) obj assms(8)])
  ultimately have "ra_inv_for Size ?q ?s"
    using assms(11) unfolding ra_inv_for_def by simp
  then show ?thesis
    by (auto simp: ra_inv_def)
qed

lemma ra_pop_store:
  assumes "ra_inv_for Size q s" and "ra_consumer s = Some pc"
    and "pop_access_of Size pc = Store ord l w"
    and "perform_access (Store ord l w) t (ra_memory s, ra_cview s) = Some (v, mem', V')"
  shows "ra_inv Size
           (s\<lparr>ra_memory := mem', ra_cview := V', ra_consumer := Some (pop_next pc v)\<rparr>)"
proof -
  note d = ra_inv_forD [OF assms(1)]
  let ?h = "m_head q"
  note g = ra_inv_grounded(2,3) [OF assms(1)]
  note p = producer_at_tail [OF d(1)]
  note c = cells_atD [OF p(2)]
  obtain U where U: "v = w" "mem' = (ra_memory s)(l := (ra_memory s l)(t \<mapsto> (w, U)))"
    by (rule perform_store [OF assms(4) g]) blast
  have rel: "ord = Release"
    using assms(3) by (cases pc) auto
  note store = ra_consumer_store [OF assms(1,2) assms(3,4) [unfolded rel]]
  have own: "owns (ra_memory s) (ra_cview s) Head" "owns (ra_memory s) (ra_cview s) ReadPos"
    using d(5) by (simp_all add: consumer_view_ok_def)
  show ?thesis
  proof (cases pc)
    case (PopStoreData head x nx)
    have l: "l = DataOf ?h" "w = Item None" "?h < ra_write_count Size s"
      using assms(2,3) p(3) PopStoreData by auto
    have H: "read_count ?h (ra_consumer s) = ?h" "taken Size ?h (ra_consumer s)"
      using PopStoreData assms(2) by simp_all
    have m: "messages_ok Size (Suc ?h) (ra_write_count Size s) (ra_issued s) mem'"
      unfolding U(2) l(1,2)
      by (rule messages_ok_data_free [OF messages_ok_mono [OF d(3)]]) (simp_all add: H)
    have own': "owns (ra_memory s) (ra_cview s) l"
      using d(5) H(2) l(1) by (simp add: consumer_view_ok_def)
    have q': "m_head (store_value l w q) = ?h" "pop_next pc v = PopStoreHead x nx"
      using l PopStoreData by (simp_all add: store_data_def)
    show ?thesis
      using l c(1,4) m H own'
      by (intro store) (simp_all add: q' seen_count_def)
  next
    case (PopStoreHead x nx)
    have l: "l = Head" "w = Position (Suc ?h)"
      using assms(2,3) p(3) PopStoreHead by auto
    have m: "messages_ok Size (Suc ?h) (ra_write_count Size s) (ra_issued s) mem'"
      using d(3) PopStoreHead assms(2) by (simp add: U(2) l(1) messages_ok_position)
    have q': "m_head (store_value l w q) = Suc ?h" "pop_next pc v = PopLoadRead x"
      using l PopStoreHead by simp_all
    show ?thesis
      using l m own PopStoreHead assms(2)
      by (intro store) (simp_all add: q' seen_count_def)
  next
    case (PopStoreRead x cr)
    have h: "?h \<le> ra_write_count Size s" "?h < Size"
      using PopStoreRead assms(2) c(2,4) by simp_all
    have l: "l = ReadPos" "w = Position ?h"
      using assms(2,3) p(3) PopStoreRead h(2) by auto
    have m: "messages_ok Size ?h (ra_write_count Size s) (ra_issued s) mem'"
      unfolding U(2) l using d(3) PopStoreRead assms(2) h(1) by (intro messages_ok_read) simp_all
    have q': "m_head (store_value l w q) = ?h" "pop_next pc v = PopDone (Some x)"
      using l PopStoreRead by simp_all
    show ?thesis
      using l m own PopStoreRead assms(2)
      by (intro store) (simp_all add: q' seen_count_def)
  qed (use assms(3) in simp_all)
qed

lemma ra_pop_access_inv:
  assumes "ra_inv Size s" and "ra_consumer s = Some pc"
    and "perform_access (pop_access_of Size pc) t (ra_memory s, ra_cview s) = Some (v, mem', V')"
  shows "ra_inv Size
           (s\<lparr>ra_memory := mem', ra_cview := V', ra_consumer := Some (pop_next pc v)\<rparr>)"
proof -
  obtain q where q: "ra_inv_for Size q s"
    using assms(1) by (auto simp: ra_inv_def)
  show ?thesis
  proof (cases "pop_access_of Size pc")
    case (Load ord l)
    then show ?thesis
      using ra_pop_load [OF q assms(2) Load] assms(3) ra_inv_def by metis
  next
    case (Store ord l w)
    then show ?thesis
      using ra_pop_store [OF q assms(2) Store] assms(3) by simp
  qed (use assms(3) in simp)
qed

subsection \<open>Calls and returns\<close>

lemma seen_count_le:
  assumes "spsc_inv Size (sc_system q s)"
  shows "seen_count Size (m_head q) (ra_consumer s) \<le> length (ra_issued s)"
    and "length (ra_popped s) \<le> seen_count Size (m_head q) (ra_consumer s)"
proof -
  note p = producer_at_tail [OF assms]
  note c = cells_atD [OF p(2)]
  show "seen_count Size (m_head q) (ra_consumer s) \<le> length (ra_issued s)"
    using c(2,3) taken_below [OF p(3)] by (auto simp: seen_count_def)
  have "length (ra_popped s) \<le> m_head q"
    using prefix_length_le [OF consumer_at_popped [OF p(3)]] by simp
  then show "length (ra_popped s) \<le> seen_count Size (m_head q) (ra_consumer s)"
    using head_le_read_count [of "m_head q" "ra_consumer s"] by (auto simp: seen_count_def)
qed

lemma views_object:
  assumes "messages_ok Size H W xs mem" and "producer_view_ok W xs mem V"
    and "consumer_view_ok Size h pc xs mem V\<^sub>c" and "seen_count Size h pc \<le> length xs"
    and "mem' = mem(Object (length xs) := (mem (Object (length xs)))(t \<mapsto> (Item (Some x), U)))"
    and "V (Object (length xs)) < t" and "V' = V(Object (length xs) := t)" and "grounded mem' V'"
  shows "producer_view_ok W (xs @ [x]) mem' V'" and "consumer_view_ok Size h pc (xs @ [x]) mem' V\<^sub>c"
proof -
  have V: "V \<le> V'"
    using assms(6,7) by (simp add: le_fun_def)
  have "visible mem' V' (length xs) x"
    using messages_okD(5) [OF assms(1)] assms(5-7) by (auto simp: visible_def split: if_splits)
  moreover have "visible mem' V' i (xs ! i)" if "i < length xs" for i
    using assms(2) that visible_mono [OF _ V, of mem i "xs ! i"]
    by (simp add: producer_view_ok_def assms(5) visible_object)
  ultimately have "\<forall>i < length (xs @ [x]). visible mem' V' i ((xs @ [x]) ! i)"
    by (simp add: nth_append less_Suc_eq)
  then show "producer_view_ok W (xs @ [x]) mem' V'"
    using assms(2,8) owns_mono [OF _ V, of mem] unfolding producer_view_ok_def
    by (simp add: assms(5) owns_other)
  have "grounded mem' V\<^sub>c"
    using assms(3) by (auto simp: consumer_view_ok_def grounded_def assms(5))
  then show "consumer_view_ok Size h pc (xs @ [x]) mem' V\<^sub>c"
    using assms(3,4) unfolding consumer_view_ok_def
    by (simp add: assms(5) owns_other visible_object nth_append)
qed

lemma represents_object:
  assumes "represents Size mem q" and "all_grounded (mem(Object k := f))"
  shows "represents Size (mem(Object k := f)) q"
proof -
  have "last_value (mem(Object k := f)) l (value_at q l)" if "stored_location Size l" for l
    using that representsD(2) [OF assms(1) that] by (cases l) (simp_all add: last_value_other)
  then show ?thesis
    using assms(2) by (simp add: represents_def)
qed

lemma ra_push_call_inv:
  assumes "ra_inv Size s" and "ra_producer s = None"
    and "perform_access (Store Relaxed (Object (length (ra_issued s))) (Item (Some x))) t
           (ra_memory s, ra_pview s) = Some (v, mem', V')"
  shows "ra_inv Size (s\<lparr>ra_memory := mem', ra_pview := V', ra_producer := Some (PushLoadWrite x),
                        ra_issued := ra_issued s @ [x]\<rparr>)"
proof -
  obtain q where q: "ra_inv_for Size q s"
    using assms(1) by (auto simp: ra_inv_def)
  note d = ra_inv_forD [OF q]
  let ?s = "s\<lparr>ra_memory := mem', ra_pview := V', ra_producer := Some (PushLoadWrite x),
                ra_issued := ra_issued s @ [x]\<rparr>"
  let ?l = "Object (length (ra_issued s))"
  obtain U where U: "mem' = (ra_memory s)(?l := (ra_memory s ?l)(t \<mapsto> (Item (Some x), U)))"
      "V' = (ra_pview s)(?l := t)" "ra_pview s ?l < t" "grounded mem' V'" "all_grounded mem'"
    by (rule perform_store [OF assms(3) ra_inv_grounded(1,3) [OF q]]) blast
  note c = cells_atD [OF producer_at_tail(2) [OF d(1)]]
  have "write_count Size (length (ra_returned s)) (Some (PushLoadWrite x)) = ra_write_count Size s"
    using assms(2) by (simp add: write_count_def)
  moreover have "spsc_inv Size (sc_system q ?s)"
    using spsc_push_call [OF d(1), of x] assms(2) by (simp add: sc_system_def)
  moreover have "represents Size mem' q"
    using represents_object [OF d(2)] U(1,5) by simp
  moreover have "messages_ok Size (read_count (m_head q) (ra_consumer s)) (ra_write_count Size s)
      (ra_issued s @ [x]) mem'"
    unfolding U(1) by (rule messages_ok_object [OF d(3) c(3)])
  ultimately have "ra_inv_for Size q ?s"
    unfolding ra_inv_for_def using views_object [OF d(3-5) seen_count_le(1) [OF d(1)] U(1,3,2,4)] by simp
  then show ?thesis
    by (auto simp: ra_inv_def)
qed

lemma ra_push_return_inv:
  assumes "ra_inv Size s" and "ra_producer s = Some (PushDone x r)"
  shows "ra_inv Size (s\<lparr>ra_producer := None, ra_returned := ra_returned s @ [(x, r)]\<rparr>)"
proof -
  obtain q where q: "ra_inv_for Size q s"
    using assms(1) by (auto simp: ra_inv_def)
  note d = ra_inv_forD [OF q]
  let ?s = "s\<lparr>ra_producer := None, ra_returned := ra_returned s @ [(x, r)]\<rparr>"
  have "ra_write_count Size ?s = ra_write_count Size s"
    using assms(2) by (simp add: write_count_def)
  moreover have "spsc_inv Size (sc_system q ?s)"
    using spsc_push_return [OF d(1), of x r] assms(2) by (simp add: sc_system_def)
  ultimately have "ra_inv_for Size q ?s"
    using d(2-5) by (simp add: ra_inv_for_def)
  then show ?thesis
    by (auto simp: ra_inv_def)
qed

lemma ra_consumer_idle:
  assumes "ra_inv_for Size q s"
    and "read_count (m_head q) pc = read_count (m_head q) (ra_consumer s)"
    and "\<not> taken Size (m_head q) pc"
    and "spsc_inv Size (sc_system q (s\<lparr>ra_consumer := pc, ra_popped := out\<rparr>))"
  shows "ra_inv Size (s\<lparr>ra_consumer := pc, ra_popped := out\<rparr>)"
proof -
  note d = ra_inv_forD [OF assms(1)]
  have "seen_count Size (m_head q) pc \<le> seen_count Size (m_head q) (ra_consumer s)"
    using assms(2,3) by (auto simp: seen_count_def intro: le_SucI elim: taken.elims)
  then have "consumer_view_ok Size (m_head q) pc (ra_issued s) (ra_memory s) (ra_cview s)"
    using d(5) assms(3) by (auto simp: consumer_view_ok_def)
  then have "ra_inv_for Size q (s\<lparr>ra_consumer := pc, ra_popped := out\<rparr>)"
    using d(2-4) assms(2,4) by (simp add: ra_inv_for_def)
  then show ?thesis
    by (auto simp: ra_inv_def)
qed

lemma ra_step_inv:
  assumes "ra_step Size s s'" and "ra_inv Size s"
  shows "ra_inv Size s'"
  using assms(1)
proof cases
  case ra_pop_call
  obtain q where q: "ra_inv_for Size q s"
    using assms(2) by (auto simp: ra_inv_def)
  note d = ra_inv_forD [OF q]
  have "queue_system_step Size 1 (sc_system q s) ((sc_system q s)\<lparr>consumer := Some PopLoadHead\<rparr>)"
    using ra_pop_call by (intro pop_call) simp
  then have "spsc_inv Size (sc_system q (s\<lparr>ra_consumer := Some PopLoadHead, ra_popped := ra_popped s\<rparr>))"
    using spsc_step d(1) by (fastforce simp: sc_system_def)
  then show ?thesis
    using ra_consumer_idle [OF q, of "Some PopLoadHead" "ra_popped s"] ra_pop_call by simp
next
  case (ra_pop_return result)
  obtain q where q: "ra_inv_for Size q s"
    using assms(2) by (auto simp: ra_inv_def)
  note d = ra_inv_forD [OF q]
  have "spsc_inv Size (sc_system q s')"
    using spsc_pop_return [OF d(1), of result] ra_pop_return by (simp add: sc_system_def)
  then show ?thesis
    using ra_consumer_idle [OF q, of None] ra_pop_return by simp
qed (use assms(2) in \<open>auto intro: ra_push_call_inv ra_push_access_inv ra_push_return_inv ra_pop_access_inv\<close>)

lemma ra_reachable_inv: "ra_reachable Size s \<Longrightarrow> 0 < Size \<Longrightarrow> ra_inv Size s"
  by (induction rule: ra_reachable.induct) (auto intro: ra_new ra_step_inv)

section \<open>Schedules\<close>

text \<open>A schedule names the thread that moves next and the time stamp it loads from or stores at.\<close>

datatype 'a ra_move =
  RaCallPush 'a nat | RaStepPush nat | RaReturnPush | RaCallPop | RaStepPop nat | RaReturnPop

fun ra_perform :: "nat \<Rightarrow> 'a ra_move \<Rightarrow> 'a ra_system \<Rightarrow> 'a ra_system option" where
  "ra_perform Size (RaCallPush x t) s =
     (if ra_producer s \<noteq> None then None
      else case perform_access (Store Relaxed (Object (length (ra_issued s))) (Item (Some x))) t
                  (ra_memory s, ra_pview s) of
        None \<Rightarrow> None
      | Some (v, mem', V') \<Rightarrow>
          Some (s\<lparr>ra_memory := mem', ra_pview := V', ra_producer := Some (PushLoadWrite x),
                  ra_issued := ra_issued s @ [x]\<rparr>))"
| "ra_perform Size (RaStepPush t) s =
     (case ra_producer s of
        None \<Rightarrow> None
      | Some pc \<Rightarrow> (case perform_access (push_access_of Size pc) t (ra_memory s, ra_pview s) of
          None \<Rightarrow> None
        | Some (v, mem', V') \<Rightarrow>
            Some (s\<lparr>ra_memory := mem', ra_pview := V', ra_producer := Some (push_next Size pc v)\<rparr>)))"
| "ra_perform Size RaReturnPush s =
     (case ra_producer s of
        Some (PushDone x r) \<Rightarrow> Some (s\<lparr>ra_producer := None, ra_returned := ra_returned s @ [(x, r)]\<rparr>)
      | _ \<Rightarrow> None)"
| "ra_perform Size RaCallPop s =
     (if ra_consumer s \<noteq> None then None else Some (s\<lparr>ra_consumer := Some PopLoadHead\<rparr>))"
| "ra_perform Size (RaStepPop t) s =
     (case ra_consumer s of
        None \<Rightarrow> None
      | Some pc \<Rightarrow> (case perform_access (pop_access_of Size pc) t (ra_memory s, ra_cview s) of
          None \<Rightarrow> None
        | Some (v, mem', V') \<Rightarrow>
            Some (s\<lparr>ra_memory := mem', ra_cview := V', ra_consumer := Some (pop_next pc v)\<rparr>)))"
| "ra_perform Size RaReturnPop s =
     (case ra_consumer s of
        Some (PopDone res) \<Rightarrow>
          Some (s\<lparr>ra_consumer := None,
                  ra_popped := ra_popped s @ (case res of None \<Rightarrow> [] | Some x \<Rightarrow> [x])\<rparr>)
      | _ \<Rightarrow> None)"

fun ra_run :: "nat \<Rightarrow> 'a ra_move list \<Rightarrow> 'a ra_system \<Rightarrow> 'a ra_system option" where
  "ra_run Size [] s = Some s"
| "ra_run Size (m # ms) s =
     (case ra_perform Size m s of None \<Rightarrow> None | Some s' \<Rightarrow> ra_run Size ms s')"

lemma ra_perform_step: "ra_perform Size m s = Some s' \<Longrightarrow> ra_step Size s s'"
  by (cases m)
     (auto intro: ra_step.intros ra_pop_return [of s None, simplified]
        ra_pop_return [of s "Some x" for x, simplified]
      simp del: perform_access.simps
      split: option.splits prod.splits push_pc.splits pop_pc.splits if_splits)

lemma ra_run_reachable:
  "ra_reachable Size s \<Longrightarrow> ra_run Size ms s = Some s' \<Longrightarrow> ra_reachable Size s'"
  by (induction ms arbitrary: s) (auto split: option.splits dest: ra_perform_step ra_reach_step)

text \<open>
  The consumer first loads the old, empty message of the cell, although the item has been
  stored, and finds the queue empty; its second call loads the item.
\<close>

definition stale_then_fresh :: "'a \<Rightarrow> 'a ra_move list" where
  "stale_then_fresh x =
     [RaCallPush x 1, RaStepPush 0, RaStepPush 0, RaStepPush 0, RaStepPush 1, RaStepPush 0,
      RaStepPush 1, RaStepPush 1, RaReturnPush,
      RaCallPop, RaStepPop 0, RaStepPop 0, RaReturnPop,
      RaCallPop, RaStepPop 0, RaStepPop 1, RaStepPop 0, RaStepPop 2, RaStepPop 1, RaStepPop 0,
      RaStepPop 1, RaReturnPop]"

lemma stale_then_fresh_run:
  "map_option (\<lambda>s. (ra_popped s, ra_issued s, ra_producer s, ra_consumer s))
     (ra_run 3 (stale_then_fresh (7 :: nat)) (ra_system_new 3)) = Some ([7], [7], None, None)"
  by code_simp

lemma stale_then_fresh_reachable:
  "\<exists>s. ra_reachable 3 s \<and> ra_popped s = [7 :: nat] \<and> ra_issued s = [7] \<and>
       ra_producer s = None \<and> ra_consumer s = None"
proof -
  obtain s where s: "ra_run 3 (stale_then_fresh (7 :: nat)) (ra_system_new 3) = Some s"
      "ra_popped s = [7]" "ra_issued s = [7]" "ra_producer s = None" "ra_consumer s = None"
    using stale_then_fresh_run by auto
  then show ?thesis
    using ra_run_reachable [OF ra_reach_new s(1)] by blast
qed

text \<open>The values a thread with a given view may load from a location.\<close>

definition readable :: "'a memory \<Rightarrow> view \<Rightarrow> location \<Rightarrow> 'a cell_value set" where
  "readable mem V l = {v. \<exists>t U. V l \<le> t \<and> mem l t = Some (v, U)}"

lemma readable_visible:
  "grounded mem V \<Longrightarrow> visible mem V i x \<Longrightarrow> readable mem V (Object i) = {Item (Some x)}"
  unfolding readable_def visible_def grounded_def by (force dest: spec [of _ "Object i"])

section \<open>Results\<close>

text \<open>C7: with the memory orders of the code the queue is correct for one producer and one
  consumer, whatever old values their loads return. The result of the \<open>i\<close>-th push is true exactly
  for the first \<^verbatim>\<open>Size - 1\<close> pushes; what has been popped is always a prefix of these elements, in
  the order of their pushes; and whenever no call is in progress the newest values in memory
  form a queue that satisfies the sequential invariant and holds the accepted elements not yet
  popped.\<close>

theorem release_acquire_linearizable:
  assumes "0 < Size" and "ra_reachable Size s"
  shows "ra_returned s = map (\<lambda>i. (ra_issued s ! i, i < Size - 1)) [0..<length (ra_returned s)] \<and>
         prefix (ra_popped s) (take (Size - 1) (ra_issued s)) \<and>
         (ra_producer s = None \<and> ra_consumer s = None \<longrightarrow>
            (\<exists>q. represents Size (ra_memory s) q \<and> queue_inv Size q \<and>
                 take (Size - 1) (ra_issued s) = ra_popped s @ contents q))"
proof -
  obtain q where q: "ra_inv_for Size q s"
    using ra_reachable_inv [OF assms(2,1)] by (auto simp: ra_inv_def)
  note d = ra_inv_forD [OF q]
  show ?thesis
    using spsc_invD(2) [OF d(1)] spsc_popped_prefix [OF d(1)] spsc_quiescent [OF d(1)] d(2) by auto
qed

theorem release_acquire_linearizable_witness:
  "\<exists>s q. ra_reachable 3 s \<and> ra_popped s = [7 :: nat] \<and> represents 3 (ra_memory s) q \<and> contents q = []"
proof -
  obtain s where s: "ra_reachable 3 s" "ra_popped s = [7 :: nat]" "ra_issued s = [7]"
      "ra_producer s = None" "ra_consumer s = None"
    using stale_then_fresh_reachable by blast
  then obtain q where "represents 3 (ra_memory s) q" "contents q = []"
    using release_acquire_linearizable [OF _ s(1)] by auto
  then show ?thesis
    using s by blast
qed

text \<open>C8: what a popped pointer points to has been published. The producer writes an object with plain
  stores and then pushes its address; after the pop the consumer can load nothing from the object
  but what the producer wrote, neither the memory's earlier contents nor part of it. This rests
  on the releasing store and the acquiring load of \<^verbatim>\<open>m_data\<close> alone.\<close>

theorem popped_objects_published:
  assumes "0 < Size" and "ra_reachable Size s" and "i < length (ra_popped s)"
  shows "readable (ra_memory s) (ra_cview s) (Object i) = {Item (Some (ra_popped s ! i))}"
proof -
  obtain q where q: "ra_inv_for Size q s"
    using ra_reachable_inv [OF assms(2,1)] by (auto simp: ra_inv_def)
  note d = ra_inv_forD [OF q]
  have "visible (ra_memory s) (ra_cview s) i (ra_issued s ! i)" "grounded (ra_memory s) (ra_cview s)"
    using d(5) seen_count_le(2) [OF d(1)] assms(3) by (simp_all add: consumer_view_ok_def)
  moreover have "ra_popped s ! i = ra_issued s ! i"
  proof -
    have p: "prefix (ra_popped s) (take (Size - 1) (ra_issued s))"
      using spsc_popped_prefix [OF d(1)] by simp
    then have "i < Size - 1"
      using assms(3) prefix_length_le [OF p] by simp
    then show ?thesis
      using p assms(3) by (metis nth_append nth_take prefix_def)
  qed
  ultimately show ?thesis
    by (simp add: readable_visible)
qed

theorem popped_objects_published_witness:
  "\<exists>s. ra_reachable 3 s \<and> ra_popped s = [7 :: nat] \<and>
       readable (ra_memory s) (ra_cview s) (Object 0) = {Item (Some 7)}"
proof -
  obtain s where s: "ra_reachable 3 s" "ra_popped s = [7 :: nat]"
    using stale_then_fresh_reachable by blast
  then show ?thesis
    using popped_objects_published [OF _ s(1), of 0] by auto
qed

end
