(* ===== verification/Tcp_Shutdown.thy ===== *)
theory Tcp_Shutdown
  imports Tcp_Server
begin

text \<open>
  \<^verbatim>\<open>TCPServer::stop\<close> and \<^verbatim>\<open>TCPServer::accept_connections\<close> of \<^verbatim>\<open>network/tcp_server.cpp\<close> running at the
  same time. Both use the vector of threads: the accept thread appends to it while \<^verbatim>\<open>stop\<close> walks
  over it with the iterators a range-based loop takes at its start. A vector has its elements,
  a capacity and the number of the storage it occupies, which changes when it grows; how much it
  grows is an argument. Threads are numbered in the order of their start, 0 being the accept
  thread; an element of the vector is the number of its thread and whether it has been joined.
  A join waits for the end of the thread; what \<^verbatim>\<open>accept\<close> returns, and when, is up to the schedule.
\<close>

section \<open>The two threads\<close>

datatype accept_pc = AcceptTest | AcceptBlocked | AcceptGot fd | AcceptEnded

datatype shutdown_fault = DanglingIterator | JoinableDestroyed

datatype stop_pc =
    StopNotCalled
  | StopFlagged
  | StopClosed
  | StopJoining nat nat nat
  | StopReturned
  | StopCrashed shutdown_fault

text \<open>
  \<^verbatim>\<open>StopJoining storage pos fin\<close> is the loop with its iterators into \<open>storage\<close>. \<open>sd_late\<close> records that the
  thread of a client was appended to the vector after the loop had begun. The append is a single step here; that
  it races with the loop's reads of the same vector, which is undefined by itself, is not modelled.
\<close>

record shutdown_state =
  sd_running :: bool
  sd_server_fd :: fd
  sd_worker_threads :: "(nat \<times> bool) list"
  sd_capacity :: nat
  sd_storage :: nat
  sd_started :: nat
  sd_ended :: "nat set"
  sd_accept :: accept_pc
  sd_stop :: stop_pc
  sd_late :: bool

text \<open>The state \<^verbatim>\<open>start\<close> leaves.\<close>

definition shutdown_new :: "fd \<Rightarrow> nat \<Rightarrow> shutdown_state" where
  "shutdown_new sock capacity =
     \<lparr>sd_running = True, sd_server_fd = sock, sd_worker_threads = [(0, False)], sd_capacity = capacity,
      sd_storage = 0, sd_started = 1, sd_ended = {}, sd_accept = AcceptTest, sd_stop = StopNotCalled,
      sd_late = False\<rparr>"

fun is_joining :: "stop_pc \<Rightarrow> bool" where
  "is_joining (StopJoining storage pos fin) \<longleftrightarrow> True"
| "is_joining pc \<longleftrightarrow> False"

definition emplace_back :: "(nat \<Rightarrow> nat) \<Rightarrow> shutdown_state \<Rightarrow> shutdown_state" where
  "emplace_back grow s =
     (let s1 = (if length (sd_worker_threads s) < sd_capacity s then s
                else s\<lparr>sd_capacity := grow (sd_capacity s), sd_storage := Suc (sd_storage s)\<rparr>)
      in s1\<lparr>sd_worker_threads := sd_worker_threads s1 @ [(sd_started s1, False)],
            sd_started := Suc (sd_started s1), sd_late := sd_late s1 \<or> is_joining (sd_stop s1)\<rparr>)"

datatype accept_move = LoopTest | AcceptReturns int | SpawnClient

fun accept_step :: "(nat \<Rightarrow> nat) \<Rightarrow> accept_move \<Rightarrow> shutdown_state \<Rightarrow> shutdown_state option" where
  "accept_step grow LoopTest s =
     (if sd_accept s = AcceptTest
      then Some (if sd_running s then s\<lparr>sd_accept := AcceptBlocked\<rparr>
                 else s\<lparr>sd_accept := AcceptEnded, sd_ended := insert 0 (sd_ended s)\<rparr>)
      else None)"
| "accept_step grow (AcceptReturns client_fd) s =
     (if sd_accept s = AcceptBlocked
      then Some (s\<lparr>sd_accept := (if client_fd < 0 then AcceptTest else AcceptGot client_fd)\<rparr>)
      else None)"
| "accept_step grow SpawnClient s =
     (case sd_accept s of
        AcceptGot client_fd \<Rightarrow> Some (emplace_back grow (s\<lparr>sd_accept := AcceptTest\<rparr>))
      | _ \<Rightarrow> None)"

text \<open>
  The next step of \<^verbatim>\<open>stop\<close>. The body of the loop reads and, after the join, writes the element
  through its iterator; \<^verbatim>\<open>clear\<close> destroys the elements, and destroying a thread that has not been joined
  terminates the process.
\<close>

definition stop_step :: "shutdown_state \<Rightarrow> shutdown_state option" where
  "stop_step s =
     (case sd_stop s of
        StopNotCalled \<Rightarrow> Some (s\<lparr>sd_running := False, sd_stop := StopFlagged\<rparr>)
      | StopFlagged \<Rightarrow>
          Some (if 0 \<le> sd_server_fd s then s\<lparr>sd_server_fd := -1, sd_stop := StopClosed\<rparr>
                else s\<lparr>sd_stop := StopClosed\<rparr>)
      | StopClosed \<Rightarrow>
          Some (s\<lparr>sd_stop := StopJoining (sd_storage s) 0 (length (sd_worker_threads s))\<rparr>)
      | StopJoining storage pos fin \<Rightarrow>
          (if pos = fin then
             Some (if \<forall>(i, joined)\<in>set (sd_worker_threads s). joined
                   then s\<lparr>sd_worker_threads := [], sd_stop := StopReturned\<rparr>
                   else s\<lparr>sd_stop := StopCrashed JoinableDestroyed\<rparr>)
           else if storage \<noteq> sd_storage s then Some (s\<lparr>sd_stop := StopCrashed DanglingIterator\<rparr>)
           else case sd_worker_threads s ! pos of (i, joined) \<Rightarrow>
             if joined then Some (s\<lparr>sd_stop := StopJoining storage (Suc pos) fin\<rparr>)
             else if i \<in> sd_ended s then
               Some (s\<lparr>sd_worker_threads := (sd_worker_threads s)[pos := (i, True)],
                       sd_stop := StopJoining storage (Suc pos) fin\<rparr>)
             else None)
      | StopReturned \<Rightarrow> None
      | StopCrashed f \<Rightarrow> None)"

datatype shutdown_move = AcceptMoves accept_move | ClientEnds nat | StopMoves

fun shutdown_step :: "(nat \<Rightarrow> nat) \<Rightarrow> shutdown_move \<Rightarrow> shutdown_state \<Rightarrow> shutdown_state option" where
  "shutdown_step grow (AcceptMoves m) s = accept_step grow m s"
| "shutdown_step grow (ClientEnds i) s =
     (if 0 < i \<and> i < sd_started s then Some (s\<lparr>sd_ended := insert i (sd_ended s)\<rparr>) else None)"
| "shutdown_step grow StopMoves s = stop_step s"

inductive shutdown_reachable :: "(nat \<Rightarrow> nat) \<Rightarrow> fd \<Rightarrow> nat \<Rightarrow> shutdown_state \<Rightarrow> bool"
  for grow :: "nat \<Rightarrow> nat" and sock :: fd and capacity :: nat where
  sd_new: "shutdown_reachable grow sock capacity (shutdown_new sock capacity)"
| sd_step: "shutdown_reachable grow sock capacity s \<Longrightarrow> shutdown_step grow m s = Some s' \<Longrightarrow>
    shutdown_reachable grow sock capacity s'"

fun shutdown_run :: "(nat \<Rightarrow> nat) \<Rightarrow> shutdown_move list \<Rightarrow> shutdown_state \<Rightarrow> shutdown_state option" where
  "shutdown_run grow [] s = Some s"
| "shutdown_run grow (m # ms) s =
     (case shutdown_step grow m s of None \<Rightarrow> None | Some s' \<Rightarrow> shutdown_run grow ms s')"

lemma shutdown_run_reachable:
  "shutdown_reachable grow sock c s \<Longrightarrow> shutdown_run grow ms s = Some s' \<Longrightarrow>
   shutdown_reachable grow sock c s'"
  by (induction ms arbitrary: s) (auto split: option.splits intro: sd_step)

section \<open>The invariant\<close>

text \<open>
  While \<^verbatim>\<open>stop\<close> joins, the threads before its position are exactly those joined. The accept thread is
  the first of them, so once the loop has passed it no thread can be added.
\<close>

fun stop_at :: "nat \<Rightarrow> bool \<Rightarrow> nat set \<Rightarrow> nat \<Rightarrow> (nat \<times> bool) list \<Rightarrow> stop_pc \<Rightarrow> bool" where
  "stop_at n late ended storage ts (StopJoining st pos fin) \<longleftrightarrow>
     pos \<le> fin \<and> fin \<le> n \<and> 0 < fin \<and> ts = map (\<lambda>i. (i, i < pos)) [0..<n] \<and> {..<pos} \<subseteq> ended \<and>
     late = (fin < n) \<and> (st \<noteq> storage \<longrightarrow> late)"
| "stop_at n late ended storage ts StopReturned \<longleftrightarrow> \<not> late \<and> ts = [] \<and> {..<n} \<subseteq> ended"
| "stop_at n late ended storage ts (StopCrashed f) \<longleftrightarrow> late"
| "stop_at n late ended storage ts pc \<longleftrightarrow> \<not> late \<and> ts = map (\<lambda>i. (i, False)) [0..<n]"

definition shutdown_inv :: "shutdown_state \<Rightarrow> bool" where
  "shutdown_inv s \<longleftrightarrow>
     0 < sd_started s \<and> (sd_accept s = AcceptEnded \<longleftrightarrow> 0 \<in> sd_ended s) \<and>
     stop_at (sd_started s) (sd_late s) (sd_ended s) (sd_storage s) (sd_worker_threads s) (sd_stop s)"

lemma shutdown_invD:
  assumes "shutdown_inv s"
  shows "0 < sd_started s" and "sd_accept s = AcceptEnded \<longleftrightarrow> 0 \<in> sd_ended s"
    and "stop_at (sd_started s) (sd_late s) (sd_ended s) (sd_storage s) (sd_worker_threads s) (sd_stop s)"
  using assms by (simp_all add: shutdown_inv_def)

lemma shutdown_new_inv: "shutdown_inv (shutdown_new sock c)"
  by (simp add: shutdown_inv_def shutdown_new_def)

lemma stop_at_ended:
  "stop_at n late ended storage ts pc \<Longrightarrow> ended \<subseteq> ended' \<Longrightarrow> stop_at n late ended' storage ts pc"
  by (cases pc) auto

text \<open>A thread is added only while the accept thread runs, that is before anything is joined.\<close>

lemma stop_at_spawn:
  assumes "stop_at n late ended storage ts pc" and "0 \<notin> ended" and "0 < n"
    and "storage' = storage \<or> is_joining pc \<or> pc \<in> {StopNotCalled, StopFlagged, StopClosed, StopReturned}"
  shows "stop_at (Suc n) (late \<or> is_joining pc) ended storage' (ts @ [(n, False)]) pc"
proof (cases pc)
  case (StopJoining st pos fin)
  then have "pos = 0"
    using assms(1,2) by (cases pos) auto
  then show ?thesis
    using StopJoining assms(1) by auto
qed (use assms in auto)

lemma accept_step_inv:
  assumes "shutdown_inv s" and "accept_step grow m s = Some s'"
  shows "shutdown_inv s'"
proof (cases m)
  case LoopTest
  then show ?thesis
    using assms shutdown_invD [OF assms(1)]
    by (auto simp: shutdown_inv_def split: if_splits intro: stop_at_ended)
next
  case (AcceptReturns c)
  then show ?thesis
    using assms by (auto simp: shutdown_inv_def split: if_splits)
next
  case SpawnClient
  then obtain c where c: "sd_accept s = AcceptGot c"
      "s' = emplace_back grow (s\<lparr>sd_accept := AcceptTest\<rparr>)"
    using assms(2) by (auto split: accept_pc.splits)
  note d = shutdown_invD [OF assms(1)]
  have "0 \<notin> sd_ended s"
    using d(2) c(1) by simp
  then have "stop_at (Suc (sd_started s)) (sd_late s \<or> is_joining (sd_stop s)) (sd_ended s) st
      (sd_worker_threads s @ [(sd_started s, False)]) (sd_stop s)" for st
    using stop_at_spawn [OF d(3) _ d(1), of st] d(3) by (cases "sd_stop s") auto
  then show ?thesis
    using d(1) \<open>0 \<notin> sd_ended s\<close> c(2) by (simp add: shutdown_inv_def emplace_back_def Let_def)
qed

lemma joined_threads_upd:
  "pos < n \<Longrightarrow> (map (\<lambda>i. (i, i < pos)) [0..<n])[pos := (pos, True)] = map (\<lambda>i. (i, i < Suc pos)) [0..<n]"
  by (rule nth_equalityI) (auto simp: nth_list_update less_Suc_eq)

lemma stop_step_inv:
  assumes "shutdown_inv s" and "stop_step s = Some s'"
  shows "shutdown_inv s'"
proof -
  note d = shutdown_invD [OF assms(1)]
  show ?thesis
  proof (cases "sd_stop s")
    case (StopJoining st pos fin)
    then have ts: "sd_worker_threads s = map (\<lambda>i. (i, i < pos)) [0..<sd_started s]"
      and b: "pos \<le> fin" "fin \<le> sd_started s" "0 < fin" "{..<pos} \<subseteq> sd_ended s"
        "sd_late s = (fin < sd_started s)" "st \<noteq> sd_storage s \<longrightarrow> sd_late s"
      using d(3) by auto
    show ?thesis
    proof (cases "pos = fin")
      case True
      have "(\<forall>(i, joined)\<in>set (sd_worker_threads s). joined) = (fin = sd_started s)"
        using True b(2) by (force simp: ts)
      then show ?thesis
        using assms(2) StopJoining d(1,2) b True
        by (auto simp: stop_step_def shutdown_inv_def split: if_splits)
    next
      case False
      then have "sd_worker_threads s ! pos = (pos, False)"
        using b(1,2) by (simp add: ts)
      then show ?thesis
        using assms(2) StopJoining d(1,2) b False joined_threads_upd [of pos "sd_started s"]
        by (auto simp: stop_step_def shutdown_inv_def ts lessThan_Suc split: if_splits)
    qed
  qed (use assms(2) d in \<open>auto simp: stop_step_def shutdown_inv_def split: if_splits\<close>)
qed

lemma client_ends_inv:
  "shutdown_inv s \<Longrightarrow> 0 < i \<Longrightarrow> shutdown_inv (s\<lparr>sd_ended := insert i (sd_ended s)\<rparr>)"
  by (auto simp: shutdown_inv_def intro: stop_at_ended)

lemma shutdown_step_inv:
  assumes "shutdown_step grow m s = Some s'" and "shutdown_inv s"
  shows "shutdown_inv s'"
proof (cases m)
  case (AcceptMoves a)
  then show ?thesis
    using assms accept_step_inv by simp
next
  case (ClientEnds i)
  then show ?thesis
    using assms client_ends_inv by (auto split: if_splits)
next
  case StopMoves
  then show ?thesis
    using assms stop_step_inv by simp
qed

lemma shutdown_reachable_inv: "shutdown_reachable grow sock c s \<Longrightarrow> shutdown_inv s"
  by (induction rule: shutdown_reachable.induct) (auto intro: shutdown_new_inv shutdown_step_inv)

section \<open>Results\<close>

text \<open>C29: when \<^verbatim>\<open>stop\<close> is safe. In every interleaving of \<^verbatim>\<open>stop\<close>, the accept thread and the clients'
  threads, \<^verbatim>\<open>stop\<close> returns only if no client's thread was appended to the vector after it had begun to join,
  whenever that client was accepted; then every thread ever started has ended and the vector is empty. It
  crashes only if one was appended.\<close>

theorem stop_outcome:
  assumes "shutdown_reachable grow sock c s"
  shows "(sd_stop s = StopReturned \<longrightarrow>
            \<not> sd_late s \<and> sd_worker_threads s = [] \<and> {..<sd_started s} \<subseteq> sd_ended s) \<and>
         ((\<exists>f. sd_stop s = StopCrashed f) \<longrightarrow> sd_late s)"
  using shutdown_invD(3) [OF shutdown_reachable_inv [OF assms]] by auto

definition quiet_stop :: "shutdown_move list" where
  "quiet_stop = [AcceptMoves LoopTest, StopMoves, StopMoves, StopMoves, AcceptMoves (AcceptReturns (-1)),
     AcceptMoves LoopTest, StopMoves, StopMoves]"

theorem stop_outcome_witness:
  "\<exists>s. shutdown_run Suc quiet_stop (shutdown_new 3 1) = Some s \<and> sd_stop s = StopReturned \<and>
       sd_ended s = {0} \<and> \<not> sd_late s"
proof -
  obtain s where s: "shutdown_run Suc quiet_stop (shutdown_new 3 1) = Some s" "sd_stop s = StopReturned"
      "sd_ended s = {0}"
    by (simp add: quiet_stop_def shutdown_new_def stop_step_def)
  then show ?thesis
    using stop_outcome [OF shutdown_run_reachable [OF sd_new s(1)]] by simp
qed

text \<open>A connection that arrives while \<^verbatim>\<open>stop\<close> waits for the accept thread crashes the server. The accept thread is
  blocked in \<^verbatim>\<open>accept\<close> when \<^verbatim>\<open>stop\<close> begins to join it; the call returns the new client, whose
  thread is appended. If the vector is full it moves to new storage and the iterators of \<^verbatim>\<open>stop\<close>
  dangle; otherwise the new thread lies behind the end the loop has taken, is not joined, and its
  destruction by \<^verbatim>\<open>clear\<close> terminates the process.\<close>

definition late_client :: "int \<Rightarrow> shutdown_move list" where
  "late_client client_fd =
     [AcceptMoves LoopTest, StopMoves, StopMoves, StopMoves, AcceptMoves (AcceptReturns client_fd),
      AcceptMoves SpawnClient, AcceptMoves LoopTest]"

theorem late_client_crashes_stop:
  assumes "0 \<le> client_fd"
  shows "\<exists>n s. shutdown_run grow (late_client client_fd @ replicate n StopMoves) (shutdown_new sock c) = Some s \<and>
           shutdown_reachable grow sock c s \<and>
           sd_stop s = StopCrashed (if c \<le> 1 then DanglingIterator else JoinableDestroyed)"
proof -
  let ?n = "if c \<le> 1 then 1 else 2 :: nat"
  have "\<exists>s. shutdown_run grow (late_client client_fd @ replicate ?n StopMoves) (shutdown_new sock c) = Some s \<and>
      sd_stop s = StopCrashed (if c \<le> 1 then DanglingIterator else JoinableDestroyed)"
    using assms
    by (cases "c \<le> 1")
       (simp_all add: late_client_def shutdown_new_def stop_step_def emplace_back_def eval_nat_numeral)
  then show ?thesis
    using shutdown_run_reachable [OF sd_new] by blast
qed

theorem late_client_crashes_stop_witness:
  "\<exists>n s. shutdown_run (\<lambda>c. 2 * c) (late_client 9 @ replicate n StopMoves) (shutdown_new 3 1) = Some s \<and>
         sd_stop s = StopCrashed DanglingIterator"
  using late_client_crashes_stop [of 9 "\<lambda>c. 2 * c" 3 1] by auto

text \<open>\<^verbatim>\<open>stop\<close> returns if it is let. Once it is joining, if no thread has been appended late and every
  thread has ended, its own remaining steps, one for each thread left and one to clear the vector, take
  it to its end whatever the capacity. Nothing else makes the clients' threads end: \<^verbatim>\<open>stop\<close> closes the
  listening socket only.\<close>

theorem stop_returns:
  assumes "shutdown_reachable grow sock c s" and "sd_stop s = StopJoining st pos fin"
    and "\<not> sd_late s" and "{..<sd_started s} \<subseteq> sd_ended s"
  shows "\<exists>s'. shutdown_run grow (replicate (Suc (fin - pos)) StopMoves) s = Some s' \<and> sd_stop s' = StopReturned"
  using assms
proof (induction "fin - pos" arbitrary: s pos)
  case 0
  note d = shutdown_invD(3) [OF shutdown_reachable_inv [OF 0(2)]]
  then have "pos = fin" "sd_worker_threads s = map (\<lambda>i. (i, i < fin)) [0..<fin]"
    using 0 by auto
  then show ?case
    using 0 by (auto simp: stop_step_def)
next
  case (Suc k)
  note d = shutdown_invD(3) [OF shutdown_reachable_inv [OF Suc(3)]]
  have t: "sd_worker_threads s ! pos = (pos, False)" "pos \<noteq> fin" "st = sd_storage s" "pos \<in> sd_ended s"
    using d Suc(2-6) by auto
  let ?s = "s\<lparr>sd_worker_threads := (sd_worker_threads s)[pos := (pos, True)],
             sd_stop := StopJoining st (Suc pos) fin\<rparr>"
  have step: "shutdown_step grow StopMoves s = Some ?s"
    using t Suc(4) by (simp add: stop_step_def)
  have "\<exists>s'. shutdown_run grow (replicate (Suc (fin - Suc pos)) StopMoves) ?s = Some s' \<and>
      sd_stop s' = StopReturned"
    using Suc(2,5,6) by (intro Suc(1) [OF _ sd_step [OF Suc(3) step]]) auto
  moreover have "replicate (Suc (fin - pos)) StopMoves = StopMoves # replicate (Suc (fin - Suc pos)) StopMoves"
    using Suc(2) by (metis Suc_diff_Suc replicate_Suc zero_less_Suc zero_less_diff)
  ultimately show ?case
    using step by simp
qed

theorem stop_returns_witness:
  "\<exists>s s'. shutdown_run Suc (take 6 quiet_stop) (shutdown_new 3 1) = Some s \<and>
          shutdown_run Suc (replicate 2 StopMoves) s = Some s' \<and> sd_stop s' = StopReturned"
proof -
  obtain s where s: "shutdown_run Suc (take 6 quiet_stop) (shutdown_new 3 1) = Some s"
      "sd_stop s = StopJoining 0 0 1" "\<not> sd_late s" "sd_started s = 1" "sd_ended s = {0}"
    by (simp add: quiet_stop_def shutdown_new_def stop_step_def)
  then show ?thesis
    using stop_returns [OF shutdown_run_reachable [OF sd_new s(1)] s(2,3)]
    by (auto simp: numeral_2_eq_2 lessThan_Suc)
qed

end
