(* ===== verification/Spec2Isabelle.thy ===== *)
theory Spec2Isabelle
  imports Benchmark_Report Process_Signals Gateway_Interleaving Queue_Release_Acquire Tcp_Shutdown
begin

text \<open>
  A verification of the C++ core of a trading gateway (directory \<^verbatim>\<open>src/cpp-core\<close>) and of its load
  generator (\<^verbatim>\<open>src/benchmarks\<close>).

  \<^bold>\<open>The program.\<close> Clients send binary requests over TCP. \<^verbatim>\<open>TCPServer\<close> accepts connections and runs
  one thread per client, which calls the message handler of \<^verbatim>\<open>GatewayServer\<close> for each \<^verbatim>\<open>recv\<close>. The
  handler validates and parses the bytes with \<^verbatim>\<open>MessageParser\<close>, hands the request to
  \<^verbatim>\<open>MatchingEngine\<close> and acknowledges it. The engine allocates a command and pushes its address
  into a \<^verbatim>\<open>LockFreeQueue\<close>; a worker thread pops it, applies it to the \<^verbatim>\<open>OrderBook\<close> of the symbol,
  matches, reports the trades to a callback of the gateway, which notifies buyer and seller, and
  sends metrics with \<^verbatim>\<open>StatsDClient\<close>. \<^verbatim>\<open>main\<close> starts all of it and waits for a signal.

  \<^bold>\<open>Theories and what they model.\<close>

  \<^item> \<open>Gateway_Prelude\<close>: words of the machine, faults, little-endian codecs, C strings, decimal
    numbers, the lifting of a simulated step to runs (locale \<open>run_simulation\<close>), the contract of
    \<^verbatim>\<open>std::sort\<close> (locales \<open>std_sort\<close>, \<open>std_stable_sort\<close>, interpreted on an executable insertion sort).
  \<^item> \<open>Message_Parser\<close> (\<^verbatim>\<open>network/message_parser\<close>): the packed structs as records with memory
    images, checksum, validation, parsing and serialising. Shows that what is serialised is
    accepted and read back, when validation leaves the buffer, which errors the checksum finds.
  \<^item> \<open>Lockfree_Queue\<close> (\<^verbatim>\<open>lockfree_queue/lockfree_queue.h\<close>): the node array and each method run
    alone. Locales \<open>fifo_queue\<close> and \<open>finite_life_queue\<close>, interpreted on the model: first in first
    out, and \<^verbatim>\<open>Size - 1\<close> accepted pushes in a life.
  \<^item> \<open>Queue_Concurrency\<close>: the same methods as atomic accesses in any interleaving (an inductive
    step relation over program counters). One producer and one consumer: linearizable. Two
    producers: an order can be lost.
  \<^item> \<open>Queue_Release_Acquire\<close>: the accesses with the memory orders of the code, on a memory that keeps
    old values visible. One producer and one consumer: still linearizable, by a simulation on
    \<open>Queue_Concurrency\<close>; and what a popped pointer points to has been published.
  \<^item> \<open>Order_Book\<close> (\<^verbatim>\<open>matching_engine/order_book\<close>): add, match, cancel, modify; the sort is an
    argument. Locales \<open>order_book_ops\<close> and \<open>order_sorting\<close>. Sortedness, conservation of quantity,
    maximal volume, limits, priority.
  \<^item> \<open>Statsd_Client\<close> (\<^verbatim>\<open>network/statsd_client\<close>): the datagrams.
  \<^item> \<open>Matching_Engine\<close> (\<^verbatim>\<open>matching_engine/matching_engine\<close>): requests, worker and destructor over an
    explicit heap of commands. Ownership of the commands, refinement of sequential application,
    consistency of books and identifier index.
  \<^item> \<open>Tcp_Server\<close> (\<^verbatim>\<open>network/tcp_server\<close>): start, stop, accept loop, client loop with its reused
    buffer, over given results of the socket calls. Locale \<open>session_owner\<close> is the contract
    between the server and the owner of its handlers.
  \<^item> \<open>Tcp_Shutdown\<close>: \<^verbatim>\<open>stop\<close> and the accept loop as concurrent steps over the vector of threads, with its
    capacity and storage. When \<^verbatim>\<open>stop\<close> is safe, that it then returns, and the late client that
    crashes it.
  \<^item> \<open>Gateway_Server\<close> (\<^verbatim>\<open>order_gateway/gateway_server\<close>): the handlers, answers, sessions and trade
    callback; \<open>session_owner\<close> is interpreted on them, and \<open>run_simulation\<close> on the gateway driving
    the engine. A specification reads requests out of buffers; the handlers are shown to perform and
    answer exactly these.
  \<^item> \<open>Gateway_Types\<close>: what it means for commands, books and messages to have the layout of their
    types, and that the operations keep it.
  \<^item> \<open>Gateway_Interleaving\<close>: the handlers of all connections and the worker, taking steps between
    their critical sections, engine calls and sends in any order. Refinement of sequential
    matching, parties of every trade known, owners of orders connected, equivalence with the handlers of
    \<open>Gateway_Server\<close> when uninterrupted, a trade notification that overtakes the acknowledgement.
  \<^item> \<open>Gateway_Main\<close> (\<^verbatim>\<open>order_gateway/main.cpp\<close> and the lifecycle of \<^verbatim>\<open>GatewayServer\<close>): port argument,
    start with its errors and exceptions, signal, exit status, calls made, joins that never return.
  \<^item> \<open>Process_Signals\<close>: \<^verbatim>\<open>main\<close>, the accept loop and the signal handler step by step, the handler interrupting
    any thread, itself included. One invariant holds for every process, a stronger one when the main thread
    handles the signals while the server exists: then it is safe, and ends if the clients have left
    and \<^verbatim>\<open>accept\<close> returns. What goes wrong otherwise: a pending \<^verbatim>\<open>accept\<close>, a handler on another thread, a
    signal that comes too early or too late.
  \<^item> \<open>Benchmark\<close> (\<^verbatim>\<open>benchmarks/benchmark.cpp\<close>): counters, sequentially and under interleaving, the
    termination of their retry loops, text messages, clients with their socket calls.
  \<^item> \<open>Benchmark_Report\<close>: \<^verbatim>\<open>print_stats\<close> and \<^verbatim>\<open>main\<close> of the load generator. The report is right and does
    not depend on the schedule; no socket is leaked.
  \<^item> this theory: the composition, from received bytes to books, and the life of the process from its
    start over its clients to the signal that ends it.

  \<^bold>\<open>Correspondence.\<close> A class is a record with its members, a method \<^verbatim>\<open>C::m\<close> a function \<open>C_m\<close> from
  the old to the new state (a constructor is \<open>C_new\<close>, a destructor \<open>C_destroy\<close>). Undefined
  behaviour is a value: an operation returns \<open>Inl\<close> of a fault or \<open>Inr\<close> of its result. Exceptions and
  \<^verbatim>\<open>std::expected\<close> errors are values of a sum below that. A pointer into an array is the list of
  bytes from there to its end. Uninitialised memory, clocks, random numbers, results of system
  calls and failing allocations are arguments. Integers keep their width as words, except
  positions below the length of an allocated array, which are natural numbers.

  \<^bold>\<open>Bounds and termination.\<close> The size of the queues is an argument \<open>N\<close>, 10000 in the code; theorems hold
  for every positive \<open>N\<close>. Loops over input from outside (worker, accept, receive) run over the list
  of their turns; that enough turns drain the queue is a theorem, not an assumption. The destructor's
  loop of the queue is a partial function, shown to return. The receive buffer has 4096 bytes.
  A join of a thread that does not end is the result \<open>None\<close> of \<^verbatim>\<open>stop\<close>, or a step that is not possible; which
  threads end is an argument. There is no fuel.

  \<^bold>\<open>Layers of concurrency.\<close> Each layer takes the operations of the one below as single steps: the
  memory accesses of the queue in \<open>Queue_Release_Acquire\<close> and \<open>Queue_Concurrency\<close>, the queue's operations
  and the critical sections in \<open>Gateway_Interleaving\<close>, whole handlers in \<open>Gateway_Server\<close>. Two handlers
  that push at the same time are not covered by the upper layers, since the queue is not correct
  for two producers; \<open>Queue_Concurrency\<close> shows what then happens. Shutdown has two views: the vector of
  threads against the accept loop in \<open>Tcp_Shutdown\<close>, and the threads against the signal in \<open>Process_Signals\<close>.

  \<^bold>\<open>Not modelled.\<close> The Windows branches, which start and clean up Winsock; log output; allocation failure
  other than that of a command; a client's thread that cannot be created, which ends the process; the data
  races of \<^verbatim>\<open>stop\<close> and the accept thread on the vector of threads, whose append is one step here, and on
  the plain \<^verbatim>\<open>int\<close> \<^verbatim>\<open>m_server_fd\<close>; locks of the standard library that a signal handler finds taken;
  \<^verbatim>\<open>SIGPIPE\<close> of a \<^verbatim>\<open>send\<close> to a closed connection; the rounding to \<^verbatim>\<open>double\<close> and the
  formatting of the load generator's report. The REST API in Rust, the Python drivers, the SQL
  schema and the tests are separate programs and are left out. What the map leaves of the C++
  sources is include directives, forward declarations of methods and closing braces.
\<close>

section \<open>From bytes to books\<close>

fun ids_fresh :: "order_sort \<Rightarrow> Order list \<Rightarrow> books \<Rightarrow> symbols \<Rightarrow> bool" where
  "ids_fresh srt [] books ids \<longleftrightarrow> True"
| "ids_fresh srt (cmd # cmds) books ids \<longleftrightarrow>
     fresh_id books cmd \<and>
     (case apply_command srt cmd books ids of
        Inl f \<Rightarrow> True | Inr (books', ids', ts) \<Rightarrow> ids_fresh srt cmds books' ids')"

lemma apply_commands_books_inv:
  assumes "std_sort srt"
  shows "books_inv books ids \<Longrightarrow> ids_fresh srt cmds books ids \<Longrightarrow>
         apply_commands srt cmds books ids = Inr (books', ids', ts) \<Longrightarrow> books_inv books' ids'"
proof (induction cmds arbitrary: books ids ts)
  case Nil
  then show ?case by simp
next
  case (Cons c cmds)
  then obtain b i t1 t2 where c: "apply_command srt c books ids = Inr (b, i, t1)"
    "apply_commands srt cmds b i = Inr (books', ids', t2)"
    unfolding apply_commands_Cons_Inr by blast
  moreover have "books_inv b i"
    using order_sorting.apply_command_books_inv [OF order_sorting.intro [OF assms] Cons.prems(1) _ c(1)]
      Cons.prems(2) by simp
  ultimately show ?case
    using Cons.IH [of b i t2] Cons.prems(2) by simp
qed

lemma gateway_run_applied:
  assumes "0 < N" and "\<forall>ev\<in>set evs. event_ok ev"
  shows "\<exists>g trades applied.
           gateway_run N srt inet evs (started_core N s) = Inr g \<and>
           take (N - 1) (concat (map request_of (concat (map engine_events evs)))) =
             applied @ pending (gc_matching_engine g) \<and>
           apply_commands srt applied Map.empty Map.empty =
             Inr (me_order_books (gc_matching_engine g),
                  me_order_id_to_symbol (gc_matching_engine g), trades)"
proof -
  obtain g ts where g: "gateway_run N srt inet evs (started_core N s) = Inr g"
    "engine_run N srt inet (concat (map engine_events evs)) (started_engine N s) =
       Inr (gc_matching_engine g, ts)"
    using gateway_engine.run_simulates [OF started_core_ok [OF assms(1), of s] assms(2), of srt inet] by auto
  have "\<forall>cmd\<in>set (concat (map request_of (concat (map engine_events evs)))). symbol_ok cmd"
    using assms(2) engine_events_ok by fastforce
  then show ?thesis
    using engine_run_moves [OF started_engine(1) [OF assms(1), of s],
        of "concat (map engine_events evs)" srt inet] g
    by (auto simp: started_engine engine_moves_def)
qed

text \<open>C2: the gateway refines sequential matching of the requests in its clients' buffers. Run a
  started gateway on any interleaving of connects, received buffers, disconnects and worker
  turns, the buffers being well framed: there is no undefined behaviour; the requests that are
  ever queued are the first \<open>N - 1\<close> that the buffers hold, in the order of their arrival; and the
  books and the identifier index are those of applying a prefix of them one by one, the rest
  still pending.\<close>

theorem gateway_refines_sequential:
  assumes "0 < N" and "\<forall>ev\<in>set evs. event_ok ev"
  shows "\<exists>g trades applied.
           gateway_run N srt inet evs (started_core N s) = Inr g \<and>
           take (N - 1) (concat (map request_of (concat (map engine_events evs)))) =
             applied @ pending (gc_matching_engine g) \<and>
           apply_commands srt applied Map.empty Map.empty =
             Inr (me_order_books (gc_matching_engine g),
                  me_order_id_to_symbol (gc_matching_engine g), trades)"
  by (rule gateway_run_applied [OF assms])

definition sample_events :: "gateway_event list" where
  "sample_events =
     [ClientConnects sample_env 7,
      ClientSends sample_env 7 (padded (request_frame 5 (sample_request 1))) 50,
      WorkerRuns (\<lambda>_. sample_env) 3]"

lemma sample_events_ok: "\<forall>ev\<in>set sample_events. event_ok ev"
  using request_frame_in_bounds [of "sample_request 1" 5 "replicate 4046 0"]
  by (simp add: sample_events_def well_framed_def buffer_size_def request_in_frame request_wf_terminated)

lemma sample_events_requests:
  "concat (map request_of (concat (map engine_events sample_events))) =
     [Order_make 1 100 5 [66, 84, 67] True]"
  by (simp add: sample_events_def sizeof_MessageHeader_def request_in_frame)
     (simp add: sample_request_def sample_env_def)

theorem gateway_refines_sequential_witness:
  "\<exists>g applied. gateway_run 10000 insertion_sort (\<lambda>_. None) sample_events (started_core 10000 4) = Inr g \<and>
     [Order_make 1 100 5 [66, 84, 67] True] = applied @ pending (gc_matching_engine g)"
  using gateway_refines_sequential [OF _ sample_events_ok, of 10000 insertion_sort "\<lambda>_. None" 4]
    sample_events_requests
  by (simp add: take_Cons') blast

text \<open>C12: the books of a running gateway stay consistent. If the requests carry new identifiers
  for new orders, every book is well-formed and sorted, holds the orders of its own symbol
  only, has no identifier on both sides, and the identifier index finds every resting order.\<close>

theorem gateway_books_consistent:
  assumes "0 < N" and "\<forall>ev\<in>set evs. event_ok ev" and "std_sort srt"
    and "\<And>cmds. prefix cmds (concat (map request_of (concat (map engine_events evs)))) \<Longrightarrow>
           ids_fresh srt cmds Map.empty Map.empty"
    and "gateway_run N srt inet evs (started_core N s) = Inr g"
  shows "books_inv (me_order_books (gc_matching_engine g)) (me_order_id_to_symbol (gc_matching_engine g))"
proof -
  let ?reqs = "concat (map request_of (concat (map engine_events evs)))"
  obtain trades applied where
    a: "take (N - 1) ?reqs = applied @ pending (gc_matching_engine g)"
      "apply_commands srt applied Map.empty Map.empty =
         Inr (me_order_books (gc_matching_engine g), me_order_id_to_symbol (gc_matching_engine g), trades)"
    using gateway_run_applied [OF assms(1,2), of srt inet s] assms(5) by auto
  have "prefix applied ?reqs"
    using a(1) take_is_prefix [of "N - 1" ?reqs] by (metis prefixI prefix_order.trans)
  moreover have "books_inv Map.empty Map.empty"
    by (simp add: books_inv_def)
  ultimately show ?thesis
    using apply_commands_books_inv [OF assms(3) _ assms(4) a(2)] by blast
qed

theorem gateway_books_consistent_witness:
  "\<exists>g. gateway_run 10000 insertion_sort (\<lambda>_. None) sample_events (started_core 10000 4) = Inr g \<and>
     books_inv (me_order_books (gc_matching_engine g)) (me_order_id_to_symbol (gc_matching_engine g))"
proof -
  obtain g where g: "gateway_run 10000 insertion_sort (\<lambda>_. None) sample_events (started_core 10000 4) = Inr g"
    using gateway_run_applied [OF _ sample_events_ok, of 10000 insertion_sort "\<lambda>_. None" 4] by auto
  have "ids_fresh insertion_sort cmds Map.empty Map.empty"
    if "prefix cmds [Order_make 1 100 5 [66, 84, 67] True]" for cmds
    using that by (auto simp: prefix_Cons fresh_id_def split: sum.split)
  then show ?thesis
    using gateway_books_consistent [OF _ sample_events_ok sample_sort _ g] g
    by (simp add: sample_events_requests)
qed

text \<open>C13: the gateway is type-sound. If the uninitialised orders that cancel and modify requests start
  from have the size of their type, so has every queued command and every order in a book, and
  every message ever sent is exactly one packed \<^verbatim>\<open>OrderAck\<close> or \<^verbatim>\<open>Trade\<close> behind a header that states its
  length and type and that the program's own parser and checksum accept.\<close>

theorem gateway_well_typed:
  assumes "0 < N" and "\<forall>ev\<in>set evs. event_ok ev \<and> event_typed ev" and "std_sort srt"
    and "gateway_run N srt inet evs (started_core N s) = Inr g"
  shows "(\<forall>cmd\<in>set (pending (gc_matching_engine g)). order_typed cmd) \<and>
         books_all order_typed (me_order_books (gc_matching_engine g)) \<and>
         (\<forall>(c, m)\<in>set (gc_sent g). message_typed m)"
proof -
  let ?reqs = "concat (map request_of (concat (map engine_events evs)))"
  have ok: "\<forall>ev\<in>set evs. event_ok ev"
    using assms(2) by blast
  obtain trades applied where
    a: "take (N - 1) ?reqs = applied @ pending (gc_matching_engine g)"
      "apply_commands srt applied Map.empty Map.empty =
         Inr (me_order_books (gc_matching_engine g), me_order_id_to_symbol (gc_matching_engine g), trades)"
    using gateway_run_applied [OF assms(1) ok, of srt inet s] assms(4) by auto
  have "\<forall>cmd\<in>set ?reqs. order_typed cmd"
    using engine_events_typed assms(2) by fastforce
  then have typed: "\<forall>cmd\<in>set (applied @ pending (gc_matching_engine g)). order_typed cmd"
    unfolding a(1) [symmetric] by (blast dest: in_set_takeD)
  have "books_all order_typed (me_order_books (gc_matching_engine g))"
    using order_sorting.apply_commands_all [OF order_sorting.intro [OF assms(3)] listing_order_typed _ _ a(2)]
      typed by simp
  moreover have "\<forall>(c, m)\<in>set (gc_sent g). message_typed m"
    using gateway_run_sends [OF started_core_ok [OF assms(1)] ok assms(4)]
    by (simp add: started_core_def)
  ultimately show ?thesis
    using typed by simp
qed

theorem gateway_well_typed_witness:
  "\<exists>g. gateway_run 10000 insertion_sort (\<lambda>_. None) sample_events (started_core 10000 4) = Inr g \<and>
     (\<forall>(c, m)\<in>set (gc_sent g). message_typed m)"
proof -
  obtain g where g: "gateway_run 10000 insertion_sort (\<lambda>_. None) sample_events (started_core 10000 4) = Inr g"
    using gateway_run_applied [OF _ sample_events_ok, of 10000 insertion_sort "\<lambda>_. None" 4] by auto
  have "\<forall>ev\<in>set sample_events. event_typed ev"
    by (simp add: sample_events_def sample_env_def order_typed_def Order_make_def)
  then show ?thesis
    using gateway_well_typed [OF _ _ sample_sort g] sample_events_ok g by simp
qed

text \<open>C14: no client can break the server by what it sends in well-framed buffers. On the TCP server
  the constructor sets up, a connection's thread runs its handlers without undefined behaviour
  over any sequence of receives, keeps the ownership invariant of the engine, and closes the
  client's socket exactly once, when it ends.\<close>

theorem connection_safe:
  assumes "engine_inv N (gc_matching_engine g)"
    and "\<forall>(e, buffer, n)\<in>set (served_calls junk turns). good_buffer buffer n"
  shows "\<exists>status calls g'.
           handle_client (gs_tcp_server (GatewayServer_new N port sock)) env c junk turns g =
             Inr (status, calls, g') \<and>
           engine_inv N (gc_matching_engine g') \<and> (status = Finished \<longrightarrow> calls = [SysClose c])"
  by (rule gateway.handle_client_inv [OF assms(1)])
     (use assms(2) in \<open>simp_all add: GatewayServer_new_def TCPServer_set_message_handler_def
        TCPServer_set_connect_handler_def TCPServer_set_disconnect_handler_def\<close>)

theorem connection_safe_witness:
  "\<exists>g. handle_client (gs_tcp_server (GatewayServer_new 10000 8080 4)) sample_env 7 (replicate 4096 0)
     [\<lparr>ct_running = True, ct_recv = Received (request_frame 5 (sample_request 1)), ct_env = sample_env\<rparr>,
      \<lparr>ct_running = True, ct_recv = Received [], ct_env = sample_env\<rparr>] (started_core 10000 4) =
   Inr (Finished, [SysClose 7], g)"
proof -
  let ?turns = "[\<lparr>ct_running = True, ct_recv = Received (request_frame 5 (sample_request 1)), ct_env = sample_env\<rparr>,
      \<lparr>ct_running = True, ct_recv = Received [], ct_env = sample_env\<rparr>]"
  have f: "request_frame 5 (sample_request 1) \<noteq> []"
    using length_sample_frame [of 5 1] by (metis list.size(3) zero_neq_numeral)
  have good: "good_buffer (request_frame 5 (sample_request 1) @ replicate 4046 0) 50"
    using request_frame_in_bounds [of "sample_request 1" 5 "replicate 4046 0"]
    by (simp add: good_buffer_def well_framed_def buffer_size_def request_in_frame request_wf_terminated)
  have calls: "served_calls (replicate 4096 0) ?turns =
      [(sample_env, request_frame 5 (sample_request 1) @ replicate 4046 0, 50)]"
    using f by (simp add: turn_served_def turn_data_def recv_into_def)
  have ok: "\<forall>(e, buffer, n)\<in>set (served_calls (replicate 4096 0) ?turns). good_buffer buffer n"
    unfolding calls using good by simp
  have inv: "engine_inv 10000 (gc_matching_engine (started_core 10000 4))"
    using started_engine(1) [of 10000 4] by simp
  have status: "\<not> (\<forall>t\<in>set ?turns. turn_served t)"
    by (simp add: turn_served_def)
  obtain st cs g where h: "handle_client (gs_tcp_server (GatewayServer_new 10000 8080 4)) sample_env 7
      (replicate 4096 0) ?turns (started_core 10000 4) = Inr (st, cs, g)"
    "st = Finished \<longrightarrow> cs = [SysClose 7]"
    using connection_safe [OF inv ok, of 8080 4 sample_env 7] by blast
  have "st = Finished"
    using h(1) status unfolding handle_client_def
    by (auto simp: GatewayServer_new_def TCPServer_set_message_handler_def client_loop_calls
        map_sum_id_eq_Inr call_session_handler_def split: sum.splits client_status.splits
        simp del: client_loop.simps served_calls.simps)
  then show ?thesis
    using h by simp
qed

section \<open>The life of the process\<close>

lemma main_start_core:
  assumes "main_start N argv sock ends r = Inr (Waits calls s)"
  shows "gs_core s = started_core N sock" and "all_running s" and "calls_ok r"
    and "ts_server_fd (gs_tcp_server s) = res_socket r"
    and "ts_worker_threads (gs_tcp_server s) = [AcceptThread]"
    and "\<forall>c. SysClose c \<notin> set calls"
proof -
  obtain port where st: "GatewayServer_start r (GatewayServer_new N port sock) = (Started, calls, s)"
    using assms
    by (auto simp: main_start_def main_catch_def leave_block_def
        split: sum.splits prod.splits start_result.splits option.splits)
  show "all_running s" and "calls_ok r"
    using start_running [OF none_running_new st] by (auto split: if_splits)
  show "ts_server_fd (gs_tcp_server s) = res_socket r" and "ts_worker_threads (gs_tcp_server s) = [AcceptThread]"
    and "\<forall>c. SysClose c \<notin> set calls"
    using start_new [OF st] by auto
  show "gs_core s = started_core N sock"
    using st
    by (auto simp: lifecycle_defs TCPServer_start_def started_core_def started_engine_def split: if_splits)
qed

lemma engine_inv_stop: "engine_inv N e \<Longrightarrow> engine_inv N (MatchingEngine_stop e)"
  by (simp add: engine_inv_def MatchingEngine_stop_def Let_def)

text \<open>C9: a whole life. Start the process, let it accept any connections and serve any interleaving of
  connects, well-framed buffers, disconnects and worker turns, then send it a signal: nothing on the
  way is undefined. If the accept thread and the threads of all accepted clients end, the handler joins
  each of them and returns, \<^verbatim>\<open>main\<close> ends with status 0, the listening socket has been closed exactly
  once, and the destruction of the engine frees every command that is still queued, so that none is
  leaked, and closes the metrics socket. If one of them does not end, say because its client stays
  connected, the handler never returns.\<close>

theorem process_life_safe:
  assumes "0 < N" and "main_start N argv sock ends r = Inr (Waits calls s)" and "\<forall>ev\<in>set evs. event_ok ev"
    and "accept_connections turns (gs_tcp_server s) = (acalls, tcp)"
  shows "\<exists>g. gateway_run N srt inet evs (gs_core s) = Inr g \<and>
           (if ends AcceptThread \<and> (\<forall>c\<in>set (accepted_fds turns). ends (ClientThread c))
            then \<exists>calls' s' calls'' h.
                   signal_handler ends (Some (s\<lparr>gs_core := g, gs_tcp_server := tcp\<rparr>)) = Some (calls', Some s') \<and>
                   (\<forall>w\<in>insert AcceptThread (ClientThread ` set (accepted_fds turns)). ThreadJoin w \<in> set calls') \<and>
                   main_finish N ends s' = Exits 0 calls'' \<and>
                   count (mset (calls @ acalls @ calls' @ calls'')) (SysClose (res_socket r)) = 1 \<and>
                   MatchingEngine_destroy N (gc_matching_engine (gs_core s')) =
                     Some (Inr (h, StatsDClient_destroy (me_statsd (gc_matching_engine g)))) \<and> live h = {}
            else signal_handler ends (Some (s\<lparr>gs_core := g, gs_tcp_server := tcp\<rparr>)) = None)"
proof -
  note st = main_start_core [OF assms(2)] and acc = accept_connections_threads [OF assms(4)]
  have start: "core_ok N (gs_core s)"
    using started_core_ok [OF assms(1), of sock] st(1) by simp
  obtain g where g: "gateway_run N srt inet evs (gs_core s) = Inr g" "core_ok N g"
    using gateway_engine.run_simulates [OF start assms(3), of srt inet] by auto
  let ?s = "s\<lparr>gs_core := g, gs_tcp_server := tcp\<rparr>"
  have run: "gs_running ?s" "0 \<le> ts_server_fd (gs_tcp_server ?s)"
    using st(2,3,4) acc by (simp_all add: calls_ok_def all_running_def)
  have fin: "if list_all ends (AcceptThread # map ClientThread (accepted_fds turns))
        then \<exists>s'. signal_handler ends (Some ?s) =
               Some (SysClose (res_socket r) # map ThreadJoin (AcceptThread # map ClientThread (accepted_fds turns)), Some s') \<and>
             gc_matching_engine (gs_core s') = MatchingEngine_stop (gc_matching_engine g) \<and>
             main_finish N ends s' = Exits 0 []
        else signal_handler ends (Some ?s) = None"
    using stop_and_finish [OF run, of ends N] acc st(4,5) by (auto split: if_splits)
  obtain h where h: "MatchingEngine_destroy N (MatchingEngine_stop (gc_matching_engine g)) =
      Some (Inr (h, StatsDClient_destroy (me_statsd (gc_matching_engine g))))" "live h = {}"
    using engine_destroy_frees [OF engine_inv_stop [OF core_okD(1) [OF g(2)]]]
    by (auto simp: MatchingEngine_stop_def Let_def)
  have "count (mset (calls @ acalls)) (SysClose (res_socket r)) = 0"
    using st(6) acc by (simp add: count_eq_zero_iff)
  moreover have "SysClose (res_socket r) \<notin> set (map ThreadJoin ws)" for ws
    by auto
  ultimately show ?thesis
    using fin g(1) h by (auto simp: list_all_iff count_eq_zero_iff image_iff split: if_splits)
qed

theorem process_life_safe_witness:
  "\<exists>calls s g acalls tcp calls' s' calls''.
     main_start 10000 [''gateway''] 4 (\<lambda>_. True) good_results = Inr (Waits calls s) \<and>
     gateway_run 10000 insertion_sort (\<lambda>_. None) sample_events (gs_core s) = Inr g \<and>
     accept_connections sample_turns (gs_tcp_server s) = (acalls, tcp) \<and>
     signal_handler (\<lambda>_. True) (Some (s\<lparr>gs_core := g, gs_tcp_server := tcp\<rparr>)) = Some (calls', Some s') \<and>
     ThreadJoin (ClientThread 5) \<in> set calls' \<and>
     main_finish 10000 (\<lambda>_. True) s' = Exits 0 calls''"
proof -
  obtain result calls s where st: "GatewayServer_start good_results (GatewayServer_new 10000 8080 4) = (result, calls, s)"
    by (metis prod_cases3)
  then have "result = Started"
    using start_running [OF none_running_new st] good_results_ok by simp
  then have m: "main_start 10000 [''gateway''] 4 (\<lambda>_. True) good_results = Inr (Waits calls s)"
    using st by (simp add: main_start_def main_port_def)
  obtain acalls tcp where a: "accept_connections sample_turns (gs_tcp_server s) = (acalls, tcp)"
    by (metis surj_pair)
  have "5 \<in> set (accepted_fds sample_turns)"
    by (simp add: accepted_fds_def sample_turns_def)
  then show ?thesis
    using process_life_safe [OF _ m sample_events_ok a, of insertion_sort "\<lambda>_. None"] m a
    by (simp del: accept_connections.simps) blast
qed

end
